(* ===== verification/Prelude.thy ===== *)
theory Prelude
  imports Main "HOL-Library.Code_Target_Numeral" "HOL-Library.Word" "HOL-Library.Monad_Syntax" "HOL-Library.Char_ord"
begin

text \<open>
  Shared vocabulary of the development: names for the machine types of the C code, checked
  array reads, signed 64-bit arithmetic, and facts on lists and the option monad, which stands for
  undefined behaviour.

  Conventions used in every theory.
  \<^item> Unsigned C integers are words of their width (\<open>uint64_t\<close> is \<open>64 word\<close>), so \<open>+\<close> wraps.
    Signed C integers are \<open>int\<close> values kept in the range of their type; a conversion from an
    unsigned value is \<open>sint\<close>, and a signed overflow, which C leaves undefined, is \<open>None\<close>.
  \<^item> A C array is a list; a read or write outside it is undefined behaviour and gives \<open>None\<close>.
  \<^item> A \<open>char\<close> array that the code only uses through the string functions is the C string it
    holds: a \<open>char list\<close> without the NUL byte.
  \<^item> A function whose C text can reach undefined behaviour, or can fail to return, has a result
    of type \<open>option\<close>; \<open>Some\<close> says that the code returns and says what.
\<close>

type_synonym u8 = "8 word"
type_synonym u16 = "16 word"
type_synonym u32 = "32 word"
type_synonym u64 = "64 word"

text \<open>The lemmas that evaluate the C library functions on symbolic text.\<close>

named_theorems clib

text \<open>The facts on well-formed values that the component proofs share.\<close>

named_theorems wf_facts

section \<open>Checked array access\<close>

definition arr_get :: "'a list \<Rightarrow> nat \<Rightarrow> 'a option" where
  "arr_get xs i = (if i < length xs then Some (xs ! i) else None)"

lemma arr_get_Some [simp]: "i < length xs \<Longrightarrow> arr_get xs i = Some (xs ! i)"
  by (simp add: arr_get_def)

lemma arr_get_None [simp]: "length xs \<le> i \<Longrightarrow> arr_get xs i = None"
  by (simp add: arr_get_def)

lemma arr_get_eq_Some_iff: "arr_get xs i = Some x \<longleftrightarrow> i < length xs \<and> x = xs ! i"
  by (auto simp: arr_get_def)

definition arr_set :: "'a list \<Rightarrow> nat \<Rightarrow> 'a \<Rightarrow> 'a list option" where
  "arr_set xs i x = (if i < length xs then Some (xs[i := x]) else None)"

lemma arr_set_Some [simp]: "i < length xs \<Longrightarrow> arr_set xs i x = Some (xs[i := x])"
  by (simp add: arr_set_def)

lemma arr_set_None [simp]: "length xs \<le> i \<Longrightarrow> arr_set xs i x = None"
  by (simp add: arr_set_def)

lemma arr_set_eq_Some_iff: "arr_set xs i x = Some ys \<longleftrightarrow> i < length xs \<and> ys = xs[i := x]"
  by (auto simp: arr_set_def)

section \<open>Signed 64-bit arithmetic\<close>

text \<open>Addition and subtraction on \<open>int64_t\<close>: overflow has no defined result.\<close>

definition i64_ok :: "int \<Rightarrow> bool" where
  "i64_ok v \<longleftrightarrow> - (2 ^ 63) \<le> v \<and> v < 2 ^ 63"

definition i64_add :: "int \<Rightarrow> int \<Rightarrow> int option" where
  "i64_add a b = (if i64_ok (a + b) then Some (a + b) else None)"

definition i64_sub :: "int \<Rightarrow> int \<Rightarrow> int option" where
  "i64_sub a b = (if i64_ok (a - b) then Some (a - b) else None)"

lemma i64_add_eq_Some_iff: "i64_add a b = Some c \<longleftrightarrow> i64_ok (a + b) \<and> c = a + b"
  by (auto simp: i64_add_def)

lemma i64_sub_eq_Some_iff: "i64_sub a b = Some c \<longleftrightarrow> i64_ok (a - b) \<and> c = a - b"
  by (auto simp: i64_sub_def)

lemma sint64_range: "- (2 ^ 63) \<le> sint (w :: u64)" "sint (w :: u64) < 2 ^ 63"
  using sint_range_size [of w] by (auto simp: word_size)

lemma sint64_small:
  assumes "uint (w :: u64) < 2 ^ 63"
  shows "sint w = uint w"
  using assms by (subst sint_uint) (simp add: signed_take_bit_eq_take_bit_minus
      bit_uint_iff take_bit_int_eq_self bit_iff_odd_drop_bit drop_bit_eq_div flip: uint_div)

lemma unat_u32_u64 [simp]: "unat (ucast (w :: u32) :: u64) = unat w"
proof -
  have "unat w < 2 ^ 64" using unsigned_less [of w] by (rule less_trans) simp
  then show ?thesis by (simp add: unsigned_ucast_eq take_bit_nat_eq_self)
qed

lemma ucast_u32_u64 [simp]: "ucast (ucast (w :: u32) :: u64) = w"
  by (simp add: ucast_up_ucast_id is_up)

section \<open>Lists and options\<close>

lemma bind_Some_iff [simp]:
  "(Option.bind m f = Some y) \<longleftrightarrow> (\<exists>x. m = Some x \<and> f x = Some y)"
  by (cases m) auto

lemma bind_cong_all: "(\<And>x. f x = g x) \<Longrightarrow> Option.bind m f = Option.bind m g"
  by (cases m) auto

lemma dropWhile_hd_False: "(xs = [] \<or> \<not> P (hd xs)) \<Longrightarrow> dropWhile P xs = xs"
  by (cases xs) auto

lemma takeWhile_append_stop:
  "\<forall>x \<in> set xs. P x \<Longrightarrow> (ys = [] \<or> \<not> P (hd ys)) \<Longrightarrow> takeWhile P (xs @ ys) = xs"
  by (cases ys) auto

lemma dropWhile_append_stop:
  "\<forall>x \<in> set xs. P x \<Longrightarrow> (ys = [] \<or> \<not> P (hd ys)) \<Longrightarrow> dropWhile P (xs @ ys) = ys"
  by (cases ys) auto

lemma all_from_Suc:
  "(i :: nat) < n \<Longrightarrow> (\<forall>j. i \<le> j \<and> j < n \<longrightarrow> P j) \<longleftrightarrow> P i \<and> (\<forall>j. Suc i \<le> j \<and> j < n \<longrightarrow> P j)"
  by (auto simp: Suc_le_eq) (metis le_neq_implies_less)

lemma sum_list_swap:
  "finite A \<Longrightarrow> (\<Sum>a\<in>A. \<Sum>x\<leftarrow>xs. f a x) = (\<Sum>x\<leftarrow>xs. \<Sum>a\<in>A. (f a x :: int))"
  by (induction xs) (simp_all add: sum.distrib)

lemma append_same_lengths:
  "length a = length b \<Longrightarrow> length p = length q \<Longrightarrow> a @ p @ x = b @ q @ y \<Longrightarrow> a = b \<and> p = q \<and> x = y"
  by simp

section \<open>Folding a partial operation\<close>

text \<open>One operation after the other; the first undefined one makes the whole undefined.\<close>

primrec foldM :: "('s \<Rightarrow> 'a \<Rightarrow> 's option) \<Rightarrow> 's \<Rightarrow> 'a list \<Rightarrow> 's option" where
  "foldM f s [] = Some s"
| "foldM f s (x # xs) = f s x \<bind> (\<lambda>s'. foldM f s' xs)"

lemma foldM_append: "foldM f s (xs @ ys) = foldM f s xs \<bind> (\<lambda>s'. foldM f s' ys)"
  by (induction xs arbitrary: s) (auto simp: Option.bind_assoc intro: bind_cong_all)

lemma foldM_idle: "\<forall>x \<in> set xs. f s x = Some s \<Longrightarrow> foldM f s xs = Some s"
  by (induction xs) simp_all

lemma foldM_inv:
  assumes "\<And>s x s'. P s \<Longrightarrow> f s x = Some s' \<Longrightarrow> P s'"
  shows "foldM f s xs = Some s' \<Longrightarrow> P s \<Longrightarrow> P s'"
proof (induction xs arbitrary: s)
  case (Cons x xs)
  then obtain s1 where "f s x = Some s1" "foldM f s1 xs = Some s'" by auto
  with Cons.IH [of s1] Cons.prems(2) assms show ?case by blast
qed simp

lemma foldM_defined:
  assumes "\<And>s x. P s \<Longrightarrow> Q x \<Longrightarrow> \<exists>s'. f s x = Some s' \<and> P s'"
  shows "P s \<Longrightarrow> \<forall>x \<in> set xs. Q x \<Longrightarrow> \<exists>s'. foldM f s xs = Some s' \<and> P s'"
proof (induction xs arbitrary: s)
  case (Cons x xs)
  obtain s1 where "f s x = Some s1" "P s1" using assms [OF Cons.prems(1), of x] Cons.prems(2) by auto
  with Cons.IH [of s1] Cons.prems(2) show ?case by simp
qed simp

section \<open>Runs that come to an end\<close>

text \<open>
  As long as it is not finished there is a step that keeps \<open>P\<close>, lowers the first measure, or keeps it and
  lowers the second; \<open>f\<close> is what the steps do not show.
\<close>

lemma settles:
  fixes E U :: "'s \<Rightarrow> 'f \<Rightarrow> nat"
  assumes "P s f" "\<And>s f. P s f \<Longrightarrow> \<not> finished s \<Longrightarrow>
    \<exists>s' f'. R s s' \<and> P s' f' \<and> (E s' f' < E s f \<or> E s' f' = E s f \<and> U s' f' < U s f)"
  shows "\<exists>s' f'. R\<^sup>*\<^sup>* s s' \<and> P s' f' \<and> finished s'"
proof -
  have "wf (inv_image (less_than <*lex*> less_than) (\<lambda>(s, f). (E s f, U s f)))"
    by (intro wf_inv_image wf_lex_prod wf_less_than)
  then show ?thesis using assms(1)
  proof (induction "(s, f)" arbitrary: s f rule: wf_induct_rule)
    case less
    show ?case
    proof (cases "finished s")
      case False
      from assms(2) [OF less.prems this] obtain s1 f1 where
        1: "R s s1" "P s1 f1" "E s1 f1 < E s f \<or> E s1 f1 = E s f \<and> U s1 f1 < U s f" by blast
      then have "((s1, f1), (s, f)) \<in> inv_image (less_than <*lex*> less_than) (\<lambda>(s, f). (E s f, U s f))" by auto
      from less.hyps [OF this 1(2)] 1(1) show ?thesis by (meson converse_rtranclp_into_rtranclp)
    qed (use less.prems in blast)
  qed
qed

end
