(* ===== verification/CLib.thy ===== *)
theory CLib
  imports Prelude
begin

text \<open>
  The part of the C standard library that the program uses: string comparison and search,
  \<open>snprintf\<close> into a bounded buffer, decimal and hexadecimal formatting, \<open>strtoull\<close>, \<open>strtol\<close>
  and the two-digit \<open>sscanf\<close> of the wallet.

  A pointer into a text is the list of characters from it to the terminating NUL, so \<open>*p\<close> is
  the head of the list, or NUL when the list is empty.
\<close>

section \<open>C strings\<close>

definition c_string :: "string \<Rightarrow> string" where
  "c_string buf = takeWhile (\<lambda>c. c \<noteq> CHR 0x00) buf"

text \<open>\<open>cstr_fits n s\<close>: the NUL-terminated string \<open>s\<close> fits in an array of \<open>n\<close> bytes.\<close>

definition cstr_fits :: "nat \<Rightarrow> string \<Rightarrow> bool" where
  "cstr_fits n s \<longleftrightarrow> length s < n \<and> CHR 0x00 \<notin> set s"

text \<open>\<open>strcmp (s, t) == 0\<close> and \<open>strncmp (s, t, n) == 0\<close> on NUL-terminated strings.\<close>

definition strcmp_eq :: "string \<Rightarrow> string \<Rightarrow> bool" where
  "strcmp_eq s t \<longleftrightarrow> s = t"

definition strncmp_eq :: "string \<Rightarrow> string \<Rightarrow> nat \<Rightarrow> bool" where
  "strncmp_eq s t n \<longleftrightarrow> take n s = take n t"

text \<open>
  \<open>strncpy (dst, src, n)\<close> where byte \<open>n\<close> of \<open>dst\<close> is known to be NUL, or \<open>src\<close> is shorter than
  \<open>n\<close>: the string held by \<open>dst\<close> afterwards.
\<close>

definition strncpy_to :: "string \<Rightarrow> nat \<Rightarrow> string" where
  "strncpy_to src n = take n src"

definition snprintf :: "nat \<Rightarrow> string \<Rightarrow> string" where
  "snprintf sz s = take (sz - 1) s"

text \<open>
  The pattern \<open>offset += snprintf (buf + offset, size - offset, ...)\<close>. The pair holds the text of
  the buffer and \<open>offset\<close>, which counts what would have been written. When \<open>offset\<close> has passed
  \<open>size\<close> the difference, of type \<open>size_t\<close>, wraps and the call writes outside the buffer.
\<close>

definition buf_append :: "nat \<Rightarrow> string \<times> nat \<Rightarrow> string \<Rightarrow> (string \<times> nat) option" where
  "buf_append sz b s =
     (case b of (txt, off) \<Rightarrow>
        if sz < off then None
        else Some (txt @ take (sz - off - 1) s, off + length s))"

fun strchr :: "string \<Rightarrow> char \<Rightarrow> string option" where
  "strchr [] c = None"
| "strchr (x # xs) c = (if x = c then Some (x # xs) else strchr xs c)"

fun is_prefix :: "string \<Rightarrow> string \<Rightarrow> bool" where
  "is_prefix [] ys = True"
| "is_prefix (x # xs) [] = False"
| "is_prefix (x # xs) (y # ys) = (x = y \<and> is_prefix xs ys)"

fun strstr :: "string \<Rightarrow> string \<Rightarrow> string option" where
  "strstr [] pat = (if pat = [] then Some [] else None)"
| "strstr (x # xs) pat = (if is_prefix pat (x # xs) then Some (x # xs) else strstr xs pat)"

section \<open>Character classes\<close>

definition char_code :: "char \<Rightarrow> nat" where
  "char_code c = of_char c"

definition is_digit :: "char \<Rightarrow> bool" where
  "is_digit c \<longleftrightarrow> 48 \<le> char_code c \<and> char_code c \<le> 57"

text \<open>\<open>isspace\<close> in the C locale.\<close>

definition is_space :: "char \<Rightarrow> bool" where
  "is_space c \<longleftrightarrow> char_code c = 32 \<or> (9 \<le> char_code c \<and> char_code c \<le> 13)"

definition digit_val :: "char \<Rightarrow> nat" where
  "digit_val c = char_code c - 48"

definition hex_val :: "char \<Rightarrow> nat option" where
  "hex_val c =
     (let n = char_code c in
      if 48 \<le> n \<and> n \<le> 57 then Some (n - 48)
      else if 97 \<le> n \<and> n \<le> 102 then Some (n - 87)
      else if 65 \<le> n \<and> n \<le> 70 then Some (n - 55)
      else None)"

section \<open>Formatting\<close>

definition digit_char :: "nat \<Rightarrow> char" where
  "digit_char n = char_of (48 + n)"

text \<open>\<open>%u\<close>, \<open>%lu\<close> of an unsigned value, \<open>%d\<close>, \<open>%ld\<close> of a signed one.\<close>

fun fmt_u :: "nat \<Rightarrow> string" where
  "fmt_u n = (if n < 10 then [digit_char n] else fmt_u (n div 10) @ [digit_char (n mod 10)])"

declare fmt_u.simps [simp del]

definition fmt_d :: "int \<Rightarrow> string" where
  "fmt_d i = (if i < 0 then CHR ''-'' # fmt_u (nat (- i)) else fmt_u (nat i))"

definition hex_char :: "nat \<Rightarrow> char" where
  "hex_char n = (if n < 10 then char_of (48 + n) else char_of (87 + n))"

text \<open>\<open>sprintf (out, "%02x", b)\<close>.\<close>

definition fmt_02x :: "u8 \<Rightarrow> string" where
  "fmt_02x b = [hex_char (unat b div 16), hex_char (unat b mod 16)]"

definition hex_bytes :: "u8 list \<Rightarrow> string" where
  "hex_bytes bs = concat (map fmt_02x bs)"

section \<open>Reading numbers\<close>

definition digits_val :: "string \<Rightarrow> nat" where
  "digits_val ds = foldl (\<lambda>v c. 10 * v + digit_val c) 0 ds"

text \<open>Leading white space, an optional sign, then the longest run of digits.\<close>

definition scan_sign :: "string \<Rightarrow> bool \<times> string" where
  "scan_sign s =
     (case s of [] \<Rightarrow> (False, [])
      | c # r \<Rightarrow> if c = CHR ''-'' then (True, r) else if c = CHR ''+'' then (False, r) else (False, s))"

definition scan_number :: "string \<Rightarrow> bool \<times> nat" where
  "scan_number s =
     (case scan_sign (dropWhile is_space s) of (neg, r) \<Rightarrow> (neg, digits_val (takeWhile is_digit r)))"

text \<open>
  \<open>strtoull (p, NULL, 10)\<close>: \<open>ULLONG_MAX\<close> on overflow, and a minus sign negates the value in
  the unsigned type. \<open>strtol (p, NULL, 10)\<close> saturates; \<open>c_int\<close> is the conversion to \<open>int\<close>.
\<close>

definition strtoull :: "string \<Rightarrow> u64" where
  "strtoull s =
     (case scan_number s of (neg, v) \<Rightarrow>
        if 2 ^ 64 \<le> v then - 1 else if neg then - of_nat v else of_nat v)"

definition strtol :: "string \<Rightarrow> int" where
  "strtol s =
     (case scan_number s of (neg, v) \<Rightarrow>
        max (- (2 ^ 63)) (min (2 ^ 63 - 1) (if neg then - int v else int v)))"

definition c_int :: "int \<Rightarrow> int" where
  "c_int i = signed_take_bit 31 i"

text \<open>
  \<open>sscanf (s, "%02x", &byte)\<close>: white space is skipped, then at most two characters are read, an
  optional sign and hexadecimal digits; \<open>None\<close> when nothing matches. An input item that is only
  a prefix of a number (a sign, or \<open>0x\<close>) is a matching failure (ISO C 7.21.6.2).
\<close>

definition sscanf_2x :: "string \<Rightarrow> u32 option" where
  "sscanf_2x s =
     (let t = take 2 (dropWhile is_space s) in
      case scan_sign t of (neg, r) \<Rightarrow>
        (case r of [] \<Rightarrow> None
         | c # r' \<Rightarrow>
             (case hex_val c of None \<Rightarrow> None
              | Some d \<Rightarrow>
                  (case r' of [] \<Rightarrow> Some (if neg then - of_nat d else of_nat d)
                   | c2 # _ \<Rightarrow>
                       (case hex_val c2 of Some d2 \<Rightarrow> Some (of_nat (16 * d + d2))
                        | None \<Rightarrow>
                            if d = 0 \<and> (c2 = CHR ''x'' \<or> c2 = CHR ''X'') then None
                            else Some (of_nat d))))))"

section \<open>Facts on formatting\<close>

lemma unat_word_less: "unat (w :: 'a :: len word) < 2 ^ LENGTH('a)"
  by (rule unsigned_less)

lemma char_code_digit_char [simp]: "n < 10 \<Longrightarrow> char_code (digit_char n) = 48 + n"
  by (simp add: char_code_def digit_char_def)

lemma is_digit_digit_char [simp]: "n < 10 \<Longrightarrow> is_digit (digit_char n)"
  by (simp add: is_digit_def)

lemma digit_val_digit_char [simp]: "n < 10 \<Longrightarrow> digit_val (digit_char n) = n"
  by (simp add: digit_val_def)

text \<open>Decimal digits as literals, to evaluate printed numbers.\<close>

lemma digit_char_simps [clib]:
  "digit_char 0 = CHR ''0''" "digit_char (Suc 0) = CHR ''1''" "digit_char 2 = CHR ''2''"
  "digit_char 3 = CHR ''3''" "digit_char 4 = CHR ''4''" "digit_char 5 = CHR ''5''"
  "digit_char 6 = CHR ''6''" "digit_char 7 = CHR ''7''" "digit_char 8 = CHR ''8''"
  "digit_char 9 = CHR ''9''"
  by code_simp+

lemma fmt_u_digit [clib]: "n < 10 \<Longrightarrow> fmt_u n = [digit_char n]"
  by (subst fmt_u.simps) simp

lemma fmt_u_more [clib]: "\<not> n < 10 \<Longrightarrow> fmt_u n = fmt_u (n div 10) @ [digit_char (n mod 10)]"
  by (subst fmt_u.simps) simp

lemma fmt_u_nonempty [simp]: "fmt_u n \<noteq> []"
  by (subst fmt_u.simps) simp

lemma fmt_u_digits: "\<forall>c \<in> set (fmt_u n). is_digit c"
proof (induction n rule: fmt_u.induct)
  case (1 n)
  show ?case
  proof (cases "n < 10")
    case True
    then show ?thesis by (subst fmt_u.simps) simp
  next
    case False
    with 1 show ?thesis by (subst fmt_u.simps) auto
  qed
qed

lemma digits_val_snoc: "digits_val (ds @ [c]) = 10 * digits_val ds + digit_val c"
  by (simp add: digits_val_def)

lemma digits_val_fmt_u [simp]: "digits_val (fmt_u n) = n"
proof (induction n rule: fmt_u.induct)
  case (1 n)
  show ?case
  proof (cases "n < 10")
    case True
    then show ?thesis by (subst fmt_u.simps) (simp add: digits_val_def)
  next
    case False
    then have "fmt_u n = fmt_u (n div 10) @ [digit_char (n mod 10)]"
      by (simp add: fmt_u.simps [of n])
    with 1 False show ?thesis by (simp add: digits_val_snoc)
  qed
qed

lemma fmt_u_inject: "fmt_u m = fmt_u n \<longleftrightarrow> m = n"
  by (metis digits_val_fmt_u)

lemma length_fmt_u: "n < 10 ^ k \<Longrightarrow> 0 < k \<Longrightarrow> length (fmt_u n) \<le> k"
proof (induction n arbitrary: k rule: fmt_u.induct)
  case (1 n)
  show ?case
  proof (cases "n < 10")
    case True
    with "1.prems" show ?thesis by (subst fmt_u.simps) simp
  next
    case False
    with "1.prems" obtain k' where k: "k = Suc k'" "0 < k'"
      by (cases k; cases "k - 1") auto
    with False "1.prems" have "n div 10 < 10 ^ k'" by auto
    with "1.IH" False k have "length (fmt_u (n div 10)) \<le> k'" by blast
    with False k show ?thesis by (subst fmt_u.simps) simp
  qed
qed

lemma length_fmt_u64: "length (fmt_u (unat (w :: u64))) \<le> 20"
proof (rule length_fmt_u)
  show "unat w < 10 ^ 20" using unat_word_less [of w] by simp
qed simp

lemma length_fmt_u32: "length (fmt_u (unat (w :: u32))) \<le> 10"
proof (rule length_fmt_u)
  show "unat w < 10 ^ 10" using unat_word_less [of w] by simp
qed simp

lemma length_fmt_d64:
  assumes "i64_ok i"
  shows "length (fmt_d i) \<le> 20"
proof -
  have "nat i < 10 ^ 19" "nat (- i) < 10 ^ 19"
    using assms by (auto simp: i64_ok_def)
  then have "length (fmt_u (nat i)) \<le> 19" "length (fmt_u (nat (- i))) \<le> 19"
    by (simp_all add: length_fmt_u)
  then show ?thesis by (simp add: fmt_d_def)
qed

section \<open>Facts on reading numbers\<close>

lemma digit_not_space: "is_digit c \<Longrightarrow> \<not> is_space c"
  by (auto simp: is_digit_def is_space_def)

lemma char_code_signs [simp]: "char_code (CHR ''-'') = 45" "char_code (CHR ''+'') = 43"
  by (simp_all add: char_code_def)

lemma digit_not_sign: "is_digit c \<Longrightarrow> c \<noteq> CHR ''-'' \<and> c \<noteq> CHR ''+''"
  by (auto simp: is_digit_def)

lemma fmt_u_Cons: obtains c r where "fmt_u n = c # r" "is_digit c"
  using fmt_u_digits [of n] by (cases "fmt_u n") auto

lemma takeWhile_fmt_u:
  "(rest = [] \<or> \<not> is_digit (hd rest)) \<Longrightarrow> takeWhile is_digit (fmt_u n @ rest) = fmt_u n"
  by (intro takeWhile_append_stop fmt_u_digits)

lemma scan_number_fmt_u:
  assumes "rest = [] \<or> \<not> is_digit (hd rest)"
  shows "scan_number (fmt_u n @ rest) = (False, n)"
proof -
  obtain c r where c: "fmt_u n = c # r" "is_digit c" by (rule fmt_u_Cons)
  then have "dropWhile is_space (fmt_u n @ rest) = fmt_u n @ rest"
    by (simp add: digit_not_space)
  moreover have "scan_sign (fmt_u n @ rest) = (False, fmt_u n @ rest)"
    using c digit_not_sign by (simp add: scan_sign_def)
  ultimately show ?thesis
    using assms by (simp add: scan_number_def takeWhile_fmt_u)
qed

lemma scan_number_minus_fmt_u:
  assumes "rest = [] \<or> \<not> is_digit (hd rest)"
  shows "scan_number (CHR ''-'' # fmt_u n @ rest) = (True, n)"
  using assms by (simp add: scan_number_def scan_sign_def is_space_def takeWhile_fmt_u)

lemma strtoull_fmt_u [clib]:
  assumes "rest = [] \<or> \<not> is_digit (hd rest)"
  shows "strtoull (fmt_u (unat w) @ rest) = w"
  using unat_word_less [of w] by (simp add: strtoull_def scan_number_fmt_u [OF assms])

lemma strtoull_fmt_d [clib]:
  assumes "rest = [] \<or> \<not> is_digit (hd rest)" and "i64_ok i"
  shows "strtoull (fmt_d i @ rest) = of_int i"
proof (cases "i < 0")
  case True
  with assms(2) have "nat (- i) < 2 ^ 64" by (auto simp: i64_ok_def)
  with True show ?thesis
    by (simp add: fmt_d_def strtoull_def scan_number_minus_fmt_u [OF assms(1)])
next
  case False
  with assms(2) have "nat i < 2 ^ 64" by (auto simp: i64_ok_def)
  with False show ?thesis
    by (simp add: fmt_d_def strtoull_def scan_number_fmt_u [OF assms(1)])
qed

lemma sint_of_int_i64 [clib]: "i64_ok i \<Longrightarrow> sint (of_int i :: u64) = i"
  by (simp add: i64_ok_def signed_of_int signed_take_bit_int_eq_self)

lemma c_int_self [clib]: "- (2 ^ 31) \<le> i \<Longrightarrow> i < 2 ^ 31 \<Longrightarrow> c_int i = i"
  by (simp add: c_int_def signed_take_bit_int_eq_self)

lemma strtol_fmt_d [clib]:
  assumes "rest = [] \<or> \<not> is_digit (hd rest)" and "- (2 ^ 31) \<le> i" "i < 2 ^ 31"
  shows "c_int (strtol (fmt_d i @ rest)) = i"
proof -
  have "strtol (fmt_d i @ rest) = i"
    using assms(2,3)
    by (auto simp: fmt_d_def strtol_def scan_number_fmt_u [OF assms(1)]
        scan_number_minus_fmt_u [OF assms(1)])
  with assms(2,3) show ?thesis by (simp add: c_int_self)
qed

section \<open>SHA-256 digests as text\<close>

text \<open>
  OpenSSL's SHA-256 is not part of the program. It is a parameter of the model: a function from
  the hashed bytes to a digest of 256 bits, which is what \<open>EVP_sha256\<close> documents
  (\<open>digest_len\<close> is 32). The program only ever uses the 64 hexadecimal characters of the digest.
\<close>

type_synonym digest_fn = "string \<Rightarrow> 256 word"

definition digest_bytes :: "256 word \<Rightarrow> u8 list" where
  "digest_bytes w = map (\<lambda>i. ucast (drop_bit (8 * (31 - i)) w)) [0..<32]"

definition digest_hex :: "256 word \<Rightarrow> string" where
  "digest_hex w = hex_bytes (digest_bytes w)"

lemma length_hex_bytes [simp]: "length (hex_bytes bs) = 2 * length bs"
  by (induction bs) (simp_all add: hex_bytes_def fmt_02x_def)

lemma length_digest_hex [simp]: "length (digest_hex w) = 64"
  by (simp add: digest_hex_def digest_bytes_def)

lemma hex_char_not_NUL: "n < 16 \<Longrightarrow> char_code (hex_char n) \<noteq> 0"
  by (simp add: hex_char_def char_code_def)

lemma unat_u8_less: "unat (b :: u8) < 256"
  using unat_word_less [of b] by simp

lemma hex_val_hex_char [simp]: "n < 16 \<Longrightarrow> hex_val (hex_char n) = Some n"
  by (simp add: hex_val_def hex_char_def char_code_def)

lemma hex_char_inject: "m < 16 \<Longrightarrow> n < 16 \<Longrightarrow> hex_char m = hex_char n \<longleftrightarrow> m = n"
  by (metis hex_val_hex_char option.inject)

lemma fmt_02x_inject: "fmt_02x a = fmt_02x b \<longleftrightarrow> a = b"
proof
  assume "fmt_02x a = fmt_02x b"
  then have "unat a div 16 = unat b div 16" "unat a mod 16 = unat b mod 16"
    using unat_u8_less [of a] unat_u8_less [of b] by (auto simp: fmt_02x_def hex_char_inject)
  then have "unat a = unat b" by (metis div_mult_mod_eq)
  then show "a = b" by (simp only: word_unat_eq_iff)
qed simp

lemma hex_bytes_inject: "hex_bytes as = hex_bytes bs \<longleftrightarrow> as = bs"
proof
  show "hex_bytes as = hex_bytes bs \<Longrightarrow> as = bs"
  proof (induction as arbitrary: bs)
    case Nil
    then have "length (hex_bytes bs) = 0" by (simp add: hex_bytes_def)
    then show ?case by simp
  next
    case (Cons a as)
    then have "length (hex_bytes bs) = 2 * Suc (length as)" by (metis length_Cons length_hex_bytes)
    then obtain b bs' where bs: "bs = b # bs'" by (cases bs) auto
    with Cons.prems have "fmt_02x a = fmt_02x b" "hex_bytes as = hex_bytes bs'"
      by (auto simp: hex_bytes_def fmt_02x_def)
    with Cons.IH bs show ?case by (simp add: fmt_02x_inject)
  qed
qed simp

lemma digest_bytes_inject: "digest_bytes v = digest_bytes w \<longleftrightarrow> v = w"
proof
  assume eq: "digest_bytes v = digest_bytes w"
  show "v = w"
  proof (rule bit_word_eqI)
    fix n assume "n < LENGTH(256)"
    then have n: "n < 256" by simp
    let ?i = "31 - n div 8"
    have i: "?i < 32" "31 - ?i = n div 8" using n by auto
    have "digest_bytes v ! ?i = digest_bytes w ! ?i" using eq by simp
    with i have "(ucast (drop_bit (8 * (n div 8)) v) :: u8) = ucast (drop_bit (8 * (n div 8)) w)"
      by (simp add: digest_bytes_def)
    then have "bit (ucast (drop_bit (8 * (n div 8)) v) :: u8) (n mod 8)
             = bit (ucast (drop_bit (8 * (n div 8)) w) :: u8) (n mod 8)" by simp
    then show "bit v n = bit w n" by (simp add: bit_simps)
  qed
qed simp

lemma digest_hex_inject: "digest_hex v = digest_hex w \<longleftrightarrow> v = w"
  by (simp add: digest_hex_def hex_bytes_inject digest_bytes_inject)

text \<open>Hexadecimal text holds no NUL and none of the characters that the JSON format reserves.\<close>

definition is_hex :: "char \<Rightarrow> bool" where
  "is_hex c \<longleftrightarrow> hex_val c \<noteq> None"

lemma hex_bytes_is_hex: "\<forall>c \<in> set (hex_bytes bs). is_hex c"
  using unat_u8_less
  by (auto simp: hex_bytes_def fmt_02x_def is_hex_def less_mult_imp_div_less)

lemma digest_hex_is_hex: "\<forall>c \<in> set (digest_hex w). is_hex c"
  by (simp add: digest_hex_def hex_bytes_is_hex)

lemma is_hex_not_NUL: "is_hex c \<Longrightarrow> c \<noteq> CHR 0x00"
  by (auto simp: is_hex_def hex_val_def char_code_def)

lemma digest_hex_fits [wf_facts]: "cstr_fits 65 (digest_hex w)"
  using digest_hex_is_hex [of w] is_hex_not_NUL by (fastforce simp: cstr_fits_def)

section \<open>A digest for concrete runs\<close>

text \<open>
  The witnesses run the code on a digest that can be evaluated: all ones on a text that ends in
  0, 1 or 2, all zeros on any other. No property is about this function.
\<close>

definition demo_sha :: digest_fn where
  "demo_sha s = (if s \<noteq> [] \<and> last s \<in> set ''012'' then - 1 else 0)"

lemma hex_bytes_replicate:
  "fmt_02x b = [c, c] \<Longrightarrow> hex_bytes (replicate n b) = replicate (2 * n) c"
  by (induction n) (simp_all add: hex_bytes_def)

lemma digest_hex_const:
  assumes "\<And>i. i < 32 \<Longrightarrow> (ucast (drop_bit (8 * (31 - i)) w) :: u8) = b" "fmt_02x b = [c, c]"
  shows "digest_hex w = replicate 64 c"
proof -
  have "digest_bytes w = replicate 32 b"
    using assms(1) by (intro nth_equalityI) (auto simp: digest_bytes_def)
  then show ?thesis
    using hex_bytes_replicate [OF assms(2), of 32] by (simp add: digest_hex_def)
qed

lemma digest_hex_zero: "digest_hex 0 = replicate 64 (CHR ''0'')"
proof (rule digest_hex_const [of _ 0])
  show "fmt_02x 0 = [CHR ''0'', CHR ''0'']" by code_simp
qed simp

lemma digest_hex_ones: "digest_hex (- 1) = replicate 64 (CHR ''f'')"
proof (rule digest_hex_const [of _ "- 1"])
  show "(ucast (drop_bit (8 * (31 - i)) (- 1 :: 256 word)) :: u8) = - 1" if "i < 32" for i
    by (rule bit_word_eqI) (use that in \<open>auto simp: bit_simps\<close>)
  show "fmt_02x (- 1) = [CHR ''f'', CHR ''f'']"
    by code_simp
qed

lemma demo_sha_hex:
  "digest_hex (demo_sha s) =
    replicate 64 (if s \<noteq> [] \<and> last s \<in> set ''012'' then CHR ''f'' else CHR ''0'')"
  by (simp add: demo_sha_def digest_hex_zero digest_hex_ones)

end
