(* ===== verification/Json.thy ===== *)
theory Json
  imports CLib
begin

text \<open>
  The hand-written JSON helpers of \<open>src/protocol.c\<close>: escaping, finding the value of a key by text
  search, reading a string, an unsigned or a signed number, and the two scanners that cut an
  object out of a text by counting brackets. The second half proves how they behave on texts
  that the serialisers produce.
\<close>

section \<open>Operations\<close>

abbreviation DQ :: char where "DQ \<equiv> CHR 0x22"
abbreviation BS :: char where "BS \<equiv> CHR 0x5C"

text \<open>\<open>j\<close> counts the bytes written to \<open>dst\<close>; the loop stops when fewer than three are left.\<close>

fun json_escape_loop :: "nat \<Rightarrow> nat \<Rightarrow> string \<Rightarrow> string" where
  "json_escape_loop dst_size j [] = []"
| "json_escape_loop dst_size j (c # cs) =
     (if j < dst_size - 2
      then (if c = DQ \<or> c = BS then BS # c # json_escape_loop dst_size (j + 2) cs
            else c # json_escape_loop dst_size (j + 1) cs)
      else [])"

definition json_escape :: "string \<Rightarrow> nat \<Rightarrow> string" where
  "json_escape src dst_size = json_escape_loop dst_size 0 src"

text \<open>
  The value of a key is what follows the first colon after the first occurrence of the quoted
  key anywhere in the text, nested objects and string values included.
\<close>

definition json_find_key :: "string \<Rightarrow> string \<Rightarrow> string option" where
  "json_find_key json key = do {
     p \<leftarrow> (case strstr json (snprintf 128 (DQ # key @ [DQ, CHR '':''])) of
            Some p \<Rightarrow> Some p
          | None \<Rightarrow> strstr json (snprintf 128 (DQ # key @ [DQ, CHR '' '', CHR '':''])));
     p \<leftarrow> strchr p (CHR '':'');
     Some (dropWhile (\<lambda>c. c = CHR '' '' \<or> c = CHR 0x09) (tl p))
   }"

text \<open>The copying loop of \<open>json_get_string\<close>; the first argument is the room left in \<open>out\<close>.\<close>

fun json_copy :: "nat \<Rightarrow> string \<Rightarrow> string" where
  "json_copy room [] = []"
| "json_copy 0 (c # cs) = []"
| "json_copy (Suc room) (c # cs) =
     (if c = DQ then []
      else if c = BS \<and> cs \<noteq> [] then hd cs # json_copy room (tl cs)
      else c # json_copy room cs)"

text \<open>\<open>None\<close> is the return value -1, with \<open>out\<close> untouched.\<close>

definition json_get_string :: "string \<Rightarrow> string \<Rightarrow> nat \<Rightarrow> string option" where
  "json_get_string json key out_size =
     (case json_find_key json key of
        None \<Rightarrow> None
      | Some p \<Rightarrow> if p = [] \<or> hd p \<noteq> DQ then None else Some (json_copy (out_size - 1) (tl p)))"

definition json_get_uint64 :: "string \<Rightarrow> string \<Rightarrow> u64 option" where
  "json_get_uint64 json key = map_option strtoull (json_find_key json key)"

definition json_get_int :: "string \<Rightarrow> string \<Rightarrow> int option" where
  "json_get_int json key = map_option (\<lambda>p. c_int (strtol p)) (json_find_key json key)"

text \<open>
  The \<open>do ... while (depth > 0 && *p)\<close> scan that finds the end of an object: the object's text
  and the rest. Braces inside string values count like any other.
\<close>

fun brace_scan :: "int \<Rightarrow> string \<Rightarrow> string \<times> string" where
  "brace_scan depth [] = ([], [])"
| "brace_scan depth (c # cs) =
     (let d = (if c = CHR ''{'' then depth + 1 else if c = CHR ''}'' then depth - 1 else depth)
      in if d > 0 \<and> cs \<noteq> [] then (case brace_scan d cs of (a, r) \<Rightarrow> (c # a, r)) else ([c], cs))"

text \<open>
  The scan of \<open>protocol_parse_msg\<close> over the payload, which skips brackets inside strings. A quote
  opens or closes a string unless the character before it is a backslash (\<open>after_bs\<close>).
\<close>

fun payload_scan :: "bool \<Rightarrow> bool \<Rightarrow> int \<Rightarrow> string \<Rightarrow> string" where
  "payload_scan after_bs in_string depth [] = []"
| "payload_scan after_bs in_string depth (c # cs) =
     (let toggle = (c = DQ \<and> \<not> after_bs);
          s = (if toggle then \<not> in_string else in_string);
          d = (if toggle \<or> in_string then depth
               else if c = CHR ''{'' \<or> c = CHR ''['' then depth + 1
               else if c = CHR ''}'' \<or> c = CHR '']'' then depth - 1
               else depth)
      in if d > 0 \<and> cs \<noteq> [] then c # payload_scan (c = BS) s d cs else [c])"

section \<open>Escaping\<close>

text \<open>What escaping amounts to when the destination is large enough.\<close>

fun esc :: "string \<Rightarrow> string" where
  "esc [] = []"
| "esc (c # cs) = (if c = DQ \<or> c = BS then BS # c # esc cs else c # esc cs)"

lemma length_esc: "length (esc s) \<le> 2 * length s"
  by (induction s) auto

lemma json_escape_loop_eq:
  "j + 2 * length s < dst_size \<Longrightarrow> json_escape_loop dst_size j s = esc s"
  by (induction s arbitrary: j) auto

lemma json_escape_eq: "2 * length s < dst_size \<Longrightarrow> json_escape s dst_size = esc s"
  by (simp add: json_escape_def json_escape_loop_eq)

lemma json_copy_esc [clib]: "length s \<le> room \<Longrightarrow> json_copy room (esc s @ DQ # r) = s"
proof (induction s arbitrary: room)
  case Nil
  then show ?case by (cases room) simp_all
next
  case (Cons c s)
  then show ?case by (cases room) auto
qed

lemma json_copy_plain [clib]:
  "DQ \<notin> set s \<Longrightarrow> BS \<notin> set s \<Longrightarrow> length s \<le> room \<Longrightarrow> json_copy room (s @ DQ # r) = s"
proof (induction s arbitrary: room)
  case Nil
  then show ?case by (cases room) simp_all
next
  case (Cons c s)
  then show ?case by (cases room) auto
qed

lemma length_json_copy: "length (json_copy room s) \<le> room"
  by (induction room s rule: json_copy.induct) (auto split: if_splits)

lemma set_json_copy: "set (json_copy room s) \<subseteq> set s"
proof (induction room s rule: json_copy.induct)
  case (3 room c cs)
  then show ?case by (cases cs) auto
qed auto

section \<open>Finding a key\<close>

text \<open>
  \<open>opens k xs\<close>: the text after a quote continues with the key \<open>k\<close>, the closing quote and a colon;
  the result is what follows. \<open>after_key\<close> is the search for the first such place.
\<close>

fun opens :: "string \<Rightarrow> string \<Rightarrow> string option" where
  "opens [] (x # y # ys) = (if x = DQ \<and> y = CHR '':'' then Some ys else None)"
| "opens [] _ = None"
| "opens (a # k) [] = None"
| "opens (a # k) (x # xs) = (if a = x then opens k xs else None)"

fun after_key :: "string \<Rightarrow> string \<Rightarrow> string option" where
  "after_key k [] = None"
| "after_key k (x # xs) =
     (if x = DQ then (case opens k xs of Some r \<Rightarrow> Some r | None \<Rightarrow> after_key k xs)
      else after_key k xs)"

lemma opens_Some_iff: "opens k xs = Some r \<longleftrightarrow> xs = k @ DQ # CHR '':'' # r"
  by (induction k xs rule: opens.induct) auto

lemma opens_self [simp]: "opens k (k @ DQ # CHR '':'' # r) = Some r"
  by (simp add: opens_Some_iff)

lemma is_prefix_append: "is_prefix p (p @ r)"
  by (induction p) auto

lemma is_prefix_iff: "is_prefix p xs \<longleftrightarrow> (\<exists>r. xs = p @ r)"
  by (induction p xs rule: is_prefix.induct) auto

lemma is_prefix_opens: "is_prefix (k @ [DQ, CHR '':'']) xs \<longleftrightarrow> opens k xs \<noteq> None"
  by (auto simp: is_prefix_iff opens_Some_iff)

lemma after_key_strstr:
  "after_key k json = Some r \<Longrightarrow>
    strstr json (DQ # k @ [DQ, CHR '':'']) = Some (DQ # k @ DQ # CHR '':'' # r)"
  by (induction json) (auto simp: is_prefix_opens opens_Some_iff split: if_splits option.splits)

lemma strchr_skip: "c \<notin> set xs \<Longrightarrow> strchr (xs @ ys) c = strchr ys c"
  by (induction xs) auto

lemma json_find_key_eq:
  assumes "after_key k json = Some r" "CHR '':'' \<notin> set k" "length k < 100"
  shows "json_find_key json k = Some (dropWhile (\<lambda>c. c = CHR '' '' \<or> c = CHR 0x09) r)"
proof -
  have "strchr (DQ # k @ DQ # CHR '':'' # r) (CHR '':'') = Some (CHR '':'' # r)"
    using strchr_skip [of "CHR '':''" "DQ # k @ [DQ]" "CHR '':'' # r"] assms(2) by simp
  with after_key_strstr [OF assms(1)] assms(3) show ?thesis
    by (simp add: json_find_key_def snprintf_def)
qed

lemma after_key_skip [clib]: "DQ \<notin> set v \<Longrightarrow> after_key k (v @ ys) = after_key k ys"
  by (induction v) auto

lemma opens_plain [clib]:
  "DQ \<notin> set k \<Longrightarrow> DQ \<notin> set v \<Longrightarrow> c \<noteq> CHR '':'' \<Longrightarrow> opens k (v @ DQ # c # ys) = None"
proof (induction k arbitrary: v)
  case Nil
  then show ?case by (cases v; cases "tl v") auto
next
  case (Cons a k)
  then show ?case by (cases v) auto
qed

lemma opens_esc [clib]:
  "DQ \<notin> set k \<Longrightarrow> BS \<notin> set k \<Longrightarrow> c \<noteq> CHR '':'' \<Longrightarrow> opens k (esc s @ DQ # c # ys) = None"
proof (induction s arbitrary: k)
  case Nil
  then show ?case by (cases k) auto
next
  case (Cons a s)
  show ?case
  proof (cases k)
    case Nil
    then show ?thesis by (cases "esc s") auto
  next
    case (Cons b k')
    then show ?thesis using Cons.prems Cons.IH [of k'] by auto
  qed
qed

lemma after_key_esc [clib]:
  assumes "DQ \<notin> set k" "BS \<notin> set k" "c \<noteq> CHR '':''"
  shows "after_key k (esc s @ DQ # c # ys) = after_key k (DQ # c # ys)"
  using assms
proof (induction s)
  case (Cons a s)
  then show ?case using opens_esc [of k c s ys] by auto
qed simp

section \<open>Reading a value\<close>

lemma json_get_uint64_eq:
  assumes "after_key k json = Some (fmt_u (unat w) @ rest)" "CHR '':'' \<notin> set k" "length k < 100"
    "rest = [] \<or> \<not> is_digit (hd rest)"
  shows "json_get_uint64 json k = Some w"
proof -
  obtain c r where "fmt_u (unat w) = c # r" "is_digit c" by (rule fmt_u_Cons)
  then have "dropWhile (\<lambda>c. c = CHR '' '' \<or> c = CHR 0x09) (fmt_u (unat w) @ rest)
      = fmt_u (unat w) @ rest"
    by (auto simp: is_digit_def char_code_def)
  with json_find_key_eq [OF assms(1-3)] show ?thesis
    by (simp add: json_get_uint64_def strtoull_fmt_u [OF assms(4)])
qed

lemma fmt_d_not_blank:
  "dropWhile (\<lambda>c. c = CHR '' '' \<or> c = CHR 0x09) (fmt_d i @ rest) = fmt_d i @ rest"
proof -
  obtain c r where "fmt_u (nat i) = c # r" "is_digit c" by (rule fmt_u_Cons)
  then show ?thesis by (auto simp: fmt_d_def is_digit_def char_code_def)
qed

lemma json_get_uint64_signed:
  assumes "after_key k json = Some (fmt_d i @ rest)" "CHR '':'' \<notin> set k" "length k < 100"
    "rest = [] \<or> \<not> is_digit (hd rest)" "i64_ok i"
  shows "json_get_uint64 json k = Some (of_int i)"
  using json_find_key_eq [OF assms(1-3)]
  by (simp add: json_get_uint64_def fmt_d_not_blank strtoull_fmt_d [OF assms(4,5)])

lemma json_get_int_range:
  "json_get_int json k = Some n \<Longrightarrow> - (2 ^ 31) \<le> n \<and> n < 2 ^ 31"
  using signed_take_bit_int_greater_eq_minus_exp [of 31] signed_take_bit_int_less_exp [of 31]
  by (auto simp: json_get_int_def c_int_def simp del: signed_take_bit_int_less_exp
      signed_take_bit_int_greater_eq_minus_exp)

lemma json_get_int_eq:
  assumes "after_key k json = Some (fmt_d i @ rest)" "CHR '':'' \<notin> set k" "length k < 100"
    "rest = [] \<or> \<not> is_digit (hd rest)" "- (2 ^ 31) \<le> i" "i < 2 ^ 31"
  shows "json_get_int json k = Some i"
  using json_find_key_eq [OF assms(1-3)]
  by (simp add: json_get_int_def fmt_d_not_blank strtol_fmt_d [OF assms(4-6)])

lemma json_get_string_esc:
  assumes "after_key k json = Some (DQ # esc s @ DQ # rest)" "CHR '':'' \<notin> set k" "length k < 100"
    "length s < n"
  shows "json_get_string json k n = Some s"
  using json_find_key_eq [OF assms(1-3)] assms(4) by (simp add: json_get_string_def json_copy_esc)

lemma json_get_string_plain:
  assumes "after_key k json = Some (DQ # s @ DQ # rest)" "CHR '':'' \<notin> set k" "length k < 100"
    "length s < n" "DQ \<notin> set s" "BS \<notin> set s"
  shows "json_get_string json k n = Some s"
  using json_find_key_eq [OF assms(1-3)] assms(4-6)
  by (simp add: json_get_string_def json_copy_plain)

text \<open>Whatever the text, what the searches return is part of it, and a string read fits its array.\<close>

lemma set_strstr: "strstr js pat = Some q \<Longrightarrow> set q \<subseteq> set js"
  by (induction js) (auto split: if_splits)

lemma set_strchr: "strchr js c = Some q \<Longrightarrow> set q \<subseteq> set js"
  by (induction js) (auto split: if_splits)

lemma set_json_find_key:
  assumes "json_find_key json k = Some p"
  shows "set p \<subseteq> set json"
proof -
  from assms obtain q q' where "set q \<subseteq> set json" "strchr q (CHR '':'') = Some q'"
    and p: "p = dropWhile (\<lambda>c. c = CHR '' '' \<or> c = CHR 0x09) (tl q')"
    by (auto simp: json_find_key_def dest: set_strstr split: option.splits)
  then have "set q' \<subseteq> set json" using set_strchr by blast
  moreover have "set p \<subseteq> set (tl q')" unfolding p by (auto dest: set_dropWhileD)
  moreover have "set (tl q') \<subseteq> set q'" by (cases q') auto
  ultimately show ?thesis by blast
qed

lemma json_get_string_fits:
  assumes "json_get_string json k n = Some s" "0 < n" "CHR 0x00 \<notin> set json"
  shows "cstr_fits n s"
proof -
  from assms(1) obtain p where p: "json_find_key json k = Some p"
    and s: "s = json_copy (n - 1) (tl p)"
    by (auto simp: json_get_string_def split: option.splits if_splits)
  have "set (tl p) \<subseteq> set p" by (cases p) auto
  with set_json_find_key [OF p] set_json_copy [of "n - 1" "tl p"] have "set s \<subseteq> set json" unfolding s by blast
  moreover have "length s < n" using length_json_copy [of "n - 1" "tl p"] assms(2) s by simp
  ultimately show ?thesis using assms(3) by (auto simp: cstr_fits_def)
qed

section \<open>Cutting out an object\<close>

text \<open>
  \<open>braces_ok xs\<close>: inside an object the scan passes over \<open>xs\<close> and is at the same depth behind it.
\<close>

definition braces_ok :: "string \<Rightarrow> bool" where
  "braces_ok xs \<longleftrightarrow> (\<forall>d ys. 0 < d \<and> ys \<noteq> [] \<longrightarrow>
     brace_scan d (xs @ ys) = (case brace_scan d ys of (a, r) \<Rightarrow> (xs @ a, r)))"

definition brace_free :: "string \<Rightarrow> bool" where
  "brace_free s \<longleftrightarrow> CHR ''{'' \<notin> set s \<and> CHR ''}'' \<notin> set s"

lemma brace_scan_free [clib]:
  "brace_free xs \<Longrightarrow> 0 < d \<Longrightarrow> ys \<noteq> [] \<Longrightarrow>
    brace_scan d (xs @ ys) = (case brace_scan d ys of (a, r) \<Rightarrow> (xs @ a, r))"
  by (induction xs) (auto simp: brace_free_def split: prod.splits)

lemma set_brace_scan:
  "brace_scan d s = (a, r) \<Longrightarrow> set a \<subseteq> set s \<and> set r \<subseteq> set s"
  by (induction d s arbitrary: a r rule: brace_scan.induct)
    (fastforce simp: Let_def split: if_splits prod.splits)+

lemma braces_ok_free: "brace_free xs \<Longrightarrow> braces_ok xs"
  by (simp add: braces_ok_def brace_scan_free)

lemma braces_ok_append: "braces_ok xs \<Longrightarrow> braces_ok ys \<Longrightarrow> braces_ok (xs @ ys)"
  by (auto simp: braces_ok_def split: prod.splits)

lemma braces_ok_object: "braces_ok xs \<Longrightarrow> braces_ok (CHR ''{'' # xs @ ''}'')"
  unfolding braces_ok_def by (auto split: prod.splits)

lemma brace_scan_object:
  assumes "braces_ok xs"
  shows "brace_scan 0 (CHR ''{'' # xs @ CHR ''}'' # r) = (CHR ''{'' # xs @ ''}'', r)"
  using assms [unfolded braces_ok_def, rule_format, of 1 "CHR ''}'' # r"] by simp

lemma brace_free_esc [simp]: "brace_free (esc s) \<longleftrightarrow> brace_free s"
  by (induction s) (auto simp: brace_free_def)

lemma brace_free_digits: "\<forall>c \<in> set s. is_digit c \<Longrightarrow> brace_free s"
  by (auto simp: brace_free_def is_digit_def char_code_def)

lemma brace_free_fmt_u [simp]: "brace_free (fmt_u n)"
  by (rule brace_free_digits) (rule fmt_u_digits)

lemma brace_free_fmt_d [simp]: "brace_free (fmt_d i)"
  using brace_free_fmt_u by (simp add: fmt_d_def brace_free_def)

lemma brace_free_simps [simp]:
  "brace_free []" "brace_free (c # s) \<longleftrightarrow> c \<noteq> CHR ''{'' \<and> c \<noteq> CHR ''}'' \<and> brace_free s"
  "brace_free (s @ t) \<longleftrightarrow> brace_free s \<and> brace_free t"
  by (auto simp: brace_free_def)

lemma DQ_fmt [simp]: "DQ \<notin> set (fmt_u n)" "DQ \<notin> set (fmt_d i)"
proof -
  show u: "DQ \<notin> set (fmt_u n)" for n
    using fmt_u_digits [of n] by (auto simp: is_digit_def char_code_def)
  show "DQ \<notin> set (fmt_d i)" using u by (simp add: fmt_d_def)
qed

section \<open>Cutting out a payload\<close>

text \<open>Characters that neither the JSON format nor the message framing gives a meaning.\<close>

definition plain_char :: "char \<Rightarrow> bool" where
  "plain_char c \<longleftrightarrow> c \<noteq> DQ \<and> c \<noteq> BS \<and> c \<noteq> CHR ''{'' \<and> c \<noteq> CHR ''}'' \<and> c \<noteq> CHR ''['' \<and> c \<noteq> CHR '']''
     \<and> c \<noteq> CHR 0x00 \<and> c \<noteq> CHR 0x0A"

definition plain :: "string \<Rightarrow> bool" where
  "plain s \<longleftrightarrow> (\<forall>c \<in> set s. plain_char c)"

definition payload_ok :: "string \<Rightarrow> bool" where
  "payload_ok xs \<longleftrightarrow> (\<forall>d ys. 0 < d \<and> ys \<noteq> [] \<longrightarrow>
     payload_scan False False d (xs @ ys) = xs @ payload_scan False False d ys)"

lemma plain_simps [simp]:
  "plain []" "plain (c # s) \<longleftrightarrow> plain_char c \<and> plain s" "plain (s @ t) \<longleftrightarrow> plain s \<and> plain t"
  by (auto simp: plain_def)

lemma plainD [wf_facts]:
  assumes "plain s"
  shows "DQ \<notin> set s" "BS \<notin> set s" "brace_free s" "CHR 0x0A \<notin> set s" "CHR 0x00 \<notin> set s"
  using assms by (auto simp: plain_def plain_char_def brace_free_def)

lemma plain_esc: "plain s \<Longrightarrow> esc s = s"
  by (induction s) (auto simp: plain_char_def)

lemma plain_fmt_u [simp]: "plain (fmt_u n)"
  using fmt_u_digits [of n]
  by (auto simp: plain_def plain_char_def is_digit_def char_code_def)

lemma plain_fmt_d [simp]: "plain (fmt_d i)"
  by (simp add: fmt_d_def plain_char_def)

lemma plain_hex: "\<forall>c \<in> set s. is_hex c \<Longrightarrow> plain s"
  by (auto simp: plain_def plain_char_def is_hex_def hex_val_def char_code_def)

lemma plain_hex_bytes [simp]: "plain (hex_bytes bs)" "plain (digest_hex w)"
  by (simp_all add: plain_hex hex_bytes_is_hex digest_hex_is_hex)

lemma payload_scan_plain [clib]:
  "plain xs \<Longrightarrow> 0 < d \<Longrightarrow> ys \<noteq> [] \<Longrightarrow>
    payload_scan False s d (xs @ ys) = xs @ payload_scan False s d ys"
  by (induction xs) (auto simp: plain_char_def Let_def)

lemma payload_ok_plain: "plain xs \<Longrightarrow> payload_ok xs"
  by (simp add: payload_ok_def payload_scan_plain)

lemma payload_ok_append: "payload_ok xs \<Longrightarrow> payload_ok ys \<Longrightarrow> payload_ok (xs @ ys)"
  by (simp add: payload_ok_def)

lemma payload_ok_object: "payload_ok xs \<Longrightarrow> payload_ok (CHR ''{'' # xs @ ''}'')"
  by (simp add: payload_ok_def Let_def)

lemma payload_ok_array: "payload_ok xs \<Longrightarrow> payload_ok (CHR ''['' # xs @ '']'')"
  by (simp add: payload_ok_def Let_def)

lemma payload_scan_object:
  assumes "payload_ok xs"
  shows "payload_scan False False 0 (CHR ''{'' # xs @ CHR ''}'' # r) = CHR ''{'' # xs @ ''}''"
  using assms [unfolded payload_ok_def, rule_format, of 1 "CHR ''}'' # r"] by (simp add: Let_def)

end
