(* ===== verification/Message.thy ===== *)
theory Message
  imports Json
begin

text \<open>
  The message envelope: the message types of \<open>include/net.h\<close>, and \<open>protocol_serialize_msg\<close> and
  \<open>protocol_parse_msg\<close> of \<open>src/protocol.c\<close>. The interface \<open>wire_codec\<close> states what the envelope
  needs of the texts it carries; the codecs of \<open>Protocol\<close> provide it.

  \<open>malloc\<close> is a parameter: a predicate on the size asked for. A \<open>char *\<close> result is an
  \<open>option\<close>, with \<open>None\<close> for \<open>NULL\<close>.
\<close>

type_synonym allocator = "nat \<Rightarrow> bool"

definition alloc_ok :: allocator where
  "alloc_ok = (\<lambda>_. True)"

section \<open>Operations\<close>

datatype msg_type_t = MSG_NEW_BLOCK | MSG_NEW_TX | MSG_REQUEST_CHAIN | MSG_CHAIN_RESPONSE
  | MSG_PEER_LIST | MSG_PING | MSG_PONG

primrec msg_code :: "msg_type_t \<Rightarrow> int" where
  "msg_code MSG_NEW_BLOCK = 0"
| "msg_code MSG_NEW_TX = 1"
| "msg_code MSG_REQUEST_CHAIN = 2"
| "msg_code MSG_CHAIN_RESPONSE = 3"
| "msg_code MSG_PEER_LIST = 4"
| "msg_code MSG_PING = 5"
| "msg_code MSG_PONG = 6"

text \<open>Enumerators compare as their codes do, as C compares them.\<close>

instantiation msg_type_t :: linorder
begin

definition less_eq_msg_type_t :: "msg_type_t \<Rightarrow> msg_type_t \<Rightarrow> bool" where
  "less_eq_msg_type_t a b \<longleftrightarrow> msg_code a \<le> msg_code b"

definition less_msg_type_t :: "msg_type_t \<Rightarrow> msg_type_t \<Rightarrow> bool" where
  "less_msg_type_t a b \<longleftrightarrow> msg_code a < msg_code b"

instance
proof
  fix a b :: msg_type_t
  show "a \<le> b \<Longrightarrow> b \<le> a \<Longrightarrow> a = b"
    by (cases a; cases b) (simp_all add: less_eq_msg_type_t_def)
qed (auto simp: less_eq_msg_type_t_def less_msg_type_t_def)

end

text \<open>
  The conversion of an \<open>int\<close> to the enumeration; \<open>None\<close> is a value that is no enumerator (the
  return value -1 among them), which every \<open>switch\<close> of the program sends to \<open>default\<close>.
\<close>

definition msg_of_code :: "int \<Rightarrow> msg_type_t option" where
  "msg_of_code n =
     (if n = 0 then Some MSG_NEW_BLOCK else if n = 1 then Some MSG_NEW_TX
      else if n = 2 then Some MSG_REQUEST_CHAIN else if n = 3 then Some MSG_CHAIN_RESPONSE
      else if n = 4 then Some MSG_PEER_LIST else if n = 5 then Some MSG_PING
      else if n = 6 then Some MSG_PONG else None)"

definition protocol_serialize_msg :: "allocator \<Rightarrow> msg_type_t \<Rightarrow> string option \<Rightarrow> string option" where
  "protocol_serialize_msg al type payload =
     (let payload_len = (case payload of Some p \<Rightarrow> length p | None \<Rightarrow> 2) in
      if \<not> al (payload_len + 128) then None
      else Some (snprintf (payload_len + 128)
        (''{\"type\":'' @ fmt_d (msg_code type) @ '',\"payload\":''
         @ (case payload of Some p \<Rightarrow> p | None \<Rightarrow> ''{}'') @ ''}'' @ [CHR 0x0A])))"

definition protocol_parse_msg :: "allocator \<Rightarrow> string \<Rightarrow> msg_type_t option \<times> string option" where
  "protocol_parse_msg al json =
     (case json_get_int json ''type'' of None \<Rightarrow> (None, None) | Some type \<Rightarrow>
        (msg_of_code type,
         case json_find_key json ''payload'' of None \<Rightarrow> None
         | Some p \<Rightarrow>
             (let payload = payload_scan False False 0 p;
                  len = (if p = [] then 1 else length payload)
              in if al (len + 1) then Some payload else None)))"

section \<open>The envelope as text\<close>

definition msg_text :: "msg_type_t \<Rightarrow> string \<Rightarrow> string" where
  "msg_text type p = ''{\"type\":'' @ fmt_d (msg_code type) @ '',\"payload\":'' @ p @ ''}''"

text \<open>
  A payload that the envelope carries unchanged: an object that the bracket counter passes over,
  on one line.
\<close>

definition wire_object :: "string \<Rightarrow> bool" where
  "wire_object s \<longleftrightarrow> (\<exists>body. s = CHR ''{'' # body @ ''}'' \<and> payload_ok body)
     \<and> CHR 0x00 \<notin> set s \<and> CHR 0x0A \<notin> set s"

lemma wire_object_chars: "wire_object s \<Longrightarrow> CHR 0x00 \<notin> set s \<and> CHR 0x0A \<notin> set s"
  by (simp add: wire_object_def)

lemma wire_objectI:
  "payload_ok body \<Longrightarrow> CHR 0x00 \<notin> set body \<Longrightarrow> CHR 0x0A \<notin> set body \<Longrightarrow>
    wire_object (CHR ''{'' # body @ ''}'')"
  by (auto simp: wire_object_def)

lemma msg_of_code_msg_code [simp]: "msg_of_code (msg_code type) = Some type"
  by (cases type) (simp_all add: msg_of_code_def)

lemma msg_code_range: "0 \<le> msg_code type" "msg_code type \<le> 6"
  by (cases type; simp)+

lemma msg_type_range: "MSG_NEW_BLOCK \<le> type" "type \<le> MSG_PONG"
  by (cases type; simp add: less_eq_msg_type_t_def)+

lemma fmt_d_msg_code: "fmt_d (msg_code type) = [digit_char (nat (msg_code type))]"
  by (cases type) (simp_all add: fmt_d_def clib)

lemma length_msg_text: "length (msg_text type p) = length p + 21"
  by (simp add: msg_text_def fmt_d_msg_code)

lemma protocol_serialize_msg_eq:
  assumes "al (length (case payload of Some p \<Rightarrow> p | None \<Rightarrow> ''{}'') + 128)"
  shows "protocol_serialize_msg al type payload =
    Some (msg_text type (case payload of Some p \<Rightarrow> p | None \<Rightarrow> ''{}'') @ [CHR 0x0A])"
proof -
  let ?p = "case payload of Some p \<Rightarrow> p | None \<Rightarrow> ''{}''"
  have "length ?p = (case payload of Some p \<Rightarrow> length p | None \<Rightarrow> 2)"
    by (simp split: option.split)
  with assms length_msg_text [of type ?p] show ?thesis
    by (simp add: protocol_serialize_msg_def snprintf_def msg_text_def)
qed

lemma wire_object_empty [simp]: "wire_object ''{}''"
  by (simp add: wire_object_def payload_ok_def)

lemma msg_text_one_line:
  assumes "wire_object p"
  shows "CHR 0x0A \<notin> set (msg_text type p)" "CHR 0x00 \<notin> set (msg_text type p)"
  using assms msg_code_range [of type] plainD(4,5) [OF plain_fmt_d, of "msg_code type"]
  by (auto simp: msg_text_def wire_object_def)

text \<open>A message up to its payload, and what is read of it whatever follows.\<close>

definition msg_head :: "msg_type_t \<Rightarrow> string" where
  "msg_head type = ''{\"type\":'' @ fmt_d (msg_code type) @ '',\"payload\":''"

lemma msg_text_head: "msg_text type p = msg_head type @ p @ ''}''"
  by (simp add: msg_text_def msg_head_def)

lemma length_msg_head [simp]: "length (msg_head type) = 20"
  by (simp add: msg_head_def fmt_d_msg_code)

lemma protocol_parse_msg_head:
  assumes "q \<noteq> []" "hd q = CHR ''{''" "al (length (payload_scan False False 0 q) + 1)"
  shows "protocol_parse_msg al (msg_head type @ q) = (Some type, Some (payload_scan False False 0 q))"
proof -
  let ?m = "msg_head type @ q"
  have "after_key ''type'' ?m = Some (fmt_d (msg_code type) @ '',\"payload\":'' @ q)"
    by (simp add: msg_head_def)
  then have "json_get_int ?m ''type'' = Some (msg_code type)"
    by (rule json_get_int_eq) (use msg_code_range [of type] in \<open>auto simp: is_digit_def char_code_def\<close>)
  moreover have "after_key ''payload'' ?m = Some q" by (simp add: msg_head_def clib)
  then have "json_find_key ?m ''payload'' = Some q"
    using json_find_key_eq [of "''payload''" ?m q] assms(1,2) by (cases q) simp_all
  ultimately show ?thesis using assms by (simp add: protocol_parse_msg_def Let_def)
qed

lemma protocol_parse_msg_eq:
  assumes "wire_object p" "al (length p + 1)"
  shows "protocol_parse_msg al (msg_text type p) = (Some type, Some p)"
proof -
  obtain body where p: "p = CHR ''{'' # body @ ''}''" "payload_ok body"
    using assms(1) by (auto simp: wire_object_def)
  have "payload_scan False False 0 (p @ ''}'') = p"
    using payload_scan_object [OF p(2), of "''}''"] p(1) by simp
  with protocol_parse_msg_head [of "p @ ''}''" al type] assms(2) p(1) show ?thesis by (simp add: msg_text_head)
qed

text \<open>The payload that is cut out of any message is part of that message.\<close>

lemma set_payload_scan: "set (payload_scan b s d xs) \<subseteq> set xs"
  by (induction xs arbitrary: b s d) (simp_all add: Let_def subset_insertI2)

lemma protocol_parse_msg_chars:
  assumes "protocol_parse_msg al json = (type, Some p)"
  shows "set p \<subseteq> set json"
proof -
  obtain q where q: "json_find_key json ''payload'' = Some q" and p: "p = payload_scan False False 0 q"
    using assms
    by (auto simp: protocol_parse_msg_def Let_def split: option.splits if_splits)
  show ?thesis
    unfolding p by (rule subset_trans [OF set_payload_scan set_json_find_key [OF q]])
qed

section \<open>The interface of a payload codec\<close>

text \<open>
  A pair of an encoder and a decoder of the protocol, on the values \<open>good\<close> that it can carry. The
  decoder returns the C return code with the value.
\<close>

locale wire_codec =
  fixes enc :: "'a \<Rightarrow> string" and dec :: "string \<Rightarrow> int \<times> 'a" and good :: "'a \<Rightarrow> bool"
  assumes dec_enc: "good x \<Longrightarrow> dec (enc x) = (0, x)"
    and enc_object: "good x \<Longrightarrow> wire_object (enc x)"
begin

lemma enc_inject: "good x \<Longrightarrow> good y \<Longrightarrow> enc x = enc y \<longleftrightarrow> x = y"
  by (metis dec_enc prod.inject)

lemma envelope_parse:
  assumes "good x" "\<forall>n. al n"
  shows "protocol_parse_msg al (msg_text type (enc x)) = (Some type, Some (enc x))"
  using assms by (intro protocol_parse_msg_eq enc_object) auto

lemma envelope_roundtrip:
  assumes "good x" "\<forall>n. al n"
  shows "\<exists>m. protocol_serialize_msg al type (Some (enc x)) = Some (m @ [CHR 0x0A])
    \<and> CHR 0x0A \<notin> set m \<and> CHR 0x00 \<notin> set m
    \<and> protocol_parse_msg al m = (Some type, Some (enc x)) \<and> dec (enc x) = (0, x)"
  using assms protocol_serialize_msg_eq [of al "Some (enc x)" type]
    msg_text_one_line [OF enc_object [OF assms(1)], of type]
  by (intro exI [of _ "msg_text type (enc x)"]) (simp add: envelope_parse dec_enc)

end

end
