(* ===== verification/Tx.thy ===== *)
theory Tx
  imports CLib
begin

text \<open>
  Transactions (\<open>include/tx.h\<close>, \<open>src/tx.c\<close>): the record, the hash over its content, the two
  constructors and the printed form.
\<close>

section \<open>Data\<close>

definition ADDR_LEN :: nat where "ADDR_LEN = 65"
definition SIG_LEN :: nat where "SIG_LEN = 129"
definition COINBASE_ADDR :: string where "COINBASE_ADDR = ''COINBASE''"
definition MINING_REWARD :: u64 where "MINING_REWARD = 50"
definition MIN_TX_FEE :: u64 where "MIN_TX_FEE = 1"

record tx_t =
  sender :: string
  receiver :: string
  amount :: u64
  fee :: u64
  signature :: string
  tx_hash :: string

text \<open>\<open>memset (&tx, 0, sizeof (tx))\<close>.\<close>

definition tx_zero :: tx_t where
  "tx_zero = \<lparr>sender = [], receiver = [], amount = 0, fee = 0, signature = [], tx_hash = []\<rparr>"

text \<open>Every text field is a NUL-terminated string inside its array.\<close>

definition tx_ok :: "tx_t \<Rightarrow> bool" where
  "tx_ok t \<longleftrightarrow> cstr_fits ADDR_LEN (sender t) \<and> cstr_fits ADDR_LEN (receiver t)
     \<and> cstr_fits SIG_LEN (signature t) \<and> cstr_fits 65 (tx_hash t)"

section \<open>Operations\<close>

text \<open>The text that \<open>tx_compute_hash\<close> formats with \<open>%s%s%lu%lu\<close>, before \<open>snprintf\<close> bounds it.\<close>

definition tx_content :: "tx_t \<Rightarrow> string" where
  "tx_content t = sender t @ receiver t @ fmt_u (unat (amount t)) @ fmt_u (unat (fee t))"

definition tx_compute_hash :: "digest_fn \<Rightarrow> tx_t \<Rightarrow> tx_t" where
  "tx_compute_hash sha t =
     (let buf = snprintf 512 (tx_content t) in t\<lparr>tx_hash := digest_hex (sha buf)\<rparr>)"

definition tx_create_coinbase :: "digest_fn \<Rightarrow> string \<Rightarrow> tx_t" where
  "tx_create_coinbase sha miner_addr =
     (let t = tx_zero\<lparr>sender := strncpy_to COINBASE_ADDR (ADDR_LEN - 1),
                      receiver := strncpy_to miner_addr (ADDR_LEN - 1),
                      amount := MINING_REWARD,
                      fee := 0,
                      signature := ''COINBASE''\<rparr>
      in tx_compute_hash sha t)"

definition tx_create :: "digest_fn \<Rightarrow> string \<Rightarrow> string \<Rightarrow> u64 \<Rightarrow> u64 \<Rightarrow> tx_t" where
  "tx_create sha src rcv amt f =
     (let t = tx_zero\<lparr>sender := strncpy_to src (ADDR_LEN - 1),
                      receiver := strncpy_to rcv (ADDR_LEN - 1),
                      amount := amt,
                      fee := f\<rparr>
      in tx_compute_hash sha t)"

text \<open>The line that \<open>tx_print\<close> writes to stdout.\<close>

definition tx_print :: "tx_t \<Rightarrow> string" where
  "tx_print t =
     (if strcmp_eq (sender t) COINBASE_ADDR
      then ''  [COINBASE] -> '' @ receiver t @ '' : '' @ fmt_u (unat (amount t)) @ '' coin'' @ [CHR 0x0A]
      else ''  '' @ sender t @ '' -> '' @ receiver t @ '' : '' @ fmt_u (unat (amount t))
           @ '' coin (poplatok: '' @ fmt_u (unat (fee t)) @ '')'' @ [CHR 0x0A])"

section \<open>Facts\<close>

lemmas tx_consts = ADDR_LEN_def SIG_LEN_def COINBASE_ADDR_def MINING_REWARD_def MIN_TX_FEE_def

lemma tx_okD:
  assumes "tx_ok t"
  shows "length (sender t) < 65" "length (receiver t) < 65" "length (signature t) < 129"
    "length (tx_hash t) < 65"
    "CHR 0x00 \<notin> set (sender t)" "CHR 0x00 \<notin> set (receiver t)"
    "CHR 0x00 \<notin> set (signature t)" "CHR 0x00 \<notin> set (tx_hash t)"
  using assms by (auto simp: tx_ok_def cstr_fits_def tx_consts)

lemma tx_zero_ok [simp, wf_facts]: "tx_ok tx_zero"
  by (simp add: tx_ok_def tx_zero_def cstr_fits_def tx_consts)

lemma length_tx_content:
  assumes "tx_ok t"
  shows "length (tx_content t) < 169"
proof -
  have "length (tx_content t) = length (sender t) + length (receiver t)
      + length (fmt_u (unat (amount t))) + length (fmt_u (unat (fee t)))"
    by (simp add: tx_content_def)
  with tx_okD(1,2) [OF assms] length_fmt_u64 [of "amount t"] length_fmt_u64 [of "fee t"]
  show ?thesis by linarith
qed

lemma tx_compute_hash_eq:
  assumes "tx_ok t"
  shows "tx_compute_hash sha t = t\<lparr>tx_hash := digest_hex (sha (tx_content t))\<rparr>"
  using length_tx_content [OF assms] by (simp add: tx_compute_hash_def snprintf_def Let_def)

lemma tx_compute_hash_sel [simp]:
  "sender (tx_compute_hash sha t) = sender t"
  "receiver (tx_compute_hash sha t) = receiver t"
  "amount (tx_compute_hash sha t) = amount t"
  "fee (tx_compute_hash sha t) = fee t"
  "signature (tx_compute_hash sha t) = signature t"
  by (simp_all add: tx_compute_hash_def Let_def)

lemma tx_compute_hash_ok [wf_facts]: "tx_ok t \<Longrightarrow> tx_ok (tx_compute_hash sha t)"
  by (simp add: tx_compute_hash_eq tx_ok_def digest_hex_fits)

lemma cstr_fits_strncpy [wf_facts]:
  "CHR 0x00 \<notin> set s \<Longrightarrow> cstr_fits (Suc n) (strncpy_to s n)"
  by (auto simp: cstr_fits_def strncpy_to_def dest: in_set_takeD)

lemma tx_create_ok [wf_facts]:
  assumes "CHR 0x00 \<notin> set src" "CHR 0x00 \<notin> set rcv"
  shows "tx_ok (tx_create sha src rcv a f)"
  unfolding tx_create_def Let_def
  by (rule tx_compute_hash_ok)
    (use assms in \<open>auto simp: tx_ok_def tx_zero_def tx_consts cstr_fits_def strncpy_to_def
       dest: in_set_takeD\<close>)

lemma tx_create_coinbase_ok [wf_facts]:
  assumes "CHR 0x00 \<notin> set addr"
  shows "tx_ok (tx_create_coinbase sha addr)"
  unfolding tx_create_coinbase_def Let_def
  by (rule tx_compute_hash_ok)
    (use assms in \<open>auto simp: tx_ok_def tx_zero_def tx_consts cstr_fits_def strncpy_to_def
       dest: in_set_takeD\<close>)

section \<open>Properties\<close>

text \<open>
  Transaction construction: for a sender and a receiver that fit in an address field,
  \<open>tx_create\<close> stores exactly the given values, leaves the signature empty, hashes the whole
  content (the 512-byte buffer never cuts it), and every text field is terminated in its array.
\<close>

theorem tx_create_spec:
  assumes "cstr_fits ADDR_LEN src" "cstr_fits ADDR_LEN rcv"
  shows "tx_create sha src rcv a f =
      \<lparr>sender = src, receiver = rcv, amount = a, fee = f, signature = [],
       tx_hash = digest_hex (sha (src @ rcv @ fmt_u (unat a) @ fmt_u (unat f)))\<rparr>
    \<and> tx_ok (tx_create sha src rcv a f)"
proof -
  let ?t = "\<lparr>sender = src, receiver = rcv, amount = a, fee = f, signature = [], tx_hash = []\<rparr>"
  have "tx_ok ?t" using assms by (simp add: tx_ok_def cstr_fits_def tx_consts)
  moreover have "tx_create sha src rcv a f = tx_compute_hash sha ?t"
    using assms by (simp add: tx_create_def tx_zero_def strncpy_to_def cstr_fits_def tx_consts)
  ultimately show ?thesis
    using tx_compute_hash_ok [of ?t sha] by (simp add: tx_compute_hash_eq tx_content_def)
qed

theorem tx_create_spec_witness:
  "tx_create demo_sha ''aa'' ''bb'' 12 3 =
    \<lparr>sender = ''aa'', receiver = ''bb'', amount = 12, fee = 3, signature = [],
     tx_hash = replicate 64 (CHR ''0'')\<rparr>"
proof -
  have "tx_create demo_sha ''aa'' ''bb'' 12 3 =
      \<lparr>sender = ''aa'', receiver = ''bb'', amount = 12, fee = 3, signature = [],
       tx_hash = digest_hex (demo_sha (''aa'' @ ''bb'' @ fmt_u (unat (12 :: u64)) @ fmt_u (unat (3 :: u64))))\<rparr>"
    by (rule tx_create_spec [THEN conjunct1]) (simp_all add: cstr_fits_def tx_consts)
  then show ?thesis by (simp add: demo_sha_hex clib)
qed

text \<open>
  The hashed text has no separators, so different payments share one hash: 1 coin with fee
  23 and 12 coins with fee 3, between the same two addresses, have the same \<open>tx_hash\<close> under every
  digest function. A signature, which covers only \<open>tx_hash\<close>, does not tell them apart.
\<close>

theorem tx_hash_ambiguous:
  "tx_hash (tx_create sha src rcv 1 23) = tx_hash (tx_create sha src rcv 12 3)"
  by (simp add: tx_create_def tx_compute_hash_def tx_content_def Let_def clib)

end
