(* ===== verification/Block.thy ===== *)
theory Block
  imports Tx
begin

text \<open>
  Blocks (\<open>include/block.h\<close>, \<open>src/block.c\<close>): the record, the hash over the header and the hashes of
  the transactions, mining, validation and the genesis block.
\<close>

section \<open>Data\<close>

definition MAX_TX_PER_BLOCK :: nat where "MAX_TX_PER_BLOCK = 10"
definition HASH_HEX_LEN :: nat where "HASH_HEX_LEN = 65"
definition MINING_DIFFICULTY :: nat where "MINING_DIFFICULTY = 2"

lemmas block_consts = MAX_TX_PER_BLOCK_def HASH_HEX_LEN_def MINING_DIFFICULTY_def

text \<open>
  \<open>transactions\<close> is the C array, always of length \<open>MAX_TX_PER_BLOCK\<close>; \<open>tx_count\<close> is the separate
  \<open>int\<close> field, which nothing ties to the array, and \<open>timestamp\<close> is a signed 64-bit \<open>time_t\<close>.
\<close>

record block_t =
  index :: u32
  timestamp :: int
  transactions :: "tx_t list"
  tx_count :: int
  prev_hash :: string
  nonce :: u64
  hash :: string

definition block_zero :: block_t where
  "block_zero = \<lparr>index = 0, timestamp = 0, transactions = replicate MAX_TX_PER_BLOCK tx_zero,
     tx_count = 0, prev_hash = [], nonce = 0, hash = []\<rparr>"

text \<open>
  \<open>block_shape\<close> is what the C type and its zero-initialisation give every block, \<open>block_ok\<close> adds
  that the transaction count stays inside the array.
\<close>

definition block_shape :: "block_t \<Rightarrow> bool" where
  "block_shape b \<longleftrightarrow> i64_ok (timestamp b) \<and> length (transactions b) = MAX_TX_PER_BLOCK
     \<and> (\<forall>t \<in> set (transactions b). tx_ok t) \<and> - (2 ^ 31) \<le> tx_count b \<and> tx_count b < 2 ^ 31
     \<and> cstr_fits HASH_HEX_LEN (prev_hash b) \<and> cstr_fits HASH_HEX_LEN (hash b)"

definition block_ok :: "block_t \<Rightarrow> bool" where
  "block_ok b \<longleftrightarrow> block_shape b \<and> tx_count b \<le> int MAX_TX_PER_BLOCK"

section \<open>Operations\<close>

text \<open>The loop of \<open>block_compute_hash\<close> over the transactions, from index \<open>i\<close>.\<close>

function append_tx_hashes :: "block_t \<Rightarrow> nat \<Rightarrow> string \<times> nat \<Rightarrow> (string \<times> nat) option" where
  "append_tx_hashes b i st =
     (if int i < tx_count b \<and> snd st < 4096 - 65
      then do {
        t \<leftarrow> arr_get (transactions b) i;
        st' \<leftarrow> buf_append 4096 st (tx_hash t);
        append_tx_hashes b (Suc i) st'
      }
      else Some st)"
  by pat_completeness auto
termination
  by (relation "measure (\<lambda>(b, i, st). nat (tx_count b - int i))") auto

declare append_tx_hashes.simps [simp del]

definition block_header :: "block_t \<Rightarrow> string" where
  "block_header b = fmt_u (unat (index b)) @ fmt_d (timestamp b) @ prev_hash b
     @ fmt_u (unat (nonce b))"

definition block_compute_hash :: "digest_fn \<Rightarrow> block_t \<Rightarrow> string option" where
  "block_compute_hash sha b = do {
     let h = block_header b;
     (buf, offset) \<leftarrow> append_tx_hashes b 0 (snprintf 4096 h, length h);
     Some (digest_hex (sha buf))
   }"

definition mining_target :: string where
  "mining_target = replicate MINING_DIFFICULTY (CHR ''0'')"

text \<open>
  The \<open>do ... while (1)\<close> loop of \<open>block_mine\<close>: \<open>None\<close> is a search that never ends (or an
  undefined read in the hash). Both counters are \<open>uint64_t\<close>.
\<close>

partial_function (option) block_mine_loop :: "digest_fn \<Rightarrow> block_t \<Rightarrow> u64 \<Rightarrow> (u64 \<times> block_t) option" where
  "block_mine_loop sha b attempts = do {
     h \<leftarrow> block_compute_hash sha b;
     if strncmp_eq h mining_target MINING_DIFFICULTY
     then Some (attempts + 1, b\<lparr>hash := strncpy_to h HASH_HEX_LEN\<rparr>)
     else block_mine_loop sha (b\<lparr>nonce := nonce b + 1\<rparr>) (attempts + 1)
   }"

declare block_mine_loop.simps [code]

definition block_mine :: "digest_fn \<Rightarrow> block_t \<Rightarrow> (u64 \<times> block_t) option" where
  "block_mine sha b = block_mine_loop sha (b\<lparr>nonce := 0\<rparr>) 0"

definition block_validate :: "digest_fn \<Rightarrow> block_t \<Rightarrow> int option" where
  "block_validate sha b = do {
     computed \<leftarrow> block_compute_hash sha b;
     if \<not> strcmp_eq computed (hash b) then Some (- 1)
     else if \<not> strncmp_eq (hash b) mining_target MINING_DIFFICULTY then Some (- 1)
     else Some 0
   }"

text \<open>The genesis block before and after mining.\<close>

definition genesis_template :: block_t where
  "genesis_template = block_zero\<lparr>index := 0, timestamp := 1231006505, tx_count := 0,
     prev_hash := replicate 64 (CHR ''0'')\<rparr>"

definition block_create_genesis :: "digest_fn \<Rightarrow> block_t option" where
  "block_create_genesis sha = map_option snd (block_mine sha genesis_template)"

text \<open>The loop reads nothing of the block but \<open>tx_count\<close> and the stored hashes.\<close>

lemma append_tx_hashes_cong:
  assumes "tx_count b = tx_count b'"
    "map tx_hash (transactions b) = map tx_hash (transactions b')"
  shows "append_tx_hashes b i st = append_tx_hashes b' i st"
  using assms(1,2)
proof (induction b i st rule: append_tx_hashes.induct)
  case (1 b i st)
  have len: "length (transactions b) = length (transactions b')"
    using "1.prems"(2) by (rule map_eq_imp_length_eq)
  show ?case
  proof (cases "int i < tx_count b \<and> snd st < 4096 - 65 \<and> i < length (transactions b)")
    case True
    then have "tx_hash (transactions b ! i) = tx_hash (transactions b' ! i)"
      using "1.prems"(2) len by (metis nth_map)
    moreover have "append_tx_hashes b (Suc i) st' = append_tx_hashes b' (Suc i) st'"
      if "buf_append 4096 st (tx_hash (transactions b ! i)) = Some st'" for st'
      using "1.prems" True that by (intro "1.IH") auto
    ultimately show ?thesis
      using True "1.prems"(1) len
      by (cases "buf_append 4096 st (tx_hash (transactions b ! i))")
        (simp_all add: append_tx_hashes.simps [of b i st] append_tx_hashes.simps [of b' i st])
  next
    case False
    then show ?thesis
      using "1.prems"(1) len
      by (simp add: append_tx_hashes.simps [of b i st] append_tx_hashes.simps [of b' i st]
          arr_get_def)
  qed
qed

section \<open>The hashed text\<close>

text \<open>What \<open>block_compute_hash\<close> hashes: the header, then the first \<open>tx_count\<close> transaction hashes.\<close>

definition block_preimage :: "block_t \<Rightarrow> string" where
  "block_preimage b = block_header b
     @ concat (map tx_hash (take (nat (tx_count b)) (transactions b)))"

lemma block_shapeD:
  assumes "block_shape b"
  shows "i64_ok (timestamp b)" "length (transactions b) = 10" "length (prev_hash b) < 65"
    "length (hash b) < 65" "\<forall>t \<in> set (transactions b). length (tx_hash t) < 65"
  using assms by (auto simp: block_shape_def block_consts cstr_fits_def tx_ok_def)

lemma block_okD [wf_facts]: "block_ok b \<Longrightarrow> block_shape b" "block_ok b \<Longrightarrow> tx_count b \<le> 10"
  by (simp_all add: block_ok_def block_consts)

lemma length_block_header:
  assumes "block_shape b"
  shows "length (block_header b) \<le> 114"
proof -
  have "length (block_header b) = length (fmt_u (unat (index b))) + length (fmt_d (timestamp b))
      + length (prev_hash b) + length (fmt_u (unat (nonce b)))"
    by (simp add: block_header_def)
  with block_shapeD(3) [OF assms] length_fmt_u32 [of "index b"] length_fmt_u64 [of "nonce b"]
    length_fmt_d64 [OF block_shapeD(1) [OF assms]]
  show ?thesis by linarith
qed

text \<open>
  One pass of the loop adds one hash; the buffer of 4096 bytes has room for the header and ten
  hashes, so neither the guard on \<open>offset\<close> nor the truncation of \<open>snprintf\<close> is ever reached.
\<close>

lemma append_tx_hashes_eq:
  assumes "block_shape b" "i \<le> 10" "length s \<le> 114 + 64 * i"
  shows "append_tx_hashes b i (s, length s) =
    (if tx_count b \<le> 10
     then (let r = s @ concat (map tx_hash (drop i (take (nat (tx_count b)) (transactions b))))
           in Some (r, length r))
     else None)"
  using assms(2,3)
proof (induction "10 - i" arbitrary: i s)
  case 0
  then have i: "i = 10" by simp
  with 0 block_shapeD(2) [OF assms(1)] show ?case
    by (subst append_tx_hashes.simps) (auto simp: Let_def)
next
  case (Suc k)
  let ?t = "transactions b ! i"
  have i: "i < 10" "k = 10 - Suc i" using Suc.hyps by auto
  have len: "length (transactions b) = 10" by (rule block_shapeD(2) [OF assms(1)])
  show ?case
  proof (cases "int i < tx_count b")
    case True
    have small: "length (tx_hash ?t) < 65"
      using block_shapeD(5) [OF assms(1)] i(1) len by simp
    have step: "append_tx_hashes b i (s, length s) =
        append_tx_hashes b (Suc i) (s @ tx_hash ?t, length (s @ tx_hash ?t))"
      using True i(1) len small Suc.prems
      by (subst append_tx_hashes.simps) (simp add: buf_append_def)
    have "drop i (take (nat (tx_count b)) (transactions b))
        = ?t # drop (Suc i) (take (nat (tx_count b)) (transactions b))"
      using True i(1) len by (subst Cons_nth_drop_Suc [symmetric]) (auto simp: nth_take)
    then show ?thesis
      using Suc.hyps(1) [of "Suc i" "s @ tx_hash ?t"] i small Suc.prems
      unfolding step by (simp add: Let_def)
  next
    case False
    then have "drop i (take (nat (tx_count b)) (transactions b)) = []" by auto
    with False i show ?thesis by (subst append_tx_hashes.simps) (auto simp: Let_def)
  qed
qed

lemma block_compute_hash_eq:
  assumes "block_shape b"
  shows "block_compute_hash sha b =
    (if tx_count b \<le> 10 then Some (digest_hex (sha (block_preimage b))) else None)"
proof -
  have h: "length (block_header b) \<le> 114" by (rule length_block_header [OF assms])
  then have "snprintf 4096 (block_header b) = block_header b" by (simp add: snprintf_def)
  then show ?thesis
    using append_tx_hashes_eq [OF assms, of 0 "block_header b"] h
    by (simp add: block_compute_hash_def block_preimage_def Let_def)
qed

lemma block_compute_hash_ok [simp]:
  "block_ok b \<Longrightarrow> block_compute_hash sha b = Some (digest_hex (sha (block_preimage b)))"
  by (simp add: block_ok_def block_compute_hash_eq block_consts)

section \<open>Validation\<close>

text \<open>A sealed block: its stored hash is the hash of its content and meets the difficulty.\<close>

definition sealed :: "digest_fn \<Rightarrow> block_t \<Rightarrow> bool" where
  "sealed sha b \<longleftrightarrow> tx_count b \<le> int MAX_TX_PER_BLOCK
     \<and> hash b = digest_hex (sha (block_preimage b)) \<and> take 2 (hash b) = ''00''"

lemma mining_target_eq: "mining_target = ''00''"
  by (simp add: mining_target_def block_consts numeral_2_eq_2)

lemma block_validate_eq:
  assumes "block_shape b"
  shows "block_validate sha b =
    (if tx_count b \<le> 10 then Some (if sealed sha b then 0 else - 1) else None)"
  by (auto simp: block_validate_def block_compute_hash_eq [OF assms] sealed_def strcmp_eq_def
      strncmp_eq_def mining_target_eq block_consts)

lemma block_validate_0_iff:
  "block_shape b \<Longrightarrow> block_validate sha b = Some 0 \<longleftrightarrow> sealed sha b"
  by (auto simp: block_validate_eq sealed_def block_consts)

lemma sealed_tx_count: "sealed sha b \<Longrightarrow> tx_count b \<le> 10"
  by (simp add: sealed_def block_consts)

lemma sealed_block_ok: "block_shape b \<Longrightarrow> sealed sha b \<Longrightarrow> block_ok b"
  by (simp add: block_ok_def sealed_def)

section \<open>Mining\<close>

text \<open>\<open>pow_nonce sha b n\<close>: with nonce \<open>n\<close> the hash of \<open>b\<close> meets the difficulty.\<close>

definition mined_hash :: "digest_fn \<Rightarrow> block_t \<Rightarrow> u64 \<Rightarrow> string" where
  "mined_hash sha b n = digest_hex (sha (block_preimage (b\<lparr>nonce := n\<rparr>)))"

definition pow_nonce :: "digest_fn \<Rightarrow> block_t \<Rightarrow> u64 \<Rightarrow> bool" where
  "pow_nonce sha b n \<longleftrightarrow> take 2 (mined_hash sha b n) = ''00''"

lemma block_preimage_hash_upd [simp]: "block_preimage (b\<lparr>hash := h\<rparr>) = block_preimage b"
  by (simp add: block_preimage_def block_header_def)

lemma block_ok_nonce_upd [simp]: "block_ok (b\<lparr>nonce := n\<rparr>) \<longleftrightarrow> block_ok b"
  by (simp add: block_ok_def block_shape_def)

lemma mined_hash_nonce_upd [simp]: "mined_hash sha (b\<lparr>nonce := m\<rparr>) n = mined_hash sha b n"
  by (simp add: mined_hash_def)

lemma pow_nonce_nonce_upd [simp]: "pow_nonce sha (b\<lparr>nonce := m\<rparr>) n = pow_nonce sha b n"
  by (simp add: pow_nonce_def)

lemma block_mine_loop_step:
  assumes "block_ok b"
  shows "block_mine_loop sha b a =
    (if pow_nonce sha b (nonce b)
     then Some (a + 1, b\<lparr>hash := mined_hash sha b (nonce b)\<rparr>)
     else block_mine_loop sha (b\<lparr>nonce := nonce b + 1\<rparr>) (a + 1))"
  using assms
  by (subst block_mine_loop.simps)
    (simp add: pow_nonce_def mined_hash_def strncmp_eq_def mining_target_eq block_consts
      strncpy_to_def)

lemma block_mine_loop_finds:
  assumes "block_ok b" "pow_nonce sha b (nonce b + of_nat k)"
    "\<And>j. j < k \<Longrightarrow> \<not> pow_nonce sha b (nonce b + of_nat j)"
  shows "block_mine_loop sha b a =
    Some (a + of_nat k + 1, b\<lparr>nonce := nonce b + of_nat k,
      hash := mined_hash sha b (nonce b + of_nat k)\<rparr>)"
  using assms
proof (induction k arbitrary: b a)
  case 0
  then show ?case by (subst block_mine_loop_step) simp_all
next
  case (Suc k)
  let ?b = "b\<lparr>nonce := nonce b + 1\<rparr>"
  have "\<not> pow_nonce sha b (nonce b)" using Suc.prems(3) [of 0] by simp
  then have "block_mine_loop sha b a = block_mine_loop sha ?b (a + 1)"
    by (simp add: block_mine_loop_step [OF Suc.prems(1)])
  also have "\<dots> = Some (a + 1 + of_nat k + 1, ?b\<lparr>nonce := nonce ?b + of_nat k,
      hash := mined_hash sha ?b (nonce ?b + of_nat k)\<rparr>)"
  proof (rule Suc.IH)
    show "block_ok ?b" using Suc.prems(1) by simp
    show "pow_nonce sha ?b (nonce ?b + of_nat k)"
      using Suc.prems(2) by (simp add: algebra_simps)
    show "\<not> pow_nonce sha ?b (nonce ?b + of_nat j)" if "j < k" for j
      using Suc.prems(3) [of "Suc j"] that by (simp add: algebra_simps)
  qed
  finally show ?case by (simp add: algebra_simps)
qed

text \<open>Whatever the loop returns carries a proof of work: partial correctness of the search.\<close>

lemma block_mine_loop_sound:
  assumes "block_mine_loop sha b a = Some r"
  shows "block_ok b \<longrightarrow> (\<exists>n h. snd r = b\<lparr>nonce := n, hash := h\<rparr> \<and> pow_nonce sha b n
    \<and> h = mined_hash sha b n)"
proof (rule block_mine_loop.raw_induct
    [where P = "\<lambda>sha b a r. block_ok b \<longrightarrow> (\<exists>n h. snd r = b\<lparr>nonce := n, hash := h\<rparr>
        \<and> pow_nonce sha b n \<and> h = mined_hash sha b n)", OF _ assms])
  fix loop sha b a r
  assume IH: "\<And>sha b a r. loop sha b a = Some r \<Longrightarrow> block_ok b \<longrightarrow>
      (\<exists>n h. snd r = b\<lparr>nonce := n, hash := h\<rparr> \<and> pow_nonce sha b n \<and> h = mined_hash sha b n)"
    and eq: "(block_compute_hash sha b \<bind> (\<lambda>h.
        if strncmp_eq h mining_target MINING_DIFFICULTY
        then Some (a + 1, b\<lparr>hash := strncpy_to h HASH_HEX_LEN\<rparr>)
        else loop sha (b\<lparr>nonce := nonce b + 1\<rparr>) (a + 1))) = Some r"
  show "block_ok b \<longrightarrow>
      (\<exists>n h. snd r = b\<lparr>nonce := n, hash := h\<rparr> \<and> pow_nonce sha b n \<and> h = mined_hash sha b n)"
  proof
    assume ok: "block_ok b"
    have self: "mined_hash sha b (nonce b) = digest_hex (sha (block_preimage b))"
      by (simp add: mined_hash_def)
    show "\<exists>n h. snd r = b\<lparr>nonce := n, hash := h\<rparr> \<and> pow_nonce sha b n \<and> h = mined_hash sha b n"
    proof (cases "pow_nonce sha b (nonce b)")
      case True
      with eq ok have "snd r = b\<lparr>nonce := nonce b, hash := mined_hash sha b (nonce b)\<rparr>"
        by (auto simp: pow_nonce_def self strncmp_eq_def mining_target_eq block_consts
            strncpy_to_def)
      with True show ?thesis by blast
    next
      case False
      with eq ok have "loop sha (b\<lparr>nonce := nonce b + 1\<rparr>) (a + 1) = Some r"
        by (auto simp: pow_nonce_def self strncmp_eq_def mining_target_eq block_consts)
      from IH [OF this] ok show ?thesis by auto
    qed
  qed
qed

lemma block_mine_sound:
  assumes "block_mine sha b = Some (k, b')" "block_ok b"
  obtains n where "b' = b\<lparr>nonce := n, hash := mined_hash sha b n\<rparr>" "pow_nonce sha b n"
proof -
  have "block_mine_loop sha (b\<lparr>nonce := 0\<rparr>) 0 = Some (k, b')"
    using assms(1) by (simp add: block_mine_def)
  from block_mine_loop_sound [OF this] assms(2) that show thesis by auto
qed

lemma mined_block_sealed:
  assumes "block_ok b" "pow_nonce sha b n"
  shows "sealed sha (b\<lparr>nonce := n, hash := mined_hash sha b n\<rparr>)"
proof -
  have "mined_hash sha b n = digest_hex (sha (block_preimage (b\<lparr>nonce := n, hash := h\<rparr>)))" for h
    by (simp add: mined_hash_def)
  with assms show ?thesis
    by (auto simp: sealed_def pow_nonce_def block_consts dest: block_okD)
qed

lemma block_mine_sealed:
  assumes "block_mine sha b = Some (k, b')" "block_ok b"
  shows "sealed sha b'"
  using assms by (elim block_mine_sound) (auto intro: mined_block_sealed)

lemma mined_block_ok:
  assumes "block_mine sha b = Some (k, b')" "block_ok b"
  shows "block_ok b'"
proof -
  obtain n where "b' = b\<lparr>nonce := n, hash := mined_hash sha b n\<rparr>"
    using assms by (elim block_mine_sound)
  then show ?thesis
    using assms(2) digest_hex_fits
    by (simp add: block_ok_def block_shape_def mined_hash_def HASH_HEX_LEN_def)
qed

lemma block_mine_finds:
  assumes "block_ok b" "pow_nonce sha b (of_nat k)" "\<And>j. j < k \<Longrightarrow> \<not> pow_nonce sha b (of_nat j)"
  shows "block_mine sha b =
    Some (of_nat k + 1, b\<lparr>nonce := of_nat k, hash := mined_hash sha b (of_nat k)\<rparr>)"
  using block_mine_loop_finds [of "b\<lparr>nonce := 0\<rparr>" sha k 0] assms
  by (simp add: block_mine_def)

lemma block_mine_returns:
  assumes "block_ok b" "pow_nonce sha b n"
  shows "\<exists>r. block_mine sha b = Some r"
proof -
  define k where "k = (LEAST k. pow_nonce sha b (of_nat k))"
  have "pow_nonce sha b (of_nat (unat n))" using assms(2) by simp
  then have "pow_nonce sha b (of_nat k)" unfolding k_def by (rule LeastI)
  moreover have "\<not> pow_nonce sha b (of_nat j)" if "j < k" for j
    using that unfolding k_def by (rule not_less_Least)
  ultimately show ?thesis using block_mine_finds [OF assms(1)] by blast
qed

lemma genesis_template_ok [simp, wf_facts]: "block_ok genesis_template"
  by (auto simp: genesis_template_def block_zero_def block_ok_def block_shape_def i64_ok_def
      block_consts cstr_fits_def)

lemma genesis_template_tx_count [simp]: "tx_count genesis_template = 0"
  by (simp add: genesis_template_def)

lemma genesis_sealed:
  assumes "block_create_genesis sha = Some g"
  shows "block_ok g" "sealed sha g" "index g = 0" "tx_count g = 0"
proof -
  obtain k where m: "block_mine sha genesis_template = Some (k, g)"
    using assms by (auto simp: block_create_genesis_def)
  then show "block_ok g" "sealed sha g"
    by (auto intro: mined_block_ok block_mine_sealed)
  obtain n h where "g = genesis_template\<lparr>nonce := n, hash := h\<rparr>"
    using block_mine_sound [OF m genesis_template_ok] by blast
  then show "index g = 0" "tx_count g = 0"
    by (simp_all add: genesis_template_def)
qed

section \<open>Properties\<close>

text \<open>
  Memory safety of the block hash: on a block as the C type gives it, \<open>block_compute_hash\<close>
  is undefined exactly when \<open>tx_count\<close> exceeds the array, and otherwise it hashes the complete
  header and every transaction hash (the 4096-byte buffer never cuts the text, the guard on
  \<open>offset\<close> never stops the loop).
\<close>

theorem block_hash_defined:
  assumes "block_shape b"
  shows "block_compute_hash sha b =
    (if int MAX_TX_PER_BLOCK < tx_count b then None
     else Some (digest_hex (sha (block_header b
       @ concat (map tx_hash (take (nat (tx_count b)) (transactions b)))))))"
  using block_compute_hash_eq [OF assms] by (auto simp: block_preimage_def block_consts)

theorem block_hash_defined_witness:
  "block_compute_hash demo_sha (genesis_template\<lparr>tx_count := 11\<rparr>) = None
    \<and> block_compute_hash demo_sha (genesis_template\<lparr>nonce := 3\<rparr>) = Some (replicate 64 (CHR ''0''))"
proof -
  have "block_shape (genesis_template\<lparr>tx_count := 11\<rparr>)" "block_shape (genesis_template\<lparr>nonce := 3\<rparr>)"
    using genesis_template_ok by (simp_all add: block_ok_def block_shape_def)
  from this [THEN block_hash_defined, of demo_sha] show ?thesis
    by (simp add: genesis_template_def block_zero_def block_consts block_header_def demo_sha_hex clib)
qed

text \<open>
  C28. Termination of mining: the search returns exactly when some nonce of the 64-bit range
  meets the difficulty. The loop has no other exit and no bound.
\<close>

theorem block_mine_terminates:
  assumes "block_ok b"
  shows "(\<exists>r. block_mine sha b = Some r) \<longleftrightarrow> (\<exists>n. pow_nonce sha b n)"
proof
  assume "\<exists>r. block_mine sha b = Some r"
  then obtain k b' where "block_mine sha b = Some (k, b')" by auto
  then show "\<exists>n. pow_nonce sha b n" using assms by (elim block_mine_sound) auto
next
  assume "\<exists>n. pow_nonce sha b n"
  then show "\<exists>r. block_mine sha b = Some r" using block_mine_returns [OF assms] by blast
qed

lemma demo_pow_nonce:
  "pow_nonce demo_sha genesis_template n \<longleftrightarrow> last (fmt_u (unat n)) \<notin> set ''012''"
  by (simp add: pow_nonce_def mined_hash_def demo_sha_hex block_preimage_def block_header_def
      genesis_template_def block_zero_def numeral_2_eq_2)

theorem block_mine_terminates_witness: "\<exists>r. block_mine demo_sha genesis_template = Some r"
proof -
  have "pow_nonce demo_sha genesis_template 3" by (simp add: demo_pow_nonce clib)
  with block_mine_terminates [OF genesis_template_ok, of demo_sha] show ?thesis by blast
qed

text \<open>
  C27. Functional correctness of mining: the nonce found is the least one that meets the
  difficulty, the number of attempts reported is that nonce plus one, the stored hash is the
  hash at that nonce, and no other field of the block changes.
\<close>

theorem block_mine_least_nonce:
  assumes "block_ok b" "pow_nonce sha b (of_nat k)" "\<forall>j < k. \<not> pow_nonce sha b (of_nat j)"
  shows "block_mine sha b = Some (of_nat (Suc k), b\<lparr>nonce := of_nat k,
    hash := digest_hex (sha (block_preimage (b\<lparr>nonce := of_nat k\<rparr>)))\<rparr>)"
  using block_mine_finds [OF assms(1,2)] assms(3) by (simp add: mined_hash_def add.commute)

theorem block_mine_least_nonce_witness:
  "block_mine demo_sha genesis_template =
    Some (4, genesis_template\<lparr>nonce := 3, hash := replicate 64 (CHR ''0'')\<rparr>)"
proof -
  have "pow_nonce demo_sha genesis_template (of_nat 3)" by (simp add: demo_pow_nonce clib)
  moreover have "\<forall>j < 3. \<not> pow_nonce demo_sha genesis_template (of_nat j)"
    by (auto simp: demo_pow_nonce clib less_Suc_eq numeral_3_eq_3)
  ultimately have "block_mine demo_sha genesis_template = Some (of_nat (Suc 3),
      genesis_template\<lparr>nonce := of_nat 3, hash := digest_hex (demo_sha
        (block_preimage (genesis_template\<lparr>nonce := of_nat 3\<rparr>)))\<rparr>)"
    using block_mine_least_nonce [OF genesis_template_ok, of demo_sha 3] by simp
  then show ?thesis
    by (simp add: demo_sha_hex block_preimage_def block_header_def clib)
qed

text \<open>
  Every block that mining returns passes \<open>block_validate\<close>, and differs from the block given
  to it in nonce and hash only.
\<close>

theorem mined_block_validates:
  assumes "block_ok b" "block_mine sha b = Some (k, b')"
  shows "block_validate sha b' = Some 0 \<and> b' = b\<lparr>nonce := nonce b', hash := hash b'\<rparr>"
proof
  show "block_validate sha b' = Some 0"
    using mined_block_ok [OF assms(2,1)] block_mine_sealed [OF assms(2,1)]
    by (simp add: block_validate_0_iff block_okD)
  show "b' = b\<lparr>nonce := nonce b', hash := hash b'\<rparr>"
    using assms(2,1) by (elim block_mine_sound) auto
qed

theorem mined_block_validates_witness:
  "block_validate (\<lambda>_. 0) (genesis_template\<lparr>hash := replicate 64 (CHR ''0'')\<rparr>) = Some 0"
proof -
  have "block_mine (\<lambda>_. 0) genesis_template
      = Some (1, genesis_template\<lparr>nonce := 0, hash := replicate 64 (CHR ''0'')\<rparr>)"
    using block_mine_finds [OF genesis_template_ok, of "\<lambda>_. 0" 0]
    by (simp add: pow_nonce_def mined_hash_def digest_hex_zero numeral_2_eq_2)
  from mined_block_validates [OF genesis_template_ok this] show ?thesis
    by (simp add: genesis_template_def block_zero_def)
qed

text \<open>
  Block validation does not read the content of the transactions: replacing the sender,
  receiver, amount, fee and signature of every transaction, with the stored \<open>tx_hash\<close> kept,
  never changes the verdict. Neither the amounts nor the signatures of a sealed block are
  protected by its hash.
\<close>

theorem block_validate_ignores_contents:
  "block_validate sha (b\<lparr>transactions := map (\<lambda>t. t\<lparr>sender := s t, receiver := r t,
      amount := a t, fee := f t, signature := g t\<rparr>) (transactions b)\<rparr>) = block_validate sha b"
proof -
  let ?h = "\<lambda>t. t\<lparr>sender := s t, receiver := r t, amount := a t, fee := f t, signature := g t\<rparr>"
  have "append_tx_hashes (b\<lparr>transactions := map ?h (transactions b)\<rparr>) i st
      = append_tx_hashes b i st" for i st
    by (rule append_tx_hashes_cong) (simp_all add: comp_def)
  then show ?thesis
    by (simp add: block_validate_def block_compute_hash_def block_header_def)
qed

text \<open>
  The hashed header has no separators: blocks with index 1 and timestamp 23, and with index
  12 and timestamp 3, have the same hash under every digest function.
\<close>

lemma block_hash_ambiguous:
  "block_compute_hash sha (b\<lparr>index := 1, timestamp := 23\<rparr>)
    = block_compute_hash sha (b\<lparr>index := 12, timestamp := 3\<rparr>)"
proof -
  have "append_tx_hashes (b\<lparr>index := x, timestamp := y\<rparr>) i st = append_tx_hashes b i st" for x y i st
    by (rule append_tx_hashes_cong) simp_all
  then show ?thesis
    by (simp add: block_compute_hash_def block_header_def fmt_d_def clib)
qed

end
