(* ===== verification/Chain.thy ===== *)
theory Chain
  imports Block
begin

text \<open>
  The blockchain (\<open>include/chain.h\<close>, \<open>src/chain.c\<close>): initialisation, appending a block, validation
  of a whole chain, balances, and the longest-chain rule.

  Every operation that takes the mutex \<open>chain->lock\<close> holds it for its whole body, so each is one
  atomic step of the model.
\<close>

section \<open>Data\<close>

definition MAX_BLOCKS :: nat where "MAX_BLOCKS = 10000"

text \<open>
  \<open>blocks\<close> is the used part of the C array: the entries below the field \<open>length\<close>, which is the
  length of the list. Entries at or above \<open>length\<close> are never read by the code.
\<close>

record blockchain_t =
  blocks :: "block_t list"

definition chain_length :: "blockchain_t \<Rightarrow> nat" where
  "chain_length c = length (blocks c)"

section \<open>Operations\<close>

definition chain_init :: "digest_fn \<Rightarrow> blockchain_t option" where
  "chain_init sha = do {
     g \<leftarrow> block_create_genesis sha;
     Some \<lparr>blocks = [g]\<rparr>
   }"

text \<open>\<open>NULL\<close> for an empty chain.\<close>

definition chain_last_block :: "blockchain_t \<Rightarrow> block_t option" where
  "chain_last_block c =
     (if chain_length c = 0 then None else arr_get (blocks c) (chain_length c - 1))"

text \<open>
  \<open>chain_add_block\<close> returns its \<open>int\<close> result and the chain afterwards. Binding the result of
  \<open>chain_last_block\<close> is the dereference of the pointer: on an empty chain it is undefined.
\<close>

definition chain_add_block :: "digest_fn \<Rightarrow> blockchain_t \<Rightarrow> block_t \<Rightarrow> (int \<times> blockchain_t) option" where
  "chain_add_block sha c b =
     (if MAX_BLOCKS \<le> chain_length c then Some (- 1, c)
      else do {
        last \<leftarrow> chain_last_block c;
        if index b \<noteq> index last + 1 then Some (- 1, c)
        else if \<not> strcmp_eq (prev_hash b) (hash last) then Some (- 1, c)
        else do {
          v \<leftarrow> block_validate sha b;
          if v \<noteq> 0 then Some (- 1, c)
          else Some (0, c\<lparr>blocks := blocks c @ [b]\<rparr>)
        }
      })"

text \<open>The loop of \<open>chain_validate\<close> from index \<open>i\<close>; the code starts it at 1.\<close>

function chain_validate_from :: "digest_fn \<Rightarrow> blockchain_t \<Rightarrow> nat \<Rightarrow> int option" where
  "chain_validate_from sha c i =
     (if i < chain_length c
      then do {
        prev \<leftarrow> arr_get (blocks c) (i - 1);
        curr \<leftarrow> arr_get (blocks c) i;
        if \<not> strcmp_eq (prev_hash curr) (hash prev) then Some (- 1)
        else do {
          v \<leftarrow> block_validate sha curr;
          if v \<noteq> 0 then Some (- 1) else chain_validate_from sha c (Suc i)
        }
      }
      else Some 0)"
  by pat_completeness auto
termination
  by (relation "measure (\<lambda>(sha, c, i). chain_length c - i)") auto

declare chain_validate_from.simps [simp del]

definition chain_validate :: "digest_fn \<Rightarrow> blockchain_t \<Rightarrow> int option" where
  "chain_validate sha c = chain_validate_from sha c 1"

text \<open>
  The two loops of \<open>chain_get_balance\<close>. The sum \<open>amount + fee\<close> is computed in \<open>uint64_t\<close>, then
  converted to \<open>int64_t\<close>.
\<close>

definition balance_tx :: "string \<Rightarrow> tx_t \<Rightarrow> int \<Rightarrow> int option" where
  "balance_tx addr t bal = do {
     bal \<leftarrow> (if strcmp_eq (receiver t) addr then i64_add bal (sint (amount t)) else Some bal);
     (if strcmp_eq (sender t) addr then i64_sub bal (sint (amount t + fee t)) else Some bal)
   }"

function balance_block :: "string \<Rightarrow> block_t \<Rightarrow> nat \<Rightarrow> int \<Rightarrow> int option" where
  "balance_block addr b j bal =
     (if int j < tx_count b
      then do {
        t \<leftarrow> arr_get (transactions b) j;
        bal \<leftarrow> balance_tx addr t bal;
        balance_block addr b (Suc j) bal
      }
      else Some bal)"
  by pat_completeness auto
termination
  by (relation "measure (\<lambda>(addr, b, j, bal). nat (tx_count b - int j))") auto

declare balance_block.simps [simp del]

fun balance_blocks :: "string \<Rightarrow> block_t list \<Rightarrow> int \<Rightarrow> int option" where
  "balance_blocks addr [] bal = Some bal"
| "balance_blocks addr (b # bs) bal = do {
     bal \<leftarrow> balance_block addr b 0 bal;
     balance_blocks addr bs bal
   }"

definition chain_get_balance :: "blockchain_t \<Rightarrow> string \<Rightarrow> int option" where
  "chain_get_balance c addr = balance_blocks addr (blocks c) 0"

definition chain_replace :: "digest_fn \<Rightarrow> blockchain_t \<Rightarrow> blockchain_t \<Rightarrow> (int \<times> blockchain_t) option" where
  "chain_replace sha c other =
     (if chain_length other \<le> chain_length c then Some (- 1, c)
      else do {
        v \<leftarrow> chain_validate sha other;
        if v \<noteq> 0 then Some (- 1, c)
        else Some (0, c\<lparr>blocks := blocks other\<rparr>)
      })"

section \<open>What a valid chain is\<close>

text \<open>
  \<open>links sha bs\<close>: from the second block on, every block names the hash of the one before it and
  is sealed. This is what \<open>chain_validate\<close> checks; the first block is never looked at on its own.
\<close>

definition link_ok :: "digest_fn \<Rightarrow> block_t \<Rightarrow> block_t \<Rightarrow> bool" where
  "link_ok sha prev b \<longleftrightarrow> prev_hash b = hash prev \<and> sealed sha b"

definition links :: "digest_fn \<Rightarrow> block_t list \<Rightarrow> bool" where
  "links sha bs \<longleftrightarrow> (\<forall>i. 0 < i \<and> i < length bs \<longrightarrow> link_ok sha (bs ! (i - 1)) (bs ! i))"

definition chain_shape :: "blockchain_t \<Rightarrow> bool" where
  "chain_shape c \<longleftrightarrow> (\<forall>b \<in> set (blocks c). block_shape b) \<and> chain_length c \<le> MAX_BLOCKS"

text \<open>The invariant of the node's own chain.\<close>

definition chain_inv :: "digest_fn \<Rightarrow> blockchain_t \<Rightarrow> bool" where
  "chain_inv sha c \<longleftrightarrow> chain_shape c \<and> blocks c \<noteq> [] \<and> links sha (blocks c)"

lemma links_snoc:
  "bs \<noteq> [] \<Longrightarrow> links sha (bs @ [b]) \<longleftrightarrow> links sha bs \<and> link_ok sha (last bs) b"
  by (auto simp: links_def nth_append last_conv_nth less_Suc_eq)

lemma links_single [simp]: "links sha [b]"
  by (simp add: links_def)

lemma links_take: "links sha bs \<Longrightarrow> links sha (take n bs)"
  by (auto simp: links_def)

lemma chain_last_block_eq: "blocks c \<noteq> [] \<Longrightarrow> chain_last_block c = Some (last (blocks c))"
  by (simp add: chain_last_block_def chain_length_def last_conv_nth)

lemma chain_validate_from_eq:
  assumes "\<forall>b \<in> set (blocks c). block_shape b" "0 < i"
  shows "chain_validate_from sha c i = Some 0 \<longleftrightarrow>
    (\<forall>j. i \<le> j \<and> j < chain_length c \<longrightarrow> link_ok sha (blocks c ! (j - 1)) (blocks c ! j))"
  using assms(2)
proof (induction "chain_length c - i" arbitrary: i)
  case 0
  then show ?case by (subst chain_validate_from.simps) auto
next
  case (Suc k)
  then have i: "i < chain_length c" by simp
  have shape: "block_shape (blocks c ! i)" using assms(1) i by (simp add: chain_length_def)
  have IH: "chain_validate_from sha c (Suc i) = Some 0 \<longleftrightarrow>
      (\<forall>j. Suc i \<le> j \<and> j < chain_length c \<longrightarrow> link_ok sha (blocks c ! (j - 1)) (blocks c ! j))"
    using Suc.hyps by (intro Suc.hyps(1)) auto
  show ?case
    unfolding all_from_Suc [OF i] IH [symmetric]
    using i block_validate_0_iff [OF shape] block_validate_eq [OF shape]
    by (subst chain_validate_from.simps)
      (auto simp: chain_length_def link_ok_def strcmp_eq_def sealed_def block_consts)
qed

lemma chain_validate_iff:
  assumes "\<forall>b \<in> set (blocks c). block_shape b"
  shows "chain_validate sha c = Some 0 \<longleftrightarrow> links sha (blocks c)"
  using chain_validate_from_eq [OF assms, of 1]
  by (auto simp: chain_validate_def links_def chain_length_def Suc_le_eq)

section \<open>Appending and replacing\<close>

lemma chain_add_block_eq:
  assumes "blocks c \<noteq> []" "block_shape b"
  shows "chain_add_block sha c b =
    (if MAX_BLOCKS \<le> chain_length c \<or> index b \<noteq> index (last (blocks c)) + 1
        \<or> prev_hash b \<noteq> hash (last (blocks c)) then Some (- 1, c)
     else if 10 < tx_count b then None
     else if sealed sha b then Some (0, c\<lparr>blocks := blocks c @ [b]\<rparr>)
     else Some (- 1, c))"
  using assms
  by (simp add: chain_add_block_def chain_last_block_eq block_validate_eq strcmp_eq_def)

lemma chain_add_block_cases:
  assumes "chain_add_block sha c b = Some (r, c')" "blocks c \<noteq> []" "block_shape b"
  obtains (rejected) "r = - 1" "c' = c"
  | (added) "r = 0" "c' = c\<lparr>blocks := blocks c @ [b]\<rparr>" "chain_length c < MAX_BLOCKS"
      "index b = index (last (blocks c)) + 1" "link_ok sha (last (blocks c)) b"
  using assms by (auto simp: chain_add_block_eq link_ok_def split: if_splits)

lemma chain_add_block_inv:
  assumes "chain_add_block sha c b = Some (r, c')" "chain_inv sha c" "block_shape b"
  shows "chain_inv sha c'"
proof -
  from assms(2) have "blocks c \<noteq> []" by (simp add: chain_inv_def)
  with assms(1,3) show ?thesis
    using assms(2,3)
    by (elim chain_add_block_cases)
      (auto simp: chain_inv_def chain_shape_def chain_length_def links_snoc)
qed

lemma chain_replace_eq:
  assumes "chain_shape other"
  shows "chain_replace sha c other = Some r \<longleftrightarrow>
    (if chain_length other \<le> chain_length c then r = (- 1, c)
     else if links sha (blocks other) then r = (0, c\<lparr>blocks := blocks other\<rparr>)
     else (\<exists>v. chain_validate sha other = Some v) \<and> r = (- 1, c))"
  using chain_validate_iff [of other sha] assms
  by (auto simp: chain_replace_def chain_shape_def)

lemma chain_replace_inv:
  assumes "chain_replace sha c other = Some (r, c')" "chain_inv sha c" "chain_shape other"
  shows "chain_inv sha c'"
  using assms(1,2,3)
  by (auto simp: chain_replace_eq [OF assms(3)] chain_inv_def chain_shape_def chain_length_def
      split: if_splits)

lemma chain_replace_length:
  assumes "chain_replace sha c other = Some (r, c')" "chain_shape other"
  shows "(r = 0 \<and> c' = other \<and> chain_length c < chain_length other) \<or> (r = - 1 \<and> c' = c)"
  using assms by (auto simp: chain_replace_eq split: if_splits)

lemma chain_init_inv:
  assumes "chain_init sha = Some c"
  shows "chain_inv sha c"
  using assms genesis_sealed block_okD(1)
  by (fastforce simp: chain_init_def chain_inv_def chain_shape_def chain_length_def MAX_BLOCKS_def)

text \<open>
  \<open>grows c c'\<close>: a chain is only ever left as it is or replaced by a longer one.
\<close>

definition grows :: "blockchain_t \<Rightarrow> blockchain_t \<Rightarrow> bool" where
  "grows c c' \<longleftrightarrow> c' = c \<or> chain_length c < chain_length c'"

lemma grows_refl [simp]: "grows c c"
  by (simp add: grows_def)

lemma grows_trans: "grows a b \<Longrightarrow> grows b c \<Longrightarrow> grows a c"
  by (auto simp: grows_def)

lemma grows_length: "grows c c' \<Longrightarrow> chain_length c \<le> chain_length c'"
  by (auto simp: grows_def)

lemma chain_add_block_grows:
  assumes "chain_add_block sha c b = Some (r, c')" "blocks c \<noteq> []" "block_shape b"
  shows "grows c c'"
  using assms by (elim chain_add_block_cases) (auto simp: grows_def chain_length_def)

lemma chain_replace_grows:
  assumes "chain_replace sha c other = Some (r, c')" "chain_shape other"
  shows "grows c c'"
  using chain_replace_length [OF assms] by (auto simp: grows_def)

text \<open>A block built on the tip and mined is appended if the chain has not changed in between.\<close>

lemma mined_block_accepted:
  assumes "chain_inv sha c" "chain_length c < MAX_BLOCKS" "block_ok b"
    "index b = index (last (blocks c)) + 1" "prev_hash b = hash (last (blocks c))"
    "block_mine sha b = Some (k, b')"
  shows "chain_add_block sha c b' = Some (0, \<lparr>blocks = blocks c @ [b']\<rparr>)"
proof -
  obtain n where b': "b' = b\<lparr>nonce := n, hash := mined_hash sha b n\<rparr>"
    using assms(6,3) by (elim block_mine_sound)
  have "block_ok b'" "sealed sha b'"
    using assms(3,6) by (auto intro: mined_block_ok block_mine_sealed)
  moreover have "blocks c \<noteq> []" using assms(1) by (simp add: chain_inv_def)
  ultimately show ?thesis
    using assms(2,4,5) b' block_okD(2) [OF assms(3)]
    by (cases c) (simp add: chain_add_block_eq block_okD)
qed

section \<open>Balances\<close>

definition block_txs :: "block_t \<Rightarrow> tx_t list" where
  "block_txs b = take (nat (tx_count b)) (transactions b)"

definition chain_txs :: "block_t list \<Rightarrow> tx_t list" where
  "chain_txs bs = concat (map block_txs bs)"

definition tx_delta :: "string \<Rightarrow> tx_t \<Rightarrow> int" where
  "tx_delta addr t = (if receiver t = addr then sint (amount t) else 0)
     - (if sender t = addr then sint (amount t + fee t) else 0)"

text \<open>The specification: credits minus debits, over the mathematical integers.\<close>

definition ledger_balance :: "block_t list \<Rightarrow> string \<Rightarrow> int" where
  "ledger_balance bs addr = (\<Sum>t\<leftarrow>chain_txs bs. tx_delta addr t)"

definition tx_volume :: "tx_t \<Rightarrow> int" where
  "tx_volume t = \<bar>sint (amount t)\<bar> + \<bar>sint (amount t + fee t)\<bar>"

definition ledger_volume :: "block_t list \<Rightarrow> int" where
  "ledger_volume bs = (\<Sum>t\<leftarrow>chain_txs bs. tx_volume t)"

fun balance_fold :: "string \<Rightarrow> tx_t list \<Rightarrow> int \<Rightarrow> int option" where
  "balance_fold addr [] bal = Some bal"
| "balance_fold addr (t # ts) bal = balance_tx addr t bal \<bind> balance_fold addr ts"

lemma balance_fold_append:
  "balance_fold addr (xs @ ys) bal = balance_fold addr xs bal \<bind> balance_fold addr ys"
  by (induction xs arbitrary: bal) (auto simp: Option.bind_assoc intro: bind_cong_all)

lemma balance_block_eq_fold:
  assumes "length (transactions b) = 10" "tx_count b \<le> 10" "j \<le> 10"
  shows "balance_block addr b j bal = balance_fold addr (drop j (block_txs b)) bal"
  using assms(3)
proof (induction "10 - j" arbitrary: j bal)
  case 0
  with assms show ?case by (subst balance_block.simps) (simp add: block_txs_def)
next
  case (Suc k)
  then have j: "j < 10" "k = 10 - Suc j" by auto
  show ?case
  proof (cases "int j < tx_count b")
    case True
    then have "drop j (block_txs b) = transactions b ! j # drop (Suc j) (block_txs b)"
      using assms j by (subst Cons_nth_drop_Suc [symmetric]) (auto simp: block_txs_def)
    with True j assms show ?thesis
      using Suc.hyps(1) [of "Suc j"]
      by (subst balance_block.simps) (auto intro: bind_cong_all)
  next
    case False
    then have "drop j (block_txs b) = []" by (auto simp: block_txs_def)
    with False show ?thesis by (subst balance_block.simps) simp
  qed
qed

lemma balance_block_undefined:
  assumes "length (transactions b) = 10" "10 < tx_count b" "j \<le> 10"
  shows "balance_block addr b j bal = None"
  using assms(3)
proof (induction "10 - j" arbitrary: j bal)
  case 0
  with assms show ?case by (subst balance_block.simps) simp
next
  case (Suc k)
  then have "balance_block addr b (Suc j) bal' = None" for bal'
    by (intro Suc.hyps(1)) auto
  with Suc assms show ?case
    by (subst balance_block.simps) (simp add: Option.bind_eq_None_conv)
qed

lemma chain_get_balance_eq_fold:
  assumes "\<forall>b \<in> set (blocks c). block_ok b"
  shows "chain_get_balance c addr = balance_fold addr (chain_txs (blocks c)) 0"
proof -
  have "balance_blocks addr bs bal = balance_fold addr (chain_txs bs) bal"
    if "\<forall>b \<in> set bs. block_ok b" for bs bal
    using that
  proof (induction bs arbitrary: bal)
    case Nil
    then show ?case by (simp add: chain_txs_def)
  next
    case (Cons b bs)
    then have "length (transactions b) = 10" "tx_count b \<le> 10"
      by (auto dest: block_okD block_shapeD)
    with Cons show ?case
      by (auto simp: chain_txs_def balance_fold_append balance_block_eq_fold
          intro: bind_cong_all)
  qed
  with assms show ?thesis by (simp add: chain_get_balance_def)
qed

lemma balance_tx_Some: "balance_tx addr t bal = Some v \<Longrightarrow> v = bal + tx_delta addr t"
  by (auto simp: balance_tx_def tx_delta_def strcmp_eq_def i64_add_eq_Some_iff
      i64_sub_eq_Some_iff split: if_splits)

lemma balance_fold_Some:
  "balance_fold addr ts bal = Some v \<Longrightarrow> v = bal + (\<Sum>t\<leftarrow>ts. tx_delta addr t)"
  by (induction ts arbitrary: bal) (fastforce dest: balance_tx_Some)+

lemma balance_tx_small:
  assumes "\<bar>bal\<bar> + tx_volume t < 2 ^ 63"
  shows "balance_tx addr t bal = Some (bal + tx_delta addr t)"
  using assms
  by (auto simp: balance_tx_def tx_delta_def tx_volume_def strcmp_eq_def i64_add_def i64_sub_def
      i64_ok_def)

lemma tx_delta_bound: "\<bar>tx_delta addr t\<bar> \<le> tx_volume t"
  by (auto simp: tx_delta_def tx_volume_def)

lemma balance_fold_small:
  assumes "\<bar>bal\<bar> + (\<Sum>t\<leftarrow>ts. tx_volume t) < 2 ^ 63"
  shows "balance_fold addr ts bal = Some (bal + (\<Sum>t\<leftarrow>ts. tx_delta addr t))"
  using assms
proof (induction ts arbitrary: bal)
  case Nil
  then show ?case by simp
next
  case (Cons t ts)
  have nonneg: "0 \<le> (\<Sum>t\<leftarrow>ts. tx_volume t)"
    by (rule sum_list_nonneg) (auto simp: tx_volume_def)
  have "balance_tx addr t bal = Some (bal + tx_delta addr t)"
    using Cons.prems nonneg by (intro balance_tx_small) simp
  moreover have "\<bar>bal + tx_delta addr t\<bar> + (\<Sum>t\<leftarrow>ts. tx_volume t) < 2 ^ 63"
    using Cons.prems tx_delta_bound [of addr t] by simp
  ultimately show ?case using Cons.IH by (simp add: add.assoc)
qed

section \<open>Conservation\<close>

text \<open>A transaction whose amounts do not leave the range in which \<open>int64_t\<close> and \<open>uint64_t\<close> agree.\<close>

definition tx_sane :: "tx_t \<Rightarrow> bool" where
  "tx_sane t \<longleftrightarrow> uint (amount t) + uint (fee t) < 2 ^ 63"

lemma tx_sane_values:
  assumes "tx_sane t"
  shows "sint (amount t) = uint (amount t)" "sint (amount t + fee t) = uint (amount t) + uint (fee t)"
proof -
  have le: "uint (amount t) < 2 ^ 63" "0 \<le> uint (fee t)"
    using assms uint_ge_0 [of "fee t"] unfolding tx_sane_def by linarith+
  then show "sint (amount t) = uint (amount t)" by (simp add: sint64_small)
  have "uint (amount t + fee t) = uint (amount t) + uint (fee t)"
    using assms by (simp add: uint_word_arith_bintrs take_bit_int_eq_self tx_sane_def)
  then show "sint (amount t + fee t) = uint (amount t) + uint (fee t)"
    using assms by (simp add: sint64_small tx_sane_def)
qed

lemma sum_tx_delta:
  assumes "finite A" "sender t \<in> A" "receiver t \<in> A"
  shows "(\<Sum>a\<in>A. tx_delta a t) = sint (amount t) - sint (amount t + fee t)"
proof -
  have "(\<Sum>a\<in>A. tx_delta a t) = (\<Sum>a\<in>A. if receiver t = a then sint (amount t) else 0)
      - (\<Sum>a\<in>A. if sender t = a then sint (amount t + fee t) else 0)"
    by (simp add: tx_delta_def sum_subtractf)
  with assms show ?thesis by (simp add: sum.delta')
qed

lemma sum_ledger_balance:
  assumes "finite A" "\<And>t. t \<in> set (chain_txs bs) \<Longrightarrow> sender t \<in> A \<and> receiver t \<in> A \<and> tx_sane t"
  shows "(\<Sum>a\<in>A. ledger_balance bs a) = - (\<Sum>t\<leftarrow>chain_txs bs. uint (fee t))"
proof -
  have "(\<Sum>a\<in>A. ledger_balance bs a) = (\<Sum>t\<leftarrow>chain_txs bs. \<Sum>a\<in>A. tx_delta a t)"
    unfolding ledger_balance_def by (rule sum_list_swap [OF assms(1)])
  also have "\<dots> = (\<Sum>t\<leftarrow>chain_txs bs. - uint (fee t))"
  proof (rule arg_cong [where f = sum_list], rule map_cong [OF refl])
    fix t assume "t \<in> set (chain_txs bs)"
    with assms(2) have t: "sender t \<in> A" "receiver t \<in> A" "tx_sane t" by auto
    show "(\<Sum>a\<in>A. tx_delta a t) = - uint (fee t)"
      by (simp add: sum_tx_delta [OF assms(1) t(1,2)] tx_sane_values [OF t(3)])
  qed
  finally show ?thesis by (simp add: uminus_sum_list_map comp_def)
qed

section \<open>Hash links\<close>

text \<open>The printed index and timestamp: the part of the hashed header before \<open>prev_hash\<close>.\<close>

definition block_stamp :: "block_t \<Rightarrow> string" where
  "block_stamp b = fmt_u (unat (index b)) @ fmt_d (timestamp b)"

lemma block_preimage_stamp:
  "block_preimage b = block_stamp b @ prev_hash b @ fmt_u (unat (nonce b))
     @ concat (map tx_hash (block_txs b))"
  by (simp add: block_preimage_def block_header_def block_stamp_def block_txs_def)

lemma preimage_prev_hash:
  assumes "block_preimage b = block_preimage c" "length (block_stamp b) = length (block_stamp c)"
    "length (prev_hash b) = length (prev_hash c)"
  shows "prev_hash b = prev_hash c"
  using append_same_lengths [OF assms(2,3)] assms(1) unfolding block_preimage_stamp by blast

lemma sealed_hash_eq:
  assumes "sealed sha b" "sealed sha c" "hash b = hash c"
  shows "sha (block_preimage b) = sha (block_preimage c)"
  using assms by (simp add: sealed_def digest_hex_inject)

lemma links_prev_hash:
  assumes "links sha bs" "sealed sha (bs ! 0)" "Suc i < length bs"
  shows "prev_hash (bs ! Suc i) = hash (bs ! i)" "sealed sha (bs ! Suc i)"
  using assms unfolding links_def link_ok_def by (metis diff_Suc_1 zero_less_Suc)+

lemma links_sealed:
  assumes "links sha bs" "sealed sha (bs ! 0)" "i < length bs"
  shows "sealed sha (bs ! i)"
  using assms by (cases i) (auto intro: links_prev_hash)

section \<open>One block at a time\<close>

text \<open>Receiving blocks one by one, until one is refused.\<close>

fun add_blocks :: "digest_fn \<Rightarrow> blockchain_t \<Rightarrow> block_t list \<Rightarrow> (int \<times> blockchain_t) option" where
  "add_blocks sha c [] = Some (0, c)"
| "add_blocks sha c (b # bs) = do {
     (r, c) \<leftarrow> chain_add_block sha c b;
     if r \<noteq> 0 then Some (r, c) else add_blocks sha c bs
   }"

text \<open>The indices of \<open>bs\<close> count on from that of \<open>tip\<close>, modulo 2 to the 32.\<close>

definition counts_on :: "block_t \<Rightarrow> block_t list \<Rightarrow> bool" where
  "counts_on tip bs \<longleftrightarrow> (\<forall>i < length bs. index (bs ! i) = index tip + of_nat (Suc i))"

lemma add_blocks_append:
  "add_blocks sha c (as @ bs) =
    add_blocks sha c as \<bind> (\<lambda>(r, c'). if r \<noteq> 0 then Some (r, c') else add_blocks sha c' bs)"
proof (induction as arbitrary: c)
  case (Cons a as)
  then show ?case by (cases "chain_add_block sha c a") auto
qed simp

lemma counts_on_snoc:
  "counts_on tip (bs @ [b]) \<longleftrightarrow> counts_on tip bs \<and> index b = index tip + of_nat (Suc (length bs))"
  by (auto simp: counts_on_def nth_append less_Suc_eq)

lemma counts_on_last: "counts_on tip bs \<Longrightarrow> bs \<noteq> [] \<Longrightarrow> index (last bs) = index tip + of_nat (length bs)"
  by (cases bs rule: rev_cases) (auto simp: counts_on_snoc)

lemma add_blocks_0_iff:
  assumes "chain_inv sha c" "\<forall>b \<in> set bs. block_ok b" "chain_length c + length bs \<le> MAX_BLOCKS"
  shows "add_blocks sha c bs = Some (0, c') \<longleftrightarrow>
    c' = \<lparr>blocks = blocks c @ bs\<rparr> \<and> links sha (blocks c @ bs) \<and> counts_on (last (blocks c)) bs"
  using assms(2,3)
proof (induction bs arbitrary: c' rule: rev_induct)
  case Nil
  with assms(1) show ?case by (cases c) (auto simp: chain_inv_def counts_on_def)
next
  case (snoc b bs)
  let ?c = "\<lparr>blocks = blocks c @ bs\<rparr>"
  have ne: "blocks c \<noteq> []" using assms(1) by (simp add: chain_inv_def)
  have IH: "add_blocks sha c bs = Some (0, c1) \<longleftrightarrow>
      c1 = ?c \<and> links sha (blocks c @ bs) \<and> counts_on (last (blocks c)) bs" for c1
    using snoc by simp
  have tip: "index (last (blocks c @ bs)) = index (last (blocks c)) + of_nat (length bs)"
    if "counts_on (last (blocks c)) bs"
    using counts_on_last [OF that] by (cases "bs = []") simp_all
  have b: "block_shape b" "tx_count b \<le> 10" using snoc.prems(1) by (simp_all add: block_okD)
  have add: "chain_add_block sha ?c b = Some (0, c') \<longleftrightarrow> c' = \<lparr>blocks = blocks c @ bs @ [b]\<rparr>
      \<and> index b = index (last (blocks c @ bs)) + 1 \<and> link_ok sha (last (blocks c @ bs)) b"
    using ne b snoc.prems(2) by (auto simp: chain_add_block_eq chain_length_def link_ok_def)
  have "add_blocks sha c (bs @ [b]) = Some (0, c') \<longleftrightarrow>
      (\<exists>c1. add_blocks sha c bs = Some (0, c1) \<and> chain_add_block sha c1 b = Some (0, c'))"
    by (auto simp: add_blocks_append split: if_splits)
  also have "\<dots> \<longleftrightarrow> links sha (blocks c @ bs) \<and> counts_on (last (blocks c)) bs
      \<and> chain_add_block sha ?c b = Some (0, c')" by (auto simp: IH)
  also have "\<dots> \<longleftrightarrow> c' = \<lparr>blocks = blocks c @ bs @ [b]\<rparr> \<and> links sha (blocks c @ bs @ [b])
      \<and> counts_on (last (blocks c)) (bs @ [b])"
    using links_snoc [of "blocks c @ bs" sha b] ne tip by (auto simp: add counts_on_snoc algebra_simps)
  finally show ?case by simp
qed

section \<open>A concrete chain\<close>

text \<open>
  Data for the witnesses, over the digest that is 0 everywhere: the genesis block, then a block in
  which the miner \<open>aa\<close> takes a reward of 51 and pays 10 coins with fee 1 to \<open>bb\<close>.
\<close>

definition zero_hash :: string where
  "zero_hash = replicate 64 (CHR ''0'')"

definition zero_sha :: digest_fn where
  "zero_sha = (\<lambda>_. 0)"

definition demo_genesis :: block_t where
  "demo_genesis = genesis_template\<lparr>hash := zero_hash\<rparr>"

definition demo_coinbase :: tx_t where
  "demo_coinbase = \<lparr>sender = ''COINBASE'', receiver = ''aa'', amount = 51, fee = 0,
     signature = ''COINBASE'', tx_hash = zero_hash\<rparr>"

definition demo_payment :: tx_t where
  "demo_payment = \<lparr>sender = ''aa'', receiver = ''bb'', amount = 10, fee = 1,
     signature = [], tx_hash = zero_hash\<rparr>"

definition demo_block :: block_t where
  "demo_block = genesis_template\<lparr>index := 1, timestamp := 1700000000,
     transactions := demo_coinbase # demo_payment # replicate 8 tx_zero, tx_count := 2,
     prev_hash := zero_hash, hash := zero_hash\<rparr>"

definition demo_chain :: blockchain_t where
  "demo_chain = \<lparr>blocks = [demo_genesis, demo_block]\<rparr>"

lemmas demo_defs = demo_chain_def demo_block_def demo_payment_def demo_coinbase_def
  demo_genesis_def genesis_template_def block_zero_def

lemma zero_sha_hex [simp]: "digest_hex (zero_sha s) = zero_hash"
  by (simp add: zero_sha_def zero_hash_def digest_hex_zero)

lemma zero_hash_facts [simp]:
  "length zero_hash = 64" "CHR 0x00 \<notin> set zero_hash" "take 2 zero_hash = ''00''"
  by (simp_all add: zero_hash_def numeral_2_eq_2)

lemma demo_block_facts [simp]:
  "block_ok demo_genesis" "block_ok demo_block"
  "sealed zero_sha demo_genesis" "sealed zero_sha demo_block"
  "link_ok zero_sha demo_genesis demo_block"
  using tx_zero_ok
  by (auto simp: block_ok_def block_shape_def sealed_def link_ok_def demo_defs i64_ok_def
      block_consts cstr_fits_def tx_ok_def tx_consts)

lemma demo_block_sel [simp]:
  "index demo_block = 1" "prev_hash demo_block = zero_hash" "hash demo_block = zero_hash"
  "tx_count demo_block = 2" "index demo_genesis = 0" "hash demo_genesis = zero_hash"
  "tx_count demo_genesis = 0"
  by (simp_all add: demo_defs)

lemma demo_chain_inv [simp]:
  "chain_inv zero_sha demo_chain" "chain_inv zero_sha \<lparr>blocks = [demo_genesis]\<rparr>"
  using demo_block_facts
  by (auto simp: chain_inv_def chain_shape_def chain_length_def demo_chain_def links_def less_Suc_eq
      MAX_BLOCKS_def block_okD simp del: demo_block_facts)

lemma demo_chain_txs: "chain_txs (blocks demo_chain) = [demo_coinbase, demo_payment]"
  by (simp add: chain_txs_def block_txs_def demo_chain_def)
    (simp add: demo_genesis_def demo_block_def numeral_2_eq_2)

section \<open>Properties\<close>

text \<open>
  C17. \<open>chain_add_block\<close>, every branch: a full chain, a wrong index, a wrong \<open>prev_hash\<close> and an
  unsealed block are refused with -1 and leave the chain as it is; a transaction count beyond the
  array reaches the undefined read in the hash; in the only other case the block is appended.
\<close>

theorem chain_add_block_spec:
  assumes "chain_inv sha c" "block_shape b"
  shows "chain_add_block sha c b =
    (if chain_length c = MAX_BLOCKS \<or> index b \<noteq> index (last (blocks c)) + 1
        \<or> prev_hash b \<noteq> hash (last (blocks c)) then Some (- 1, c)
     else if int MAX_TX_PER_BLOCK < tx_count b then None
     else if sealed sha b then Some (0, \<lparr>blocks = blocks c @ [b]\<rparr>)
     else Some (- 1, c))"
proof -
  have "blocks c \<noteq> []" "chain_length c \<le> MAX_BLOCKS"
    using assms(1) by (simp_all add: chain_inv_def chain_shape_def)
  then show ?thesis
    by (cases c) (auto simp: chain_add_block_eq [OF _ assms(2)] block_consts)
qed

theorem chain_add_block_spec_witness:
  "chain_add_block zero_sha \<lparr>blocks = [demo_genesis]\<rparr> demo_block = Some (0, demo_chain)
   \<and> chain_add_block zero_sha demo_chain demo_block = Some (- 1, demo_chain)
   \<and> chain_add_block zero_sha \<lparr>blocks = [demo_genesis]\<rparr> (demo_block\<lparr>tx_count := 11\<rparr>) = None"
proof -
  have shape: "block_shape demo_block" "block_shape (demo_block\<lparr>tx_count := 11\<rparr>)"
    using block_okD(1) [OF demo_block_facts(2)] by (simp_all add: block_shape_def)
  show ?thesis
    using chain_add_block_spec [OF demo_chain_inv(2) shape(1)]
      chain_add_block_spec [OF demo_chain_inv(2) shape(2)]
      chain_add_block_spec [OF demo_chain_inv(1) shape(1)]
    by (simp add: chain_length_def MAX_BLOCKS_def block_consts demo_chain_def)
qed

text \<open>
  \<open>chain_validate\<close> decides validity: it returns 0 exactly when every block after the first
  names the hash of its predecessor, carries the hash of its own content, and meets the
  difficulty. The first block of a chain is not examined.
\<close>

theorem chain_validate_iff_links:
  assumes "chain_shape c"
  shows "chain_validate sha c = Some 0 \<longleftrightarrow>
    (\<forall>i. 0 < i \<and> i < chain_length c \<longrightarrow>
       prev_hash (blocks c ! i) = hash (blocks c ! (i - 1)) \<and> sealed sha (blocks c ! i))"
  using chain_validate_iff [of c sha] assms
  by (simp add: chain_shape_def links_def link_ok_def chain_length_def)

theorem chain_validate_iff_links_witness: "chain_validate zero_sha demo_chain = Some 0"
proof -
  have "chain_shape demo_chain" "links zero_sha (blocks demo_chain)"
    using demo_chain_inv(1) by (simp_all add: chain_inv_def)
  with chain_validate_iff_links [of demo_chain zero_sha] show ?thesis
    by (simp add: links_def link_ok_def chain_length_def)
qed

text \<open>
  C18. Longest valid chain wins: whenever \<open>chain_replace\<close> returns, it has adopted the other
  chain, exactly as received, if that one is strictly longer and valid, and has kept its own chain
  unchanged otherwise. The node's chain never gets shorter, and its invariant is kept.
\<close>

theorem chain_replace_longest:
  assumes "chain_inv sha c" "chain_shape other" "chain_replace sha c other = Some (r, c')"
  shows "(if chain_length c < chain_length other \<and> links sha (blocks other)
      then r = 0 \<and> c' = other else r = - 1 \<and> c' = c)
    \<and> chain_inv sha c' \<and> chain_length c \<le> chain_length c'"
  using assms(3) chain_replace_inv [OF assms(3,1,2)] chain_replace_length [OF assms(3,2)]
  by (auto simp: chain_replace_eq [OF assms(2)] chain_length_def split: if_splits)

theorem chain_replace_longest_witness:
  "chain_length demo_chain = 2 \<and> chain_inv zero_sha demo_chain"
proof -
  have shape: "chain_shape demo_chain" and l: "links zero_sha (blocks demo_chain)"
    using demo_chain_inv(1) by (simp_all add: chain_inv_def)
  then have "chain_replace zero_sha \<lparr>blocks = [demo_genesis]\<rparr> demo_chain = Some (0, demo_chain)"
    by (simp add: chain_replace_eq chain_length_def demo_chain_def)
  from chain_replace_longest [OF demo_chain_inv(2) shape this] show ?thesis
    by (simp add: chain_length_def demo_chain_def)
qed

text \<open>
  A peer's chain need not share our genesis: a node whose chain is its genesis alone adopts
  any two-block chain whose second block is sealed and points at the first, whatever that first
  block holds, coins minted to anybody included.
\<close>

theorem chain_replace_foreign_genesis:
  assumes "chain_length c = 1" "block_shape g" "block_shape b" "link_ok sha g b"
  shows "chain_replace sha c \<lparr>blocks = [g, b]\<rparr> = Some (0, \<lparr>blocks = [g, b]\<rparr>)"
proof -
  have "chain_shape \<lparr>blocks = [g, b]\<rparr>" "links sha [g, b]"
    using assms(2-4) by (auto simp: chain_shape_def chain_length_def MAX_BLOCKS_def links_def
        less_Suc_eq)
  with assms(1) show ?thesis by (simp add: chain_replace_eq chain_length_def)
qed

theorem chain_replace_foreign_genesis_witness:
  "chain_replace zero_sha \<lparr>blocks = [demo_genesis]\<rparr>
      \<lparr>blocks = [demo_block\<lparr>index := 77\<rparr>, demo_block]\<rparr>
    = Some (0, \<lparr>blocks = [demo_block\<lparr>index := 77\<rparr>, demo_block]\<rparr>)"
proof (rule chain_replace_foreign_genesis)
  show "block_shape (demo_block\<lparr>index := 77\<rparr>)" "block_shape demo_block"
    using block_okD(1) [OF demo_block_facts(2)] by (simp_all add: block_shape_def)
  show "link_ok zero_sha (demo_block\<lparr>index := 77\<rparr>) demo_block"
    using demo_block_facts(4) by (simp add: link_ok_def)
qed (simp add: chain_length_def)

text \<open>
  Balances refine the ledger: whenever \<open>chain_get_balance\<close> returns a value, that value is
  the sum over all transactions of the chain, in the mathematical integers, of what the address
  received minus what it sent with the fees.
\<close>

theorem chain_get_balance_refines:
  assumes "\<forall>b \<in> set (blocks c). block_ok b" "chain_get_balance c addr = Some v"
  shows "v = (\<Sum>t\<leftarrow>chain_txs (blocks c).
      (if receiver t = addr then sint (amount t) else 0)
      - (if sender t = addr then sint (amount t + fee t) else 0))"
proof -
  have "balance_fold addr (chain_txs (blocks c)) 0 = Some v"
    using assms by (simp add: chain_get_balance_eq_fold)
  from balance_fold_Some [OF this] show ?thesis by (simp add: tx_delta_def)
qed

theorem chain_get_balance_refines_witness:
  "chain_get_balance demo_chain ''aa'' = Some 40"
proof -
  have ok: "\<forall>b \<in> set (blocks demo_chain). block_ok b" by (simp add: demo_chain_def)
  have "ledger_volume (blocks demo_chain) < 2 ^ 63"
    by (simp add: ledger_volume_def demo_chain_txs tx_volume_def demo_coinbase_def demo_payment_def)
  then obtain v where v: "chain_get_balance demo_chain ''aa'' = Some v"
    using balance_fold_small [of 0] by (simp add: chain_get_balance_eq_fold [OF ok] ledger_volume_def)
  from chain_get_balance_refines [OF ok v] v show ?thesis
    by (simp add: demo_chain_txs demo_coinbase_def demo_payment_def)
qed

text \<open>
  C29. Balances are defined: as long as the total volume moved on the chain stays below 2 to the
  63, no partial sum overflows \<open>int64_t\<close>, no read leaves an array, and \<open>chain_get_balance\<close> returns
  the ledger's balance.
\<close>

theorem chain_get_balance_defined:
  assumes "\<forall>b \<in> set (blocks c). block_ok b" "ledger_volume (blocks c) < 2 ^ 63"
  shows "chain_get_balance c addr = Some (ledger_balance (blocks c) addr)"
  using balance_fold_small [of 0 "chain_txs (blocks c)" addr] assms
  by (simp add: chain_get_balance_eq_fold ledger_volume_def ledger_balance_def)

theorem chain_get_balance_defined_witness:
  "chain_get_balance demo_chain ''bb'' = Some 10"
proof -
  have "ledger_volume (blocks demo_chain) < 2 ^ 63"
    by (simp add: ledger_volume_def demo_chain_txs tx_volume_def demo_coinbase_def demo_payment_def)
  from chain_get_balance_defined [OF _ this, of "''bb''"] show ?thesis
    by (simp add: ledger_balance_def demo_chain_txs tx_delta_def demo_coinbase_def demo_payment_def)
      (simp add: demo_chain_def)
qed

text \<open>
  Conservation of money: over any finite set of accounts that holds every sender and
  receiver of the chain (the coinbase account among them), the balances add up to minus the fees
  burnt. No transaction creates or destroys coins except through its fee.
\<close>

theorem ledger_conservation:
  assumes "finite A"
    "\<forall>t \<in> set (chain_txs (blocks c)). sender t \<in> A \<and> receiver t \<in> A \<and> tx_sane t"
  shows "(\<Sum>a\<in>A. ledger_balance (blocks c) a) = - (\<Sum>t\<leftarrow>chain_txs (blocks c). uint (fee t))"
  using assms by (intro sum_ledger_balance) auto

theorem ledger_conservation_witness:
  "(\<Sum>a\<in>{''COINBASE'', ''aa'', ''bb''}. ledger_balance (blocks demo_chain) a) = - 1"
proof -
  have "(\<Sum>a\<in>{''COINBASE'', ''aa'', ''bb''}. ledger_balance (blocks demo_chain) a)
      = - (\<Sum>t\<leftarrow>chain_txs (blocks demo_chain). uint (fee t))"
    by (rule ledger_conservation)
      (auto simp: demo_chain_txs demo_coinbase_def demo_payment_def tx_sane_def)
  then show ?thesis by (simp add: demo_chain_txs demo_coinbase_def demo_payment_def)
qed

text \<open>
  C30. Tamper evidence: two valid, fully sealed chains of the same length that end in the same
  hash have the same hashed text in every block, unless some block of one collides with the block
  of the other at the same height under the digest. (The printed index and timestamp must have the
  same length in both, since the hashed text has no separators.)
\<close>

theorem chain_integrity:
  assumes "links sha bs" "sealed sha (bs ! 0)" "links sha cs" "sealed sha (cs ! 0)"
    "length bs = length cs" "bs \<noteq> []" "hash (last bs) = hash (last cs)"
    "\<forall>i < length bs. length (block_stamp (bs ! i)) = length (block_stamp (cs ! i))"
  shows "(\<exists>i < length bs. block_preimage (bs ! i) \<noteq> block_preimage (cs ! i)
        \<and> sha (block_preimage (bs ! i)) = sha (block_preimage (cs ! i)))
    \<or> (\<forall>i < length bs. block_preimage (bs ! i) = block_preimage (cs ! i)
        \<and> hash (bs ! i) = hash (cs ! i))"
proof (rule disjCI)
  let ?n = "length bs"
  assume "\<not> (\<forall>i < ?n. block_preimage (bs ! i) = block_preimage (cs ! i)
        \<and> hash (bs ! i) = hash (cs ! i))"
  moreover have "block_preimage (bs ! i) = block_preimage (cs ! i) \<and> hash (bs ! i) = hash (cs ! i)"
    if nocoll: "\<not> (\<exists>i < ?n. block_preimage (bs ! i) \<noteq> block_preimage (cs ! i)
        \<and> sha (block_preimage (bs ! i)) = sha (block_preimage (cs ! i)))" and "i < ?n" for i
    using that(2)
  proof (induction "?n - 1 - i" arbitrary: i)
    case 0
    then have i: "i = ?n - 1" by simp
    moreover have "cs \<noteq> []" using assms(5,6) by auto
    ultimately have "hash (bs ! i) = hash (cs ! i)"
      using assms(5-7) by (simp add: last_conv_nth)
    with nocoll "0.prems" sealed_hash_eq links_sealed [OF assms(1,2)] links_sealed [OF assms(3,4)]
      assms(5) show ?case by metis
  next
    case (Suc k)
    then have i: "Suc i < ?n" "k = ?n - 1 - Suc i" by auto
    with Suc.hyps have "block_preimage (bs ! Suc i) = block_preimage (cs ! Suc i)" by blast
    moreover have "prev_hash (bs ! Suc i) = hash (bs ! i)" "prev_hash (cs ! Suc i) = hash (cs ! i)"
      using i assms(1-5) by (auto intro: links_prev_hash)
    moreover have sealed: "sealed sha (bs ! i)" "sealed sha (cs ! i)"
      using i assms(1-5) by (auto intro: links_sealed)
    ultimately have hash: "hash (bs ! i) = hash (cs ! i)"
      using preimage_prev_hash [of "bs ! Suc i" "cs ! Suc i"] assms(8) i(1)
      by (simp add: sealed_def)
    with nocoll Suc.prems sealed_hash_eq [OF sealed hash] show ?case by auto
  qed
  ultimately show "\<exists>i < ?n. block_preimage (bs ! i) \<noteq> block_preimage (cs ! i)
        \<and> sha (block_preimage (bs ! i)) = sha (block_preimage (cs ! i))"
    by blast
qed

theorem chain_integrity_witness:
  "\<exists>i < 2. block_preimage (blocks demo_chain ! i)
      \<noteq> block_preimage ([demo_genesis, demo_block\<lparr>tx_count := 1\<rparr>] ! i)
    \<and> zero_sha (block_preimage (blocks demo_chain ! i))
      = zero_sha (block_preimage ([demo_genesis, demo_block\<lparr>tx_count := 1\<rparr>] ! i))"
proof -
  let ?b = "demo_block\<lparr>tx_count := 1\<rparr>"
  have l: "links zero_sha [demo_genesis, demo_block]" "links zero_sha [demo_genesis, ?b]"
    by (auto simp: links_def less_Suc_eq link_ok_def sealed_def block_consts)
  have neq: "block_preimage demo_block \<noteq> block_preimage ?b"
  proof
    assume "block_preimage demo_block = block_preimage ?b"
    then have "length (block_preimage demo_block) = length (block_preimage ?b)" by simp
    then show False
      by (simp add: block_preimage_def block_header_def demo_block_def demo_coinbase_def
          demo_payment_def numeral_2_eq_2)
  qed
  have "(\<exists>i < length [demo_genesis, demo_block]. block_preimage ([demo_genesis, demo_block] ! i)
        \<noteq> block_preimage ([demo_genesis, ?b] ! i)
      \<and> zero_sha (block_preimage ([demo_genesis, demo_block] ! i))
        = zero_sha (block_preimage ([demo_genesis, ?b] ! i)))
    \<or> (\<forall>i < length [demo_genesis, demo_block]. block_preimage ([demo_genesis, demo_block] ! i)
        = block_preimage ([demo_genesis, ?b] ! i)
      \<and> hash ([demo_genesis, demo_block] ! i) = hash ([demo_genesis, ?b] ! i))"
    using l by (intro chain_integrity) (auto simp: less_Suc_eq block_stamp_def)
  then show ?thesis
  proof
    assume "\<forall>i < length [demo_genesis, demo_block]. block_preimage ([demo_genesis, demo_block] ! i)
        = block_preimage ([demo_genesis, ?b] ! i)
      \<and> hash ([demo_genesis, demo_block] ! i) = hash ([demo_genesis, ?b] ! i)"
    then have "block_preimage ([demo_genesis, demo_block] ! 1)
        = block_preimage ([demo_genesis, ?b] ! 1)"
      by (metis One_nat_def length_Cons lessI list.size(3))
    with neq show ?thesis by simp
  qed (simp add: demo_chain_def numeral_2_eq_2)
qed

text \<open>
  C19. One block at a time or all at once: receiving the blocks \<open>bs\<close> one after the other ends in the same
  chain, and succeeds in the same cases, as receiving the whole extended chain in one message, except
  for one check that \<open>chain_validate\<close> leaves out: that the indices of the blocks count on.
\<close>

theorem replace_equals_adding:
  assumes "chain_inv sha c" "bs \<noteq> []" "\<forall>b \<in> set bs. block_ok b" "chain_length c + length bs \<le> MAX_BLOCKS"
  shows "add_blocks sha c bs = Some (0, c') \<longleftrightarrow>
    chain_replace sha c \<lparr>blocks = blocks c @ bs\<rparr> = Some (0, c') \<and> counts_on (last (blocks c)) bs"
proof -
  have "chain_shape \<lparr>blocks = blocks c @ bs\<rparr>"
    using assms by (auto simp: chain_inv_def chain_shape_def chain_length_def block_okD)
  from chain_replace_eq [OF this, of sha c "(0, c')"] assms(2) show ?thesis
    unfolding add_blocks_0_iff [OF assms(1,3,4)]
    by (cases c) (auto simp: chain_length_def)
qed

theorem replace_equals_adding_witness:
  "add_blocks zero_sha \<lparr>blocks = [demo_genesis]\<rparr> [demo_block] = Some (0, demo_chain)
    \<and> chain_replace zero_sha \<lparr>blocks = [demo_genesis]\<rparr> demo_chain = Some (0, demo_chain)"
proof -
  have "add_blocks zero_sha \<lparr>blocks = [demo_genesis]\<rparr> [demo_block] = Some (0, demo_chain)"
    by (simp add: chain_add_block_eq block_okD chain_length_def MAX_BLOCKS_def demo_chain_def)
  then show ?thesis
    using replace_equals_adding [of zero_sha "\<lparr>blocks = [demo_genesis]\<rparr>" "[demo_block]" demo_chain]
      demo_chain_inv by (auto simp: chain_length_def MAX_BLOCKS_def demo_chain_def)
qed

end
