(* ===== verification/Protocol.thy ===== *)
theory Protocol
  imports Message Chain
begin

text \<open>
  Serialisation and parsing of transactions, blocks and chains (\<open>include/protocol.h\<close>,
  \<open>src/protocol.c\<close>). Where a serialiser can also run into undefined behaviour its \<open>char *\<close>
  result, an \<open>option\<close>, is again under an \<open>option\<close>.
\<close>

section \<open>Transactions\<close>

text \<open>The \<open>printf\<close> format of \<open>protocol_serialize_tx\<close>.\<close>

definition tx_format :: "string \<Rightarrow> string \<Rightarrow> u64 \<Rightarrow> u64 \<Rightarrow> string \<Rightarrow> string \<Rightarrow> string" where
  "tx_format s r a f sig h =
     ''{\"sender\":\"'' @ s @ ''\",\"receiver\":\"'' @ r @ ''\",\"amount\":'' @ fmt_u (unat a)
     @ '',\"fee\":'' @ fmt_u (unat f) @ '',\"signature\":\"'' @ sig @ ''\",\"tx_hash\":\"'' @ h @ ''\"}''"

definition protocol_serialize_tx :: "allocator \<Rightarrow> tx_t \<Rightarrow> string option" where
  "protocol_serialize_tx al t =
     (if \<not> al 1024 then None
      else
        let sender_esc = json_escape (sender t) (ADDR_LEN * 2);
            receiver_esc = json_escape (receiver t) (ADDR_LEN * 2)
        in Some (snprintf 1024 (tx_format sender_esc receiver_esc (amount t) (fee t)
             (signature t) (tx_hash t))))"

text \<open>
  \<open>protocol_deserialize_tx\<close> clears \<open>*tx\<close> first and fills it field by field; the pair is the
  return value and \<open>*tx\<close>, which on an error holds the fields read so far.
\<close>

definition protocol_deserialize_tx :: "string \<Rightarrow> int \<times> tx_t" where
  "protocol_deserialize_tx json =
     (let t = tx_zero in
      case json_get_string json ''sender'' ADDR_LEN of None \<Rightarrow> (- 1, t) | Some v \<Rightarrow>
      (let t = t\<lparr>sender := v\<rparr> in
      case json_get_string json ''receiver'' ADDR_LEN of None \<Rightarrow> (- 1, t) | Some v \<Rightarrow>
      (let t = t\<lparr>receiver := v\<rparr> in
      case json_get_uint64 json ''amount'' of None \<Rightarrow> (- 1, t) | Some a \<Rightarrow>
      (let t = t\<lparr>amount := a\<rparr>;
           t = (case json_get_uint64 json ''fee'' of None \<Rightarrow> t | Some f \<Rightarrow> t\<lparr>fee := f\<rparr>);
           t = (case json_get_string json ''signature'' SIG_LEN of None \<Rightarrow> t
                | Some v \<Rightarrow> t\<lparr>signature := v\<rparr>);
           t = (case json_get_string json ''tx_hash'' 65 of None \<Rightarrow> t | Some v \<Rightarrow> t\<lparr>tx_hash := v\<rparr>)
       in (0, t)))))"

section \<open>Blocks\<close>

text \<open>The loop of \<open>protocol_serialize_block\<close>: \<open>Some None\<close> is the early \<open>return NULL\<close>.\<close>

function serialize_txs :: "allocator \<Rightarrow> block_t \<Rightarrow> nat \<Rightarrow> string \<times> nat \<Rightarrow> (string \<times> nat) option option" where
  "serialize_txs al b i st =
     (if int i < tx_count b
      then do {
        t \<leftarrow> arr_get (transactions b) i;
        case protocol_serialize_tx al t of
          None \<Rightarrow> Some None
        | Some tx_json \<Rightarrow> do {
            st \<leftarrow> (if i > 0 then buf_append 8192 st '','' else Some st);
            st \<leftarrow> buf_append 8192 st tx_json;
            serialize_txs al b (Suc i) st
          }
      }
      else Some (Some st))"
  by pat_completeness auto
termination
  by (relation "measure (\<lambda>(al, b, i, st). nat (tx_count b - int i))") auto

declare serialize_txs.simps [simp del]

definition block_format :: "block_t \<Rightarrow> string \<Rightarrow> string" where
  "block_format b txs_buf =
     ''{\"index\":'' @ fmt_u (unat (index b)) @ '',\"timestamp\":'' @ fmt_d (timestamp b)
     @ '',\"prev_hash\":\"'' @ prev_hash b @ ''\",\"nonce\":'' @ fmt_u (unat (nonce b))
     @ '',\"hash\":\"'' @ hash b @ ''\",\"tx_count\":'' @ fmt_d (tx_count b)
     @ '',\"transactions\":'' @ txs_buf @ ''}''"

definition protocol_serialize_block :: "allocator \<Rightarrow> block_t \<Rightarrow> string option option" where
  "protocol_serialize_block al b = do {
     r \<leftarrow> serialize_txs al b 0 (''['', 1);
     case r of
       None \<Rightarrow> Some None
     | Some st \<Rightarrow> do {
         (txs_buf, _) \<leftarrow> buf_append 8192 st '']'';
         if \<not> al 16384 then Some None
         else Some (Some (snprintf 16384 (block_format b txs_buf)))
       }
   }"

text \<open>
  The loop of \<open>protocol_deserialize_block\<close> over the array of transactions: \<open>k\<close> iterations are
  left, \<open>i\<close> is the next slot. The result of \<open>protocol_deserialize_tx\<close> is not looked at.
\<close>

fun deserialize_txs :: "allocator \<Rightarrow> nat \<Rightarrow> nat \<Rightarrow> string \<Rightarrow> tx_t list \<Rightarrow> int \<times> tx_t list" where
  "deserialize_txs al 0 i txs_start txs = (0, txs)"
| "deserialize_txs al (Suc k) i txs_start txs =
     (case strchr txs_start (CHR ''{'') of
        None \<Rightarrow> (0, txs)
      | Some obj_start \<Rightarrow>
          (case brace_scan 0 obj_start of (tx_json, p) \<Rightarrow>
             if \<not> al (length tx_json + 1) then (- 1, txs)
             else deserialize_txs al k (Suc i) p (txs[i := snd (protocol_deserialize_tx tx_json)])))"

definition protocol_deserialize_block :: "allocator \<Rightarrow> string \<Rightarrow> int \<times> block_t" where
  "protocol_deserialize_block al json =
     (let b = block_zero in
      case json_get_uint64 json ''index'' of None \<Rightarrow> (- 1, b) | Some v \<Rightarrow>
      (let b = b\<lparr>index := ucast v\<rparr> in
      case json_get_uint64 json ''timestamp'' of None \<Rightarrow> (- 1, b) | Some v \<Rightarrow>
      (let b = b\<lparr>timestamp := sint v\<rparr> in
      case json_get_string json ''prev_hash'' HASH_HEX_LEN of None \<Rightarrow> (- 1, b) | Some s \<Rightarrow>
      (let b = b\<lparr>prev_hash := s\<rparr> in
      case json_get_uint64 json ''nonce'' of None \<Rightarrow> (- 1, b) | Some v \<Rightarrow>
      (let b = b\<lparr>nonce := v\<rparr> in
      case json_get_string json ''hash'' HASH_HEX_LEN of None \<Rightarrow> (- 1, b) | Some s \<Rightarrow>
      (let b = b\<lparr>hash := s\<rparr> in
      case json_get_int json ''tx_count'' of None \<Rightarrow> (- 1, b) | Some n \<Rightarrow>
      (let b = b\<lparr>tx_count := n\<rparr> in
      case json_find_key json ''transactions'' of None \<Rightarrow> (0, b) | Some txs_start \<Rightarrow>
      (if txs_start = [] \<or> hd txs_start \<noteq> CHR ''['' then (0, b)
       else
         (case deserialize_txs al (nat (min (tx_count b) (int MAX_TX_PER_BLOCK))) 0 (tl txs_start)
              (transactions b) of
            (r, txs) \<Rightarrow> (r, b\<lparr>transactions := txs\<rparr>))))))))))"

section \<open>Chains\<close>

text \<open>The loop of \<open>protocol_serialize_chain\<close> over the blocks that are left.\<close>

fun serialize_blocks :: "allocator \<Rightarrow> nat \<Rightarrow> block_t list \<Rightarrow> nat \<Rightarrow> string \<times> nat \<Rightarrow> (string \<times> nat) option option" where
  "serialize_blocks al buf_size [] i st = Some (Some st)"
| "serialize_blocks al buf_size (b # bs) i st = do {
     r \<leftarrow> protocol_serialize_block al b;
     case r of
       None \<Rightarrow> Some None
     | Some block_json \<Rightarrow> do {
         st \<leftarrow> (if i > 0 then buf_append buf_size st '','' else Some st);
         st \<leftarrow> buf_append buf_size st block_json;
         serialize_blocks al buf_size bs (Suc i) st
       }
   }"

definition protocol_serialize_chain :: "allocator \<Rightarrow> blockchain_t \<Rightarrow> string option option" where
  "protocol_serialize_chain al c =
     (let buf_size = chain_length c * 16384 + 256 in
      if \<not> al buf_size then Some None
      else do {
        st \<leftarrow> buf_append buf_size ([], 0)
                (''{\"length\":'' @ fmt_d (int (chain_length c)) @ '',\"blocks\":['');
        r \<leftarrow> serialize_blocks al buf_size (blocks c) 0 st;
        case r of
          None \<Rightarrow> Some None
        | Some st \<Rightarrow> do {
            (buf, _) \<leftarrow> buf_append buf_size st '']}'';
            Some (Some buf)
          }
      })"

text \<open>
  The loop of \<open>protocol_deserialize_chain\<close>: the accumulator is the part of the chain stored so
  far, whose length is \<open>chain->length\<close>.
\<close>

fun deserialize_blocks :: "allocator \<Rightarrow> nat \<Rightarrow> string \<Rightarrow> block_t list \<Rightarrow> int \<times> block_t list" where
  "deserialize_blocks al 0 blocks_start acc = (0, acc)"
| "deserialize_blocks al (Suc k) blocks_start acc =
     (case strchr blocks_start (CHR ''{'') of
        None \<Rightarrow> (0, acc)
      | Some obj_start \<Rightarrow>
          (case brace_scan 0 obj_start of (block_json, p) \<Rightarrow>
             if \<not> al (length block_json + 1) then (- 1, acc)
             else (case protocol_deserialize_block al block_json of (r, b) \<Rightarrow>
                     if r \<noteq> 0 then (- 1, acc)
                     else deserialize_blocks al k p (acc @ [b]))))"

definition protocol_deserialize_chain :: "allocator \<Rightarrow> string \<Rightarrow> blockchain_t \<Rightarrow> int \<times> blockchain_t" where
  "protocol_deserialize_chain al json c =
     (case json_get_int json ''length'' of None \<Rightarrow> (- 1, c) | Some len \<Rightarrow>
      (if len \<le> 0 \<or> int MAX_BLOCKS < len then (- 1, c)
       else case json_find_key json ''blocks'' of None \<Rightarrow> (- 1, c) | Some blocks_start \<Rightarrow>
       (if blocks_start = [] \<or> hd blocks_start \<noteq> CHR ''['' then (- 1, c)
        else (case deserialize_blocks al (nat len) (tl blocks_start) [] of
                (r, bs) \<Rightarrow> (r, c\<lparr>blocks := bs\<rparr>)))))"

section \<open>The transaction codec\<close>

text \<open>The text of a transaction when nothing is cut off.\<close>

definition tx_text :: "tx_t \<Rightarrow> string" where
  "tx_text t = tx_format (esc (sender t)) (esc (receiver t)) (amount t) (fee t) (signature t)
     (tx_hash t)"

text \<open>
  Addresses are escaped, but the signature and the hash are printed as they are: \<open>tx_sendable\<close> asks
  that they hold no quote and no backslash, \<open>tx_wire\<close> that every field is free of brackets too.
\<close>

definition tx_sendable :: "tx_t \<Rightarrow> bool" where
  "tx_sendable t \<longleftrightarrow> tx_ok t \<and> DQ \<notin> set (signature t) \<and> BS \<notin> set (signature t)
     \<and> DQ \<notin> set (tx_hash t) \<and> BS \<notin> set (tx_hash t)"

definition tx_wire :: "tx_t \<Rightarrow> bool" where
  "tx_wire t \<longleftrightarrow> tx_ok t \<and> plain (sender t) \<and> plain (receiver t) \<and> plain (signature t)
     \<and> plain (tx_hash t)"

lemma tx_wire_sendable [wf_facts]: "tx_wire t \<Longrightarrow> tx_sendable t"
  by (simp add: tx_wire_def tx_sendable_def wf_facts)

lemma length_tx_text:
  assumes "tx_ok t"
  shows "length (tx_text t) \<le> 560"
proof -
  have "length (tx_text t) = length (esc (sender t)) + length (esc (receiver t))
      + length (fmt_u (unat (amount t))) + length (fmt_u (unat (fee t)))
      + length (signature t) + length (tx_hash t) + 72"
    by (simp add: tx_text_def tx_format_def)
  with tx_okD(1-4) [OF assms] length_esc [of "sender t"] length_esc [of "receiver t"]
    length_fmt_u64 [of "amount t"] length_fmt_u64 [of "fee t"]
  show ?thesis by linarith
qed

lemma protocol_serialize_tx_eq:
  assumes "tx_ok t" "al 1024"
  shows "protocol_serialize_tx al t = Some (tx_text t)"
proof -
  have "json_escape (sender t) (ADDR_LEN * 2) = esc (sender t)"
    "json_escape (receiver t) (ADDR_LEN * 2) = esc (receiver t)"
    using tx_okD(1,2) [OF assms(1)] by (auto intro!: json_escape_eq simp: tx_consts)
  with assms(2) length_tx_text [OF assms(1)] show ?thesis
    by (simp add: protocol_serialize_tx_def tx_text_def snprintf_def Let_def)
qed

lemma tx_text_strings:
  assumes "tx_sendable t"
  shows "json_get_string (tx_text t) ''sender'' ADDR_LEN = Some (sender t)"
    "json_get_string (tx_text t) ''receiver'' ADDR_LEN = Some (receiver t)"
    "json_get_string (tx_text t) ''signature'' SIG_LEN = Some (signature t)"
    "json_get_string (tx_text t) ''tx_hash'' 65 = Some (tx_hash t)"
proof -
  note t = assms [unfolded tx_sendable_def] and len = tx_okD(1-4) [of t]
  show "json_get_string (tx_text t) ''sender'' ADDR_LEN = Some (sender t)"
    by (rule json_get_string_esc) (use t len in \<open>simp_all add: tx_text_def tx_format_def clib tx_consts\<close>)
  show "json_get_string (tx_text t) ''receiver'' ADDR_LEN = Some (receiver t)"
    by (rule json_get_string_esc) (use t len in \<open>simp_all add: tx_text_def tx_format_def clib tx_consts\<close>)
  show "json_get_string (tx_text t) ''signature'' SIG_LEN = Some (signature t)"
    by (rule json_get_string_plain) (use t len in \<open>simp_all add: tx_text_def tx_format_def clib tx_consts\<close>)
  show "json_get_string (tx_text t) ''tx_hash'' 65 = Some (tx_hash t)"
    by (rule json_get_string_plain) (use t len in \<open>simp_all add: tx_text_def tx_format_def clib tx_consts\<close>)
qed

lemma tx_text_numbers:
  "json_get_uint64 (tx_text t) ''amount'' = Some (amount t)"
  "json_get_uint64 (tx_text t) ''fee'' = Some (fee t)"
proof -
  show "json_get_uint64 (tx_text t) ''amount'' = Some (amount t)"
    by (rule json_get_uint64_eq, simp add: tx_text_def tx_format_def clib)
      (simp_all add: is_digit_def char_code_def)
  show "json_get_uint64 (tx_text t) ''fee'' = Some (fee t)"
    by (rule json_get_uint64_eq, simp add: tx_text_def tx_format_def clib)
      (simp_all add: is_digit_def char_code_def)
qed

lemma protocol_deserialize_tx_text:
  "tx_sendable t \<Longrightarrow> protocol_deserialize_tx (tx_text t) = (0, t)"
  by (simp add: protocol_deserialize_tx_def tx_text_strings tx_text_numbers tx_zero_def Let_def)

section \<open>Arrays of objects\<close>

text \<open>The texts of the elements with commas between them, as both serialisers write them.\<close>

fun comma_sep :: "bool \<Rightarrow> string list \<Rightarrow> string" where
  "comma_sep first [] = []"
| "comma_sep first (x # xs) = (if first then x else CHR '','' # x) @ comma_sep False xs"

lemma comma_sep_append:
  "comma_sep first (xs @ ys) = comma_sep first xs @ comma_sep (first \<and> xs = []) ys"
  by (induction first xs rule: comma_sep.induct) auto

lemma length_comma_sep:
  "\<forall>x \<in> set xs. length x \<le> n \<Longrightarrow> length (comma_sep first xs) \<le> (n + 1) * length xs"
  by (induction first xs rule: comma_sep.induct) auto

text \<open>An object that the brace counter cuts out.\<close>

definition brace_object :: "string \<Rightarrow> bool" where
  "brace_object s \<longleftrightarrow> (\<exists>body. s = CHR ''{'' # body @ ''}'' \<and> braces_ok body)"

lemma brace_object_scan:
  assumes "brace_object s"
  shows "strchr (s @ r) (CHR ''{'') = Some (s @ r)" "brace_scan 0 (s @ r) = (s, r)"
  using assms brace_scan_object by (auto simp: brace_object_def)

lemma braces_ok_comma_sep:
  "\<forall>x \<in> set xs. brace_object x \<Longrightarrow> braces_ok (comma_sep first xs)"
proof (induction first xs rule: comma_sep.induct)
  case (1 first)
  then show ?case by (simp add: braces_ok_free)
next
  case (2 first x xs)
  then have "braces_ok x" by (auto simp: brace_object_def braces_ok_object)
  moreover have "braces_ok (CHR '','' # x)"
    using braces_ok_append [of "'',''" x] \<open>braces_ok x\<close>
    by (simp add: braces_ok_free)
  ultimately show ?case using 2 by (simp add: braces_ok_append)
qed

lemma payload_ok_comma_sep:
  "\<forall>x \<in> set xs. wire_object x \<Longrightarrow> payload_ok (comma_sep first xs)"
proof (induction first xs rule: comma_sep.induct)
  case (1 first)
  then show ?case by (simp add: payload_ok_plain)
next
  case (2 first x xs)
  then have "payload_ok x" by (auto simp: wire_object_def payload_ok_object)
  moreover have "payload_ok (CHR '','' # x)"
    using payload_ok_append [of "'',''" x] \<open>payload_ok x\<close>
    by (simp add: payload_ok_plain plain_char_def)
  ultimately show ?case using 2 by (simp add: payload_ok_append)
qed

lemma comma_sep_chars:
  "c \<noteq> CHR '','' \<Longrightarrow> \<forall>x \<in> set xs. c \<notin> set x \<Longrightarrow> c \<notin> set (comma_sep first xs)"
  by (induction first xs rule: comma_sep.induct) auto

section \<open>Transactions as objects\<close>

lemma payload_ok_quoted: "plain s \<Longrightarrow> payload_ok (DQ # s @ [DQ])"
  by (simp add: payload_ok_def clib Let_def)

lemma tx_wire_text:
  assumes "tx_wire t"
  shows "wire_object (tx_text t)"
proof -
  let ?body = "butlast (tl (tx_text t))"
  have body: "tx_text t = CHR ''{'' # ?body @ ''}''"
    by (simp add: tx_text_def tx_format_def butlast_append)
  have t: "plain (sender t)" "plain (receiver t)" "plain (signature t)" "plain (tx_hash t)"
    using assms by (simp_all add: tx_wire_def)
  then have "payload_ok ?body"
    by (simp add: tx_text_def tx_format_def butlast_append plain_esc payload_ok_def clib Let_def)
  with body t show ?thesis
    by (auto simp: wire_object_def tx_text_def tx_format_def plain_esc plainD)
qed

lemma tx_brace_text:
  assumes "brace_free (sender t)" "brace_free (receiver t)" "brace_free (signature t)"
    "brace_free (tx_hash t)"
  shows "brace_object (tx_text t)"
proof -
  let ?body = "butlast (tl (tx_text t))"
  have "tx_text t = CHR ''{'' # ?body @ ''}''"
    by (simp add: tx_text_def tx_format_def butlast_append)
  moreover have "brace_free ?body"
    using assms by (simp add: tx_text_def tx_format_def butlast_append)
  ultimately show ?thesis unfolding brace_object_def using braces_ok_free by blast
qed

lemma tx_wire_brace [wf_facts]: "tx_wire t \<Longrightarrow> brace_object (tx_text t)"
  by (rule tx_brace_text) (simp_all add: tx_wire_def plainD)

interpretation tx_codec: wire_codec tx_text protocol_deserialize_tx tx_wire
  by unfold_locales (simp_all add: protocol_deserialize_tx_text tx_wire_sendable tx_wire_text)

section \<open>The block codec\<close>

definition txs_text :: "tx_t list \<Rightarrow> string" where
  "txs_text ts = CHR ''['' # comma_sep True (map tx_text ts) @ '']''"

definition block_text :: "block_t \<Rightarrow> string" where
  "block_text b = block_format b (txs_text (block_txs b))"

text \<open>
  The blocks that the format can carry: a transaction count within the array, no data in the slots
  behind it, hashes that are plain text, and transactions that the format can carry.
\<close>

definition block_wire :: "block_t \<Rightarrow> bool" where
  "block_wire b \<longleftrightarrow> block_ok b \<and> 0 \<le> tx_count b \<and> plain (prev_hash b) \<and> plain (hash b)
     \<and> (\<forall>t \<in> set (block_txs b). tx_wire t)
     \<and> transactions b = block_txs b @ replicate (10 - nat (tx_count b)) tx_zero"

lemma block_wireD:
  assumes "block_wire b"
  shows "block_shape b" "length (transactions b) = 10" "0 \<le> tx_count b" "tx_count b \<le> 10"
    "length (block_txs b) = nat (tx_count b)"
proof -
  have ok: "block_ok b" using assms by (simp add: block_wire_def)
  show "0 \<le> tx_count b" using assms by (simp add: block_wire_def)
  show "block_shape b" "tx_count b \<le> 10" by (rule block_okD [OF ok])+
  then show "length (transactions b) = 10" by (intro block_shapeD)
  then show "length (block_txs b) = nat (tx_count b)"
    using \<open>tx_count b \<le> 10\<close> by (simp add: block_txs_def)
qed

lemma buf_append_fits:
  "length s + length x < sz \<Longrightarrow> buf_append sz (s, length s) x = Some (s @ x, length (s @ x))"
  by (simp add: buf_append_def)

lemma serialize_txs_eq:
  assumes "al 1024 \<or> tx_count b \<le> 0" "length (transactions b) = 10" "tx_count b \<le> 10" "\<forall>t \<in> set (transactions b). tx_ok t"
    "i \<le> 10" "length s \<le> 1 + 561 * i"
  shows "serialize_txs al b i (s, length s) =
    (let r = s @ comma_sep (i = 0) (map tx_text (drop i (block_txs b))) in Some (Some (r, length r)))"
  using assms(5,6)
proof (induction "10 - i" arbitrary: i s)
  case 0
  with assms(2,3) show ?case by (subst serialize_txs.simps) (simp add: block_txs_def Let_def)
next
  case (Suc k)
  then have i: "i < 10" "k = 10 - Suc i" by auto
  show ?case
  proof (cases "int i < tx_count b")
    case True
    let ?t = "transactions b ! i" and ?sep = "if i = 0 then [] else '',''"
    let ?s = "s @ ?sep @ tx_text ?t"
    have t: "protocol_serialize_tx al ?t = Some (tx_text ?t)" "length (tx_text ?t) \<le> 560"
      using assms i True by (auto intro!: protocol_serialize_tx_eq length_tx_text)
    moreover have "length s \<le> 5050" using Suc.prems i(1) by linarith
    ultimately have "serialize_txs al b i (s, length s) = serialize_txs al b (Suc i) (?s, length ?s)"
      using True i assms(2)
      by (subst serialize_txs.simps) (cases "i = 0"; simp add: buf_append_def)
    moreover have "length ?s \<le> 1 + 561 * Suc i"
      using t(2) Suc.prems by (cases "i = 0"; simp)
    moreover have "drop i (block_txs b) = ?t # drop (Suc i) (block_txs b)"
      using True i assms(2) by (subst Cons_nth_drop_Suc [symmetric]) (auto simp: block_txs_def)
    ultimately show ?thesis using Suc.hyps(1) [of "Suc i" ?s] i by (simp add: Let_def)
  next
    case False
    then have "drop i (block_txs b) = []" by (auto simp: block_txs_def)
    with False show ?thesis by (subst serialize_txs.simps) (simp add: Let_def)
  qed
qed

lemma length_txs_text:
  assumes "\<forall>t \<in> set ts. tx_ok t" "length ts \<le> 10"
  shows "length (txs_text ts) \<le> 5612"
proof -
  have "length (comma_sep True (map tx_text ts)) \<le> (560 + 1) * length (map tx_text ts)"
    using assms(1) by (intro length_comma_sep) (auto simp: length_tx_text)
  with assms(2) show ?thesis by (simp add: txs_text_def)
qed

lemma length_block_format:
  assumes "block_shape b"
  shows "length (block_format b txt) \<le> length txt + 302"
proof -
  have "length (block_format b txt) = length (fmt_u (unat (index b))) + length (fmt_d (timestamp b))
      + length (prev_hash b) + length (fmt_u (unat (nonce b))) + length (hash b)
      + length (fmt_d (tx_count b)) + length txt + 85"
    by (simp add: block_format_def)
  moreover have "i64_ok (tx_count b)"
    using assms by (simp add: i64_ok_def block_shape_def)
  ultimately show ?thesis
    using block_shapeD(1,3,4) [OF assms] length_fmt_d64 [of "timestamp b"]
      length_fmt_d64 [of "tx_count b"] length_fmt_u32 [of "index b"] length_fmt_u64 [of "nonce b"]
    by linarith
qed

lemma length_block_text:
  assumes "block_ok b"
  shows "length (block_text b) \<le> 5914"
proof -
  have "length (txs_text (block_txs b)) \<le> 5612"
    using block_okD [OF assms] block_shapeD(2)
    by (intro length_txs_text) (auto simp: block_txs_def block_shape_def dest!: in_set_takeD)
  then show ?thesis
    using length_block_format [OF block_okD(1) [OF assms], of "txs_text (block_txs b)"]
    by (simp add: block_text_def)
qed

text \<open>Whatever \<open>malloc\<close> does, serialising a block is defined: the result is the text or \<open>NULL\<close>.\<close>

lemma protocol_serialize_tx_NULL: "\<not> al 1024 \<Longrightarrow> protocol_serialize_tx al t = None"
  by (simp add: protocol_serialize_tx_def)

lemma protocol_serialize_block_any:
  assumes "block_ok b"
  shows "protocol_serialize_block al b =
    (if (al 1024 \<or> tx_count b \<le> 0) \<and> al 16384 then Some (Some (block_text b)) else Some None)"
proof (cases "al 1024 \<or> tx_count b \<le> 0")
  case True
  note b = block_okD [OF assms(1)] block_shapeD(2) [OF block_okD(1) [OF assms(1)]]
  let ?r = "CHR ''['' # comma_sep True (map tx_text (block_txs b))"
  have "serialize_txs al b 0 (''['', 1) = Some (Some (?r, length ?r))"
    using serialize_txs_eq [of al b 0 "''[''"] True b by (simp add: block_shape_def)
  moreover have "length (txs_text (block_txs b)) \<le> 5612"
    using b by (intro length_txs_text) (auto simp: block_txs_def block_shape_def dest!: in_set_takeD)
  then have "length ?r + 1 < 8192" by (simp add: txs_text_def)
  ultimately show ?thesis
    using True length_block_text [OF assms(1)]
    by (simp add: protocol_serialize_block_def buf_append_def txs_text_def block_text_def
        snprintf_def)
next
  case False
  then have "serialize_txs al b 0 (''['', 1) = Some None"
    using block_shapeD(2) [OF block_okD(1) [OF assms]]
    by (subst serialize_txs.simps) (simp add: protocol_serialize_tx_NULL)
  with False show ?thesis by (simp add: protocol_serialize_block_def)
qed

lemma protocol_serialize_block_eq:
  "block_ok b \<Longrightarrow> \<forall>n. al n \<Longrightarrow> protocol_serialize_block al b = Some (Some (block_text b))"
  by (simp add: protocol_serialize_block_any)

text \<open>
  Reading the fields of a block back, whatever stands in the place of the transactions:
  \<open>block_head_ok\<close> is what this needs of the block.
\<close>

definition block_head_ok :: "block_t \<Rightarrow> bool" where
  "block_head_ok b \<longleftrightarrow> block_shape b \<and> plain (prev_hash b) \<and> plain (hash b)"

lemma block_wire_head [wf_facts]: "block_wire b \<Longrightarrow> block_head_ok b"
  by (simp add: block_wire_def block_head_ok_def block_okD)

lemma block_format_numbers:
  assumes "block_head_ok b"
  shows "json_get_uint64 (block_format b txt) ''index'' = Some (ucast (index b))"
    "json_get_uint64 (block_format b txt) ''timestamp'' = Some (of_int (timestamp b))"
    "json_get_uint64 (block_format b txt) ''nonce'' = Some (nonce b)"
    "json_get_int (block_format b txt) ''tx_count'' = Some (tx_count b)"
proof -
  note [simp] = block_format_def clib
  have plain: "plain (prev_hash b)" "plain (hash b)" and shape: "block_shape b"
    using assms by (simp_all add: block_head_ok_def)
  note dq = plainD(1) [OF plain(1)] plainD(1) [OF plain(2)]
  have idx: "unat (index b) = unat (ucast (index b) :: u64)" by simp
  show "json_get_uint64 (block_format b txt) ''index'' = Some (ucast (index b))"
    by (rule json_get_uint64_eq, simp add: idx del: unat_u32_u64)
      (simp_all add: is_digit_def char_code_def)
  show "json_get_uint64 (block_format b txt) ''timestamp'' = Some (of_int (timestamp b))"
    by (rule json_get_uint64_signed, simp)
      (use shape in \<open>simp_all add: is_digit_def char_code_def block_shape_def\<close>)
  show "json_get_uint64 (block_format b txt) ''nonce'' = Some (nonce b)"
    by (rule json_get_uint64_eq, simp add: dq) (simp_all add: is_digit_def char_code_def)
  show "json_get_int (block_format b txt) ''tx_count'' = Some (tx_count b)"
    by (rule json_get_int_eq, simp add: dq)
      (use shape in \<open>simp_all add: is_digit_def char_code_def block_shape_def\<close>)
qed

lemma block_format_strings:
  assumes "block_head_ok b"
  shows "json_get_string (block_format b txt) ''prev_hash'' HASH_HEX_LEN = Some (prev_hash b)"
    "json_get_string (block_format b txt) ''hash'' HASH_HEX_LEN = Some (hash b)"
    "json_find_key (block_format b (CHR ''['' # r)) ''transactions'' = Some (CHR ''['' # r @ ''}'')"
proof -
  note [simp] = block_format_def clib
  have plain: "plain (prev_hash b)" "plain (hash b)" and shape: "block_shape b"
    using assms by (simp_all add: block_head_ok_def)
  note dq = plainD(1,2) [OF plain(1)] plainD(1,2) [OF plain(2)]
  note len = block_shapeD(3,4) [OF shape]
  show "json_get_string (block_format b txt) ''prev_hash'' HASH_HEX_LEN = Some (prev_hash b)"
    by (rule json_get_string_plain, simp) (use dq len in \<open>simp_all add: block_consts\<close>)
  show "json_get_string (block_format b txt) ''hash'' HASH_HEX_LEN = Some (hash b)"
    by (rule json_get_string_plain, simp add: dq) (use dq len in \<open>simp_all add: block_consts\<close>)
  have "after_key ''transactions'' (block_format b (CHR ''['' # r)) = Some (CHR ''['' # r @ ''}'')"
    by (simp add: dq)
  from json_find_key_eq [OF this] show
    "json_find_key (block_format b (CHR ''['' # r)) ''transactions'' = Some (CHR ''['' # r @ ''}'')"
    by simp
qed

lemma protocol_deserialize_block_format:
  assumes "block_head_ok b"
  shows "protocol_deserialize_block al (block_format b (CHR ''['' # r)) =
    (case deserialize_txs al (nat (min (tx_count b) 10)) 0 (r @ ''}'') (replicate 10 tx_zero) of
       (v, txs) \<Rightarrow> (v, b\<lparr>transactions := txs\<rparr>))"
proof -
  have "sint (of_int (timestamp b) :: u64) = timestamp b"
    using assms by (simp add: sint_of_int_i64 block_head_ok_def block_shape_def)
  then show ?thesis
    by (simp add: protocol_deserialize_block_def block_format_numbers [OF assms]
        block_format_strings [OF assms] block_zero_def Let_def block_consts(1) split: prod.split)
qed

lemma deserialize_txs_eq:
  assumes "\<forall>n. al n" "\<forall>t \<in> set ts. tx_wire t" "i + length ts \<le> length txs"
  shows "deserialize_txs al (length ts) i (comma_sep first (map tx_text ts) @ r) txs =
    (0, take i txs @ ts @ drop (i + length ts) txs)"
  using assms(2,3)
proof (induction ts arbitrary: i first txs)
  case Nil
  then show ?case by simp
next
  case (Cons t ts)
  let ?rest = "comma_sep False (map tx_text ts) @ r"
  have t: "brace_object (tx_text t)" "tx_sendable t"
    using Cons.prems by (auto intro: tx_wire_brace tx_wire_sendable)
  have "strchr (comma_sep first (map tx_text (t # ts)) @ r) (CHR ''{'') = Some (tx_text t @ ?rest)"
    by (simp add: brace_object_scan [OF t(1)])
  then have "deserialize_txs al (length (t # ts)) i (comma_sep first (map tx_text (t # ts)) @ r) txs
      = deserialize_txs al (length ts) (Suc i) ?rest (txs[i := t])"
    using assms(1) by (simp add: brace_object_scan [OF t(1)] protocol_deserialize_tx_text [OF t(2)])
  also have "\<dots> = (0, take (Suc i) (txs[i := t]) @ ts @ drop (Suc i + length ts) (txs[i := t]))"
    using Cons.prems by (intro Cons.IH) auto
  finally show ?case
    using Cons.prems by (simp add: take_Suc_conv_app_nth)
qed

lemma protocol_deserialize_block_text:
  assumes "block_wire b" "\<forall>n. al n"
  shows "protocol_deserialize_block al (block_text b) = (0, b)"
proof -
  note w = block_wireD [OF assms(1)]
  have shape: "transactions b = block_txs b @ replicate (10 - nat (tx_count b)) tx_zero"
    and wire: "\<forall>t \<in> set (block_txs b). tx_wire t"
    using assms(1) by (simp_all add: block_wire_def)
  have n: "nat (min (tx_count b) 10) = length (block_txs b)"
    using w(3-5) by simp
  define r where "r = comma_sep True (map tx_text (block_txs b)) @ '']''"
  have "deserialize_txs al (length (block_txs b)) 0 (r @ ''}'') (replicate 10 tx_zero)
      = (0, transactions b)"
    using deserialize_txs_eq [OF assms(2) wire, of 0 "replicate 10 tx_zero" True "'']}''"] w(3-5)
    by (subst shape) (simp add: r_def)
  moreover have "block_text b = block_format b (CHR ''['' # r)"
    by (simp add: block_text_def txs_text_def r_def)
  ultimately show ?thesis
    by (simp add: protocol_deserialize_block_format [OF block_wire_head [OF assms(1)]] n)
qed

section \<open>Blocks as objects\<close>

text \<open>The block's text up to the array of transactions, without the opening brace.\<close>

definition block_head :: "block_t \<Rightarrow> string" where
  "block_head b =
     ''\"index\":'' @ fmt_u (unat (index b)) @ '',\"timestamp\":'' @ fmt_d (timestamp b)
     @ '',\"prev_hash\":\"'' @ prev_hash b @ ''\",\"nonce\":'' @ fmt_u (unat (nonce b))
     @ '',\"hash\":\"'' @ hash b @ ''\",\"tx_count\":'' @ fmt_d (tx_count b)
     @ '',\"transactions\":''"

lemma block_text_head: "block_text b = CHR ''{'' # (block_head b @ txs_text (block_txs b)) @ ''}''"
  by (simp add: block_text_def block_format_def block_head_def)

lemma block_wire_text:
  assumes "block_wire b"
  shows "wire_object (block_text b)" "brace_object (block_text b)"
proof -
  have b: "plain (prev_hash b)" "plain (hash b)" "\<forall>t \<in> set (block_txs b). tx_wire t"
    using assms by (simp_all add: block_wire_def)
  have "payload_ok (block_head b)"
    using b(1,2) by (simp add: block_head_def payload_ok_def clib Let_def)
  moreover have "payload_ok (txs_text (block_txs b))"
    unfolding txs_text_def using b(3)
    by (intro payload_ok_array payload_ok_comma_sep) (auto simp: tx_wire_text)
  moreover have "CHR 0x0A \<notin> set (comma_sep True (map tx_text (block_txs b)))"
    "CHR 0x00 \<notin> set (comma_sep True (map tx_text (block_txs b)))"
    by (rule comma_sep_chars, simp,
        use b(3) tx_wire_text in \<open>fastforce dest: wire_object_chars\<close>)+
  moreover have "CHR 0x0A \<notin> set (block_head b)" "CHR 0x00 \<notin> set (block_head b)"
    using b(1,2) by (simp_all add: block_head_def plainD)
  ultimately show "wire_object (block_text b)"
    unfolding block_text_head
    by (intro wire_objectI payload_ok_append) (simp_all add: txs_text_def)
  have "braces_ok (block_head b)"
    using b(1,2) by (intro braces_ok_free) (simp add: block_head_def plainD)
  moreover have "braces_ok (comma_sep True (map tx_text (block_txs b)))"
    using b(3) by (intro braces_ok_comma_sep) (auto simp: tx_wire_brace)
  then have "braces_ok (txs_text (block_txs b))"
    using braces_ok_append [OF braces_ok_append [of "''[''"], of _ "'']''"]
    by (simp add: txs_text_def braces_ok_free)
  ultimately show "brace_object (block_text b)"
    unfolding brace_object_def block_text_head by (auto intro: braces_ok_append)
qed

lemma block_format_wire:
  assumes "plain (prev_hash b)" "plain (hash b)"
  shows "wire_object (block_format b ''[]'')"
proof -
  have "block_format b ''[]'' = CHR ''{'' # (block_head b @ ''[]'') @ ''}''"
    by (simp add: block_format_def block_head_def)
  moreover have "payload_ok (block_head b)"
    using assms by (simp add: block_head_def payload_ok_def clib Let_def)
  moreover have "payload_ok ''[]''" using payload_ok_array [of "[]"] by (simp add: payload_ok_plain)
  moreover have "CHR 0x0A \<notin> set (block_head b)" "CHR 0x00 \<notin> set (block_head b)"
    using assms by (simp_all add: block_head_def plainD)
  ultimately show ?thesis
    by (simp only:) (intro wire_objectI payload_ok_append; simp)
qed

interpretation block_codec: wire_codec block_text "protocol_deserialize_block alloc_ok" block_wire
  by unfold_locales
    (simp_all add: protocol_deserialize_block_text block_wire_text alloc_ok_def)

section \<open>The chain codec\<close>

definition chain_text :: "blockchain_t \<Rightarrow> string" where
  "chain_text c = ''{\"length\":'' @ fmt_d (int (chain_length c)) @ '',\"blocks\":[''
     @ comma_sep True (map block_text (blocks c)) @ '']}''"

definition chain_wire :: "blockchain_t \<Rightarrow> bool" where
  "chain_wire c \<longleftrightarrow> 0 < chain_length c \<and> chain_length c \<le> MAX_BLOCKS
     \<and> (\<forall>b \<in> set (blocks c). block_wire b)"

lemma serialize_blocks_eq:
  assumes "\<forall>n. al n" "\<forall>b \<in> set bs. block_ok b" "length s + 5915 * length bs < sz"
  shows "serialize_blocks al sz bs i (s, length s) =
    (let r = s @ comma_sep (i = 0) (map block_text bs) in Some (Some (r, length r)))"
  using assms(2,3)
proof (induction bs arbitrary: i s)
  case Nil
  then show ?case by (simp add: Let_def)
next
  case (Cons b bs)
  have b: "protocol_serialize_block al b = Some (Some (block_text b))" "length (block_text b) \<le> 5914"
    using Cons.prems(1) assms(1) by (simp_all add: protocol_serialize_block_eq length_block_text)
  let ?s = "s @ (if i = 0 then [] else '','') @ block_text b"
  have "serialize_blocks al sz (b # bs) i (s, length s)
      = serialize_blocks al sz bs (Suc i) (?s, length ?s)"
    using b Cons.prems(2) by (cases "i = 0"; simp add: buf_append_def)
  also have "\<dots> = (let r = ?s @ comma_sep False (map block_text bs) in Some (Some (r, length r)))"
    using Cons.IH [of ?s "Suc i"] Cons.prems b(2) by (cases "i = 0"; simp add: Let_def)
  finally show ?case
    by (cases "i = 0"; simp add: Let_def del: serialize_blocks.simps)
qed

lemma length_fmt_d_chain: "chain_length c \<le> MAX_BLOCKS \<Longrightarrow> length (fmt_d (int (chain_length c))) \<le> 20"
  by (rule length_fmt_d64) (simp add: i64_ok_def MAX_BLOCKS_def)

lemma length_chain_text:
  assumes "\<forall>b \<in> set (blocks c). block_ok b" "chain_length c \<le> MAX_BLOCKS"
  shows "length (chain_text c) \<le> 5915 * chain_length c + 43"
proof -
  have "length (comma_sep True (map block_text (blocks c))) \<le> (5914 + 1) * length (map block_text (blocks c))"
    using assms(1) by (intro length_comma_sep) (auto simp: length_block_text)
  with length_fmt_d_chain [OF assms(2)] show ?thesis
    by (simp add: chain_text_def chain_length_def)
qed

lemma protocol_serialize_chain_eq:
  assumes "\<forall>b \<in> set (blocks c). block_ok b" "chain_length c \<le> MAX_BLOCKS" "\<forall>n. al n"
  shows "protocol_serialize_chain al c = Some (Some (chain_text c))"
proof -
  let ?sz = "chain_length c * 16384 + 256"
    and ?h = "''{\"length\":'' @ fmt_d (int (chain_length c)) @ '',\"blocks\":[''"
  let ?r = "?h @ comma_sep True (map block_text (blocks c))"
  have h: "length ?h \<le> 41" using length_fmt_d_chain [OF assms(2)] by simp
  have "buf_append ?sz ([], 0) ?h = Some (?h, length ?h)"
    using buf_append_fits [of "[]" ?h ?sz] h by simp
  moreover have "serialize_blocks al ?sz (blocks c) 0 (?h, length ?h) = Some (Some (?r, length ?r))"
    using serialize_blocks_eq [OF assms(3,1), of ?h ?sz 0] h by (simp add: chain_length_def)
  moreover have "buf_append ?sz (?r, length ?r) '']}'' = Some (?r @ '']}'', length (?r @ '']}''))"
    using length_chain_text [OF assms(1,2)] by (intro buf_append_fits) (simp add: chain_text_def)
  ultimately show ?thesis
    using assms(3) by (simp add: protocol_serialize_chain_def chain_text_def Let_def del: append_Cons append_assoc)
qed

lemma serialize_blocks_defined:
  assumes "\<forall>b \<in> set bs. block_ok b" "length s + 5915 * length bs < sz"
  shows "serialize_blocks al sz bs i (s, length s) = Some None
    \<or> serialize_blocks al sz bs i (s, length s) =
        (let r = s @ comma_sep (i = 0) (map block_text bs) in Some (Some (r, length r)))"
  using assms
proof (induction bs arbitrary: i s)
  case (Cons b bs)
  have b: "block_ok b" "length (block_text b) \<le> 5914"
    using Cons.prems(1) by (simp_all add: length_block_text)
  let ?s = "s @ (if i = 0 then [] else '','') @ block_text b"
  show ?case
  proof (cases "protocol_serialize_block al b = Some None")
    case False
    then have "protocol_serialize_block al b = Some (Some (block_text b))"
      using b(1) by (simp add: protocol_serialize_block_any split: if_splits)
    then have "serialize_blocks al sz (b # bs) i (s, length s)
        = serialize_blocks al sz bs (Suc i) (?s, length ?s)"
      using b(2) Cons.prems(2) by (cases "i = 0"; simp add: buf_append_def)
    moreover have "length ?s + 5915 * length bs < sz"
      using Cons.prems(2) b(2) by (cases "i = 0"; simp)
    ultimately show ?thesis
      using Cons.IH [of ?s "Suc i"] Cons.prems(1)
      by (cases "i = 0"; simp add: Let_def del: serialize_blocks.simps)
  qed simp
qed (simp add: Let_def)

lemma protocol_serialize_chain_defined:
  assumes "\<forall>b \<in> set (blocks c). block_ok b" "chain_length c \<le> MAX_BLOCKS"
  shows "protocol_serialize_chain al c = Some None
    \<or> protocol_serialize_chain al c = Some (Some (chain_text c))"
proof -
  let ?sz = "chain_length c * 16384 + 256"
    and ?h = "''{\"length\":'' @ fmt_d (int (chain_length c)) @ '',\"blocks\":[''"
  let ?r = "?h @ comma_sep True (map block_text (blocks c))"
  have h: "length ?h \<le> 41" using length_fmt_d_chain [OF assms(2)] by simp
  have "buf_append ?sz ([], 0) ?h = Some (?h, length ?h)"
    using buf_append_fits [of "[]" ?h ?sz] h by simp
  moreover have "serialize_blocks al ?sz (blocks c) 0 (?h, length ?h) = Some None
      \<or> serialize_blocks al ?sz (blocks c) 0 (?h, length ?h) = Some (Some (?r, length ?r))"
    using serialize_blocks_defined [OF assms(1), of ?h ?sz al 0] h by (simp add: chain_length_def)
  moreover have "buf_append ?sz (?r, length ?r) '']}'' = Some (?r @ '']}'', length (?r @ '']}''))"
    using length_chain_text [OF assms] by (intro buf_append_fits) (simp add: chain_text_def)
  ultimately show ?thesis
    by (auto simp: protocol_serialize_chain_def chain_text_def Let_def simp del: append_Cons append_assoc)
qed

text \<open>The head of a chain's text, which names \<open>k\<close> blocks, and the text with this head and a body that holds \<open>bs\<close>.\<close>

definition chain_head :: "nat \<Rightarrow> string" where
  "chain_head k = ''{\"length\":'' @ fmt_d (int k) @ '',\"blocks\":[''"

definition snapshot_text :: "nat \<Rightarrow> block_t list \<Rightarrow> string" where
  "snapshot_text k bs = chain_head k @ comma_sep True (map block_text bs) @ '']}''"

lemma chain_text_snapshot: "chain_text c = snapshot_text (chain_length c) (blocks c)"
  by (simp add: chain_text_def snapshot_text_def chain_head_def)

lemma chain_head_fields:
  assumes "k \<le> MAX_BLOCKS"
  shows "json_get_int (chain_head k @ r) ''length'' = Some (int k)"
    "json_find_key (chain_head k @ r) ''blocks'' = Some (CHR ''['' # r)"
proof -
  note [simp] = chain_head_def clib
  show "json_get_int (chain_head k @ r) ''length'' = Some (int k)"
    by (rule json_get_int_eq, simp)
      (use assms in \<open>simp_all add: is_digit_def char_code_def MAX_BLOCKS_def\<close>)
  have "after_key ''blocks'' (chain_head k @ r) = Some (CHR ''['' # r)" by simp
  from json_find_key_eq [OF this] show "json_find_key (chain_head k @ r) ''blocks'' = Some (CHR ''['' # r)"
    by simp
qed

lemma snapshot_text_fields:
  assumes "k \<le> MAX_BLOCKS"
  shows "json_get_int (snapshot_text k bs) ''length'' = Some (int k)"
    "json_find_key (snapshot_text k bs) ''blocks'' =
      Some (CHR ''['' # comma_sep True (map block_text bs) @ '']}'')"
  using chain_head_fields [OF assms] by (simp_all add: snapshot_text_def)

lemma chain_text_fields:
  assumes "chain_wire c"
  shows "json_get_int (chain_text c) ''length'' = Some (int (chain_length c))"
    "json_find_key (chain_text c) ''blocks'' =
      Some (CHR ''['' # comma_sep True (map block_text (blocks c)) @ '']}'')"
  using snapshot_text_fields assms by (simp_all add: chain_text_snapshot chain_wire_def)

lemma deserialize_blocks_front:
  assumes "\<forall>n. al n" "\<forall>b \<in> set bs. block_wire b"
  shows "deserialize_blocks al (length bs + k) (comma_sep first (map block_text bs) @ r) acc
    = deserialize_blocks al k r (acc @ bs)"
  using assms(2)
proof (induction bs arbitrary: first acc)
  case Nil
  then show ?case by simp
next
  case (Cons b bs)
  let ?rest = "comma_sep False (map block_text bs) @ r"
  have b: "block_wire b" "brace_object (block_text b)"
    using Cons.prems by (auto intro: block_wire_text)
  have "strchr (comma_sep first (map block_text (b # bs)) @ r) (CHR ''{'') = Some (block_text b @ ?rest)"
    by (simp add: brace_object_scan [OF b(2)])
  then have "deserialize_blocks al (length (b # bs) + k) (comma_sep first (map block_text (b # bs)) @ r) acc
      = deserialize_blocks al (length bs + k) ?rest (acc @ [b])"
    using assms(1)
    by (simp add: brace_object_scan [OF b(2)] protocol_deserialize_block_text [OF b(1) assms(1)])
  with Cons.IH [of False "acc @ [b]"] Cons.prems show ?case by simp
qed

lemma deserialize_blocks_eq:
  assumes "\<forall>n. al n" "\<forall>b \<in> set bs. block_wire b"
  shows "deserialize_blocks al (length bs) (comma_sep first (map block_text bs) @ r) acc = (0, acc @ bs)"
  using deserialize_blocks_front [OF assms, of 0] by simp

lemma protocol_deserialize_chain_text:
  assumes "chain_wire c" "\<forall>n. al n"
  shows "protocol_deserialize_chain al (chain_text c) c' = (0, c)"
proof -
  have "deserialize_blocks al (chain_length c)
      (comma_sep True (map block_text (blocks c)) @ '']}'') [] = (0, blocks c)"
    using deserialize_blocks_eq [OF assms(2), of "blocks c" True "'']}''" "[]"] assms(1)
    by (simp add: chain_wire_def chain_length_def)
  with assms(1) show ?thesis
    by (simp add: protocol_deserialize_chain_def chain_text_fields chain_wire_def)
qed

lemma chain_wire_text:
  assumes "chain_wire c"
  shows "wire_object (chain_text c)"
proof -
  have b: "\<forall>b \<in> set (blocks c). block_wire b" using assms by (simp add: chain_wire_def)
  let ?bs = "comma_sep True (map block_text (blocks c))"
  define h where "h = ''\"length\":'' @ fmt_d (int (chain_length c)) @ '',\"blocks\":''"
  have object: "chain_text c = CHR ''{'' # (h @ CHR ''['' # ?bs @ '']'') @ ''}''"
    by (simp add: chain_text_def h_def)
  have "payload_ok h" by (simp add: h_def payload_ok_def clib Let_def)
  moreover have "payload_ok (CHR ''['' # ?bs @ '']'')"
    using b by (intro payload_ok_array payload_ok_comma_sep) (auto simp: block_wire_text)
  moreover have "CHR 0x0A \<notin> set ?bs" "CHR 0x00 \<notin> set ?bs"
    by (rule comma_sep_chars, simp,
        use b block_wire_text(1) in \<open>fastforce dest: wire_object_chars\<close>)+
  moreover have "CHR 0x0A \<notin> set h" "CHR 0x00 \<notin> set h"
    by (simp_all add: h_def plainD)
  ultimately show ?thesis
    unfolding object by (intro wire_objectI payload_ok_append) simp_all
qed

interpretation chain_codec: wire_codec chain_text
    "\<lambda>json. protocol_deserialize_chain alloc_ok json \<lparr>blocks = []\<rparr>" chain_wire
  by unfold_locales
    (simp_all add: protocol_deserialize_chain_text chain_wire_text alloc_ok_def)

section \<open>What parsing guarantees on any text\<close>

lemma json_string_fits:
  "json_get_string json k n = Some s \<Longrightarrow> CHR 0x00 \<notin> set json \<Longrightarrow> 0 < n \<Longrightarrow> cstr_fits n s"
  by (rule json_get_string_fits)

lemma protocol_deserialize_tx_ok:
  assumes "CHR 0x00 \<notin> set json"
  shows "tx_ok (snd (protocol_deserialize_tx json))"
  using assms tx_zero_ok
  by (auto simp: protocol_deserialize_tx_def tx_ok_def Let_def tx_consts json_string_fits
      split: option.splits)

lemma deserialize_txs_ok:
  assumes "CHR 0x00 \<notin> set json" "\<forall>t \<in> set txs. tx_ok t"
    "deserialize_txs al k i json txs = (r, txs')"
  shows "length txs' = length txs \<and> (\<forall>t \<in> set txs'. tx_ok t)"
  using assms
proof (induction al k i json txs rule: deserialize_txs.induct)
  case (1 al i json txs)
  then show ?case by simp
next
  case (2 al k i json txs)
  show ?case
  proof (cases "strchr json (CHR ''{'')")
    case None
    with "2.prems" show ?thesis by simp
  next
    case (Some obj)
    obtain tx_json p where p: "brace_scan 0 obj = (tx_json, p)" by fastforce
    from Some p "2.prems"(1) have nul: "CHR 0x00 \<notin> set tx_json" "CHR 0x00 \<notin> set p"
      using set_strchr [OF Some] set_brace_scan [OF p] by auto
    have ok: "\<forall>t \<in> set (txs[i := snd (protocol_deserialize_tx tx_json)]). tx_ok t"
      using "2.prems"(2) protocol_deserialize_tx_ok [OF nul(1)]
      using set_update_subset_insert [of txs i] by blast
    show ?thesis
    proof (cases "al (length tx_json + 1)")
      case True
      with "2.IH" [OF Some p [symmetric]] "2.prems" Some p nul ok show ?thesis by simp
    next
      case False
      with "2.prems" Some p show ?thesis by simp
    qed
  qed
qed

lemma protocol_deserialize_block_shape:
  assumes "CHR 0x00 \<notin> set json"
  shows "block_shape (snd (protocol_deserialize_block al json))"
proof -
  have zero: "block_shape block_zero"
    by (auto simp: block_shape_def block_zero_def block_consts cstr_fits_def i64_ok_def)
  have i64: "i64_ok (sint (w :: u64))" for w
    using sint64_range [of w] by (simp add: i64_ok_def)
  have txs: "length txs' = 10 \<and> (\<forall>t \<in> set txs'. tx_ok t)"
    if "json_find_key json k = Some p" "deserialize_txs al n 0 (tl p) (replicate 10 tx_zero) = (r, txs')"
    for k n p r txs'
  proof -
    have "set (tl p) \<subseteq> set p" by (cases p) auto
    then have "CHR 0x00 \<notin> set (tl p)" using set_json_find_key [OF that(1)] assms by auto
    from deserialize_txs_ok [OF this _ that(2)] show ?thesis by simp
  qed
  show ?thesis
    using zero
    by (auto simp: protocol_deserialize_block_def Let_def block_shape_def block_consts
        block_zero_def i64 cstr_fits_def
        dest: txs json_get_int_range json_string_fits [OF _ assms] split: option.splits prod.splits)
qed

lemma deserialize_blocks_shape:
  assumes "CHR 0x00 \<notin> set json" "\<forall>b \<in> set acc. block_shape b"
    "deserialize_blocks al k json acc = (r, bs)"
  shows "(\<forall>b \<in> set bs. block_shape b) \<and> length bs \<le> length acc + k"
  using assms
proof (induction al k json acc rule: deserialize_blocks.induct)
  case (1 al json acc)
  then show ?case by simp
next
  case (2 al k json acc)
  show ?case
  proof (cases "strchr json (CHR ''{'')")
    case None
    with "2.prems" show ?thesis by auto
  next
    case (Some obj)
    obtain block_json p where p: "brace_scan 0 obj = (block_json, p)" by fastforce
    obtain v b where b: "protocol_deserialize_block al block_json = (v, b)" by fastforce
    from Some p "2.prems"(1) have nul: "CHR 0x00 \<notin> set block_json" "CHR 0x00 \<notin> set p"
      using set_strchr [OF Some] set_brace_scan [OF p] by auto
    have shape: "\<forall>b \<in> set (acc @ [b]). block_shape b"
      using "2.prems"(2) protocol_deserialize_block_shape [OF nul(1), of al] b by auto
    show ?thesis
    proof (cases "al (length block_json + 1) \<and> v = 0")
      case True
      with "2.IH" [OF Some p [symmetric] _ b [symmetric]] "2.prems" Some p b nul shape
      show ?thesis by auto
    next
      case False
      with "2.prems" Some p b show ?thesis by (auto split: if_splits)
    qed
  qed
qed

lemma protocol_deserialize_chain_shape:
  assumes "CHR 0x00 \<notin> set json"
  shows "chain_shape (snd (protocol_deserialize_chain al json \<lparr>blocks = []\<rparr>))"
proof -
  have "(\<forall>b \<in> set bs. block_shape b) \<and> length bs \<le> nat len"
    if "json_find_key json k = Some p" "deserialize_blocks al (nat len) (tl p) [] = (r, bs)"
    for k p len r bs
  proof -
    have "set (tl p) \<subseteq> set p" by (cases p) auto
    then have "CHR 0x00 \<notin> set (tl p)" using set_json_find_key [OF that(1)] assms by auto
    from deserialize_blocks_shape [OF this _ that(2)] show ?thesis by simp
  qed
  then show ?thesis
    by (fastforce simp: protocol_deserialize_chain_def chain_shape_def chain_length_def
        split: option.splits prod.splits)
qed

lemma demo_wire [simp]:
  "tx_wire demo_payment" "tx_wire demo_coinbase" "block_wire demo_block" "block_wire demo_genesis"
  "chain_wire demo_chain"
proof -
  have zero: "plain zero_hash" by (simp add: zero_hash_def plain_def plain_char_def)
  show t: "tx_wire demo_payment" "tx_wire demo_coinbase"
    using zero
    by (simp_all add: tx_wire_def demo_payment_def demo_coinbase_def tx_ok_def cstr_fits_def tx_consts
        plain_char_def)
  have p: "plain (replicate 64 (CHR ''0''))" by (simp add: plain_def plain_char_def)
  have txs: "block_txs demo_block = [demo_coinbase, demo_payment]" "block_txs demo_genesis = []"
    by (simp_all add: block_txs_def demo_block_def demo_genesis_def genesis_template_def numeral_2_eq_2)
  show b: "block_wire demo_block" "block_wire demo_genesis"
    using t zero p by (auto simp: block_wire_def txs)
      (simp_all add: demo_block_def demo_genesis_def genesis_template_def block_zero_def block_consts)
  show "chain_wire demo_chain"
    using b by (auto simp: chain_wire_def demo_chain_def chain_length_def MAX_BLOCKS_def)
qed

section \<open>Properties\<close>

text \<open>
  Transaction round trip: a transaction whose fields fit their arrays and whose signature and
  hash hold no quote or backslash is serialised completely (escaping included, whatever the
  addresses hold) and read back field by field as it was.
\<close>

theorem tx_roundtrip:
  assumes "tx_ok t" "al 1024"
    "DQ \<notin> set (signature t) \<and> BS \<notin> set (signature t) \<and> DQ \<notin> set (tx_hash t) \<and> BS \<notin> set (tx_hash t)"
  shows "\<exists>json. protocol_serialize_tx al t = Some json \<and> length json < 1023
    \<and> protocol_deserialize_tx json = (0, t)"
  using assms protocol_serialize_tx_eq [of t al] length_tx_text [OF assms(1)]
    protocol_deserialize_tx_text [of t]
  by (auto simp: tx_sendable_def)

theorem tx_roundtrip_witness:
  "\<exists>json. protocol_serialize_tx alloc_ok (demo_payment\<lparr>receiver := [DQ, BS, CHR ''{'']\<rparr>) = Some json
    \<and> protocol_deserialize_tx json = (0, demo_payment\<lparr>receiver := [DQ, BS, CHR ''{'']\<rparr>)"
  using tx_roundtrip [of "demo_payment\<lparr>receiver := [DQ, BS, CHR ''{'']\<rparr>" alloc_ok]
  by (auto simp: demo_payment_def tx_ok_def cstr_fits_def tx_consts alloc_ok_def zero_hash_def)

text \<open>
  C26. Block round trip: a block within the array bound, with plain-text fields and nothing behind
  its last transaction, is serialised without truncation (the buffers of 1024, 8192 and 16384
  bytes are large enough) and \<open>protocol_deserialize_block\<close> rebuilds exactly the same block.
\<close>

theorem block_roundtrip:
  assumes "block_wire b" "\<forall>n. al n"
  shows "\<exists>json. protocol_serialize_block al b = Some (Some json) \<and> length json < 6000
    \<and> protocol_deserialize_block al json = (0, b)"
proof -
  have "block_ok b" using assms(1) by (simp add: block_wire_def)
  with assms show ?thesis
    using length_block_text [of b]
    by (auto simp: protocol_serialize_block_eq protocol_deserialize_block_text)
qed

theorem block_roundtrip_witness:
  "\<exists>json. protocol_serialize_block alloc_ok demo_block = Some (Some json)
    \<and> protocol_deserialize_block alloc_ok json = (0, demo_block)"
  using block_roundtrip [of demo_block alloc_ok] by (auto simp: alloc_ok_def)

text \<open>
  Chain round trip: a chain of such blocks is serialised without truncation and read back, into
  whatever chain structure it is read, as the same list of blocks.
\<close>

theorem chain_roundtrip:
  assumes "chain_wire c" "\<forall>n. al n"
  shows "\<exists>json. protocol_serialize_chain al c = Some (Some json)
    \<and> protocol_deserialize_chain al json c' = (0, c)"
  using assms
  by (auto simp: chain_wire_def block_wire_def protocol_serialize_chain_eq
      intro!: protocol_deserialize_chain_text)

theorem chain_roundtrip_witness:
  "\<exists>json. protocol_serialize_chain alloc_ok demo_chain = Some (Some json)
    \<and> protocol_deserialize_chain alloc_ok json \<lparr>blocks = []\<rparr> = (0, demo_chain)"
  using chain_roundtrip [of demo_chain alloc_ok] by (auto simp: alloc_ok_def)

text \<open>
  Message round trip: the message that announces a block is one line, and parsing that line
  gives back the message type and a payload from which the block is rebuilt.
\<close>

theorem block_message_roundtrip:
  assumes "block_wire b"
  shows "\<exists>json m. protocol_serialize_block alloc_ok b = Some (Some json)
    \<and> protocol_serialize_msg alloc_ok MSG_NEW_BLOCK (Some json) = Some (m @ [CHR 0x0A])
    \<and> CHR 0x0A \<notin> set m \<and> CHR 0x00 \<notin> set m
    \<and> protocol_parse_msg alloc_ok m = (Some MSG_NEW_BLOCK, Some json)
    \<and> protocol_deserialize_block alloc_ok json = (0, b)"
proof -
  have "protocol_serialize_block alloc_ok b = Some (Some (block_text b))"
    using assms by (intro protocol_serialize_block_eq) (simp_all add: block_wire_def alloc_ok_def)
  with block_codec.envelope_roundtrip [OF assms, of alloc_ok MSG_NEW_BLOCK] show ?thesis
    by (auto simp: alloc_ok_def)
qed

theorem block_message_roundtrip_witness:
  "\<exists>json m. protocol_serialize_msg alloc_ok MSG_NEW_BLOCK (Some json) = Some (m @ [CHR 0x0A])
    \<and> protocol_parse_msg alloc_ok m = (Some MSG_NEW_BLOCK, Some json)
    \<and> protocol_deserialize_block alloc_ok json = (0, demo_block)"
  using block_message_roundtrip [of demo_block] by auto

text \<open>
  C40. Parsing is safe on every text a peer can send: whatever \<open>protocol_deserialize_block\<close> returns,
  the block it has filled in has ten well-formed transaction slots and terminated strings within
  their arrays. The one field that stays unchecked is \<open>tx_count\<close>, of which only the range of \<open>int\<close>
  is known.
\<close>

theorem deserialize_block_shape:
  assumes "CHR 0x00 \<notin> set json" "protocol_deserialize_block al json = (r, b)"
  shows "length (transactions b) = MAX_TX_PER_BLOCK \<and> (\<forall>t \<in> set (transactions b). tx_ok t)
    \<and> cstr_fits HASH_HEX_LEN (prev_hash b) \<and> cstr_fits HASH_HEX_LEN (hash b)
    \<and> - (2 ^ 31) \<le> tx_count b \<and> tx_count b < 2 ^ 31 \<and> i64_ok (timestamp b)"
  using protocol_deserialize_block_shape [OF assms(1), of al] assms(2)
  by (simp add: block_shape_def)

theorem deserialize_block_shape_witness:
  "length (transactions (snd (protocol_deserialize_block alloc_ok ''{}''))) = MAX_TX_PER_BLOCK"
proof -
  obtain r b where "protocol_deserialize_block alloc_ok ''{}'' = (r, b)" by fastforce
  with deserialize_block_shape [OF _ this] show ?thesis by simp
qed

text \<open>
  A brace in an address breaks the block that carries it. The scanner that cuts a transaction
  out of a block counts braces inside strings, so for a block whose one transaction pays to the
  address \<open>}\<close> (which \<open>do_send\<close> lets the user type) the peer's parser returns success with a
  transaction that has lost its amount, fee, signature and hash. The block then hashes to something
  else than what was mined: its preimage is the bare header.
\<close>

theorem brace_address_breaks_block:
  assumes "block_ok b" "plain (prev_hash b)" "plain (hash b)" "tx_count b = 1"
    "sender (transactions b ! 0) = ''aa''" "receiver (transactions b ! 0) = ''}''"
  shows "\<exists>json b'. protocol_serialize_block alloc_ok b = Some (Some json)
    \<and> protocol_deserialize_block alloc_ok json = (0, b')
    \<and> transactions b' ! 0 = tx_zero\<lparr>sender := ''aa'', receiver := ''}''\<rparr>
    \<and> block_preimage b' = block_header b"
proof -
  let ?t = "transactions b ! 0" and ?t' = "tx_zero\<lparr>sender := ''aa'', receiver := ''}''\<rparr>"
  let ?cut = "''\"sender\":\"aa\",\"receiver\":\"''"
  define r where "r = drop 28 (tx_text ?t) @ '']''"
  have head: "block_head_ok b" using assms(1-3) by (simp add: block_head_ok_def block_okD)
  have len: "length (transactions b) = 10" by (rule block_shapeD(2) [OF block_okD(1) [OF assms(1)]])
  then have "block_txs b = [?t]"
    using assms(4) by (cases "transactions b") (simp_all add: block_txs_def)
  moreover have cut: "tx_text ?t @ '']'' = CHR ''{'' # ?cut @ CHR ''}'' # r"
    using assms(5,6) by (simp add: r_def tx_text_def tx_format_def)
  ultimately have "block_text b = block_format b (CHR ''['' # CHR ''{'' # ?cut @ CHR ''}'' # r)"
    by (simp add: block_text_def txs_text_def)
  moreover have "brace_scan 0 (CHR ''{'' # ?cut @ CHR ''}'' # r @ ''}'') = (CHR ''{'' # ?cut @ ''}'', r @ ''}'')"
    by (intro brace_scan_object braces_ok_free) simp
  moreover have "protocol_deserialize_tx (CHR ''{'' # ?cut @ ''}'') = (- 1, ?t')"
    by (simp add: protocol_deserialize_tx_def json_get_string_def json_get_uint64_def
        json_find_key_def snprintf_def tx_zero_def tx_consts) (simp add: eval_nat_numeral)
  ultimately have "protocol_deserialize_block alloc_ok (block_text b)
      = (0, b\<lparr>transactions := ?t' # replicate 9 tx_zero\<rparr>)"
    using protocol_deserialize_block_format [OF head, of alloc_ok] assms(4)
    by (simp add: alloc_ok_def numeral_eq_Suc)
  moreover have "block_preimage (b\<lparr>transactions := ?t' # replicate 9 tx_zero\<rparr>) = block_header b"
    using assms(4) by (simp add: block_preimage_def block_header_def tx_zero_def)
  ultimately show ?thesis
    using protocol_serialize_block_eq [OF assms(1), of alloc_ok] by (simp add: alloc_ok_def)
qed

theorem brace_address_breaks_block_witness:
  "\<exists>json b'. protocol_serialize_block alloc_ok (demo_block\<lparr>tx_count := 1,
        transactions := (demo_payment\<lparr>receiver := ''}''\<rparr>) # replicate 9 tx_zero\<rparr>) = Some (Some json)
    \<and> protocol_deserialize_block alloc_ok json = (0, b') \<and> amount (transactions b' ! 0) = 0"
proof -
  let ?b = "demo_block\<lparr>tx_count := 1,
        transactions := (demo_payment\<lparr>receiver := ''}''\<rparr>) # replicate 9 tx_zero\<rparr>"
  have "tx_ok (demo_payment\<lparr>receiver := ''}''\<rparr>)"
    using demo_wire(1) by (simp add: tx_wire_def tx_ok_def cstr_fits_def tx_consts)
  then have "block_ok ?b"
    using demo_block_facts(2) by (simp add: block_ok_def block_shape_def block_consts)
  moreover have "plain zero_hash" by (simp add: zero_hash_def plain_def plain_char_def)
  ultimately show ?thesis
    using brace_address_breaks_block [of ?b] by (fastforce simp: demo_payment_def tx_zero_def)
qed

end
