(* ===== verification/Net.thy ===== *)
theory Net
  imports Protocol
begin

text \<open>
  The network layer (\<open>include/net.h\<close>, \<open>src/net.c\<close>): line framing on a socket, the message handler, the
  peer table, connecting, and broadcasting.

  The operating system is a parameter, the record \<open>env\<close>: the outcome of every allocation and of every
  \<open>send\<close>. What arrives on a socket is the list of its bytes; the end of the list is the end of the
  connection. What the node sends is recorded, in order, in the field \<open>outbox\<close> of its state, and the
  descriptors it closes in \<open>closed\<close>.

  The C node holds pointers to callbacks, which act on the node and on data of \<open>main.c\<close>. Here that
  data is the field \<open>app\<close>, of arbitrary type, and the callbacks are a separate record.
\<close>

section \<open>Data\<close>

definition MAX_PEERS :: nat where "MAX_PEERS = 16"
definition MAX_MSG_SIZE :: nat where "MAX_MSG_SIZE = 1024 * 1024"
definition DEFAULT_PORT :: u16 where "DEFAULT_PORT = 9333"

record peer_t =
  fd :: int
  host :: string
  port :: u16
  active :: bool

text \<open>\<open>peers\<close> is the used part of the C array: \<open>peer_count\<close> is its length.\<close>

record 'a node_t =
  node_port :: u16
  server_fd :: int
  peers :: "peer_t list"
  node_chain :: blockchain_t
  running :: bool
  app :: 'a
  outbox :: "(int \<times> string) list"
  closed :: "int list"

record 'a callbacks =
  on_new_block :: "('a node_t \<Rightarrow> block_t \<Rightarrow> 'a node_t) option"
  on_new_tx :: "('a node_t \<Rightarrow> tx_t \<Rightarrow> 'a node_t) option"
  on_peer_connected :: "('a node_t \<Rightarrow> int \<Rightarrow> 'a node_t) option"

text \<open>
  \<open>sends fd k i\<close> is the result of the \<open>i\<close>-th \<open>send\<close> call of the \<open>k\<close>-th message, sent on \<open>fd\<close>;
  \<open>calloc_chain\<close> says whether a second chain can be allocated.
\<close>

record env =
  sha :: digest_fn
  malloc :: allocator
  calloc_chain :: bool
  sends :: "int \<Rightarrow> nat \<Rightarrow> nat \<Rightarrow> int"

section \<open>Framing\<close>

text \<open>
  The receiving loop: \<open>buf\<close> holds the \<open>tot\<close> (\<open>total\<close>) bytes read so far. The result is the content of the
  buffer, \<open>None\<close> when \<open>recv\<close> fails first, and what is left on the socket.
\<close>

fun read_loop :: "nat \<Rightarrow> string \<Rightarrow> string \<Rightarrow> string option \<times> string" where
  "read_loop tot buf [] = (if tot < MAX_MSG_SIZE - 1 then (None, []) else (Some buf, []))"
| "read_loop tot buf (c # cs) =
     (if tot < MAX_MSG_SIZE - 1
      then (if c = CHR 0x0A then (Some buf, cs) else read_loop (tot + 1) (buf @ [c]) cs)
      else (Some buf, c # cs))"

definition read_message :: "allocator \<Rightarrow> string \<Rightarrow> string option \<times> string" where
  "read_message al s =
     (if \<not> al MAX_MSG_SIZE then (None, s)
      else case read_loop 0 [] s of (r, rest) \<Rightarrow> (map_option c_string r, rest))"

text \<open>The sending loop: the return code and the bytes that were accepted by the socket.\<close>

function send_loop :: "(nat \<Rightarrow> int) \<Rightarrow> nat \<Rightarrow> string \<Rightarrow> int \<times> string" where
  "send_loop rs i msg =
     (if msg = [] then (0, [])
      else let n = rs i in
        if n \<le> 0 then (- 1, [])
        else case send_loop rs (Suc i) (drop (nat n) msg) of (r, out) \<Rightarrow> (r, take (nat n) msg @ out))"
  by pat_completeness auto
termination
  by (relation "measure (\<lambda>(rs, i, msg). length msg)") auto

declare send_loop.simps [simp del]

definition send_message :: "env \<Rightarrow> 'a node_t \<Rightarrow> int \<Rightarrow> string \<Rightarrow> int \<times> 'a node_t" where
  "send_message e n peer_fd msg =
     (case send_loop (sends e peer_fd (length (outbox n))) 0 msg of
        (r, out) \<Rightarrow> (r, n\<lparr>outbox := outbox n @ [(peer_fd, out)]\<rparr>))"

section \<open>Sending\<close>

text \<open>The loop over the peers; no caller looks at the result of \<open>send_message\<close>.\<close>

fun send_to_peers :: "env \<Rightarrow> (peer_t \<Rightarrow> bool) \<Rightarrow> string \<Rightarrow> peer_t list \<Rightarrow> 'a node_t \<Rightarrow> 'a node_t" where
  "send_to_peers e sel msg [] n = n"
| "send_to_peers e sel msg (p # ps) n =
     send_to_peers e sel msg ps (if sel p then snd (send_message e n (fd p) msg) else n)"

definition broadcast_block_except :: "env \<Rightarrow> 'a node_t \<Rightarrow> block_t \<Rightarrow> int \<Rightarrow> 'a node_t option" where
  "broadcast_block_except e n b exclude_fd = do {
     block_json \<leftarrow> protocol_serialize_block (malloc e) b;
     case block_json of None \<Rightarrow> Some n | Some json \<Rightarrow>
     (case protocol_serialize_msg (malloc e) MSG_NEW_BLOCK (Some json) of None \<Rightarrow> Some n | Some msg \<Rightarrow>
        Some (send_to_peers e (\<lambda>p. active p \<and> fd p \<noteq> exclude_fd) msg (peers n) n))
   }"

definition node_broadcast_block :: "env \<Rightarrow> 'a node_t \<Rightarrow> block_t \<Rightarrow> 'a node_t option" where
  "node_broadcast_block e n b = broadcast_block_except e n b (- 1)"

definition node_broadcast_tx :: "env \<Rightarrow> 'a node_t \<Rightarrow> tx_t \<Rightarrow> 'a node_t" where
  "node_broadcast_tx e n t =
     (case protocol_serialize_tx (malloc e) t of None \<Rightarrow> n | Some tx_json \<Rightarrow>
      (case protocol_serialize_msg (malloc e) MSG_NEW_TX (Some tx_json) of None \<Rightarrow> n | Some msg \<Rightarrow>
         send_to_peers e active msg (peers n) n))"

definition node_request_chain :: "env \<Rightarrow> 'a node_t \<Rightarrow> int \<Rightarrow> 'a node_t" where
  "node_request_chain e n peer_idx =
     (if peer_idx < 0 \<or> int (length (peers n)) \<le> peer_idx then n
      else let p = peers n ! nat peer_idx in
        if \<not> active p then n
        else case protocol_serialize_msg (malloc e) MSG_REQUEST_CHAIN None of None \<Rightarrow> n | Some msg \<Rightarrow>
          snd (send_message e n (fd p) msg))"

definition node_send_tx :: "env \<Rightarrow> 'a node_t \<Rightarrow> int \<Rightarrow> tx_t \<Rightarrow> 'a node_t" where
  "node_send_tx e n peer_fd t =
     (case protocol_serialize_tx (malloc e) t of None \<Rightarrow> n | Some tx_json \<Rightarrow>
      (case protocol_serialize_msg (malloc e) MSG_NEW_TX (Some tx_json) of None \<Rightarrow> n | Some msg \<Rightarrow>
         snd (send_message e n peer_fd msg)))"

section \<open>Receiving\<close>

text \<open>\<open>handle_message\<close>, by message type; \<open>None\<close> is undefined behaviour.\<close>

definition handle_new_block :: "env \<Rightarrow> 'a callbacks \<Rightarrow> 'a node_t \<Rightarrow> int \<Rightarrow> string \<Rightarrow> 'a node_t option" where
  "handle_new_block e cb n peer_fd payload =
     (case protocol_deserialize_block (malloc e) payload of (r, block) \<Rightarrow>
        if r \<noteq> 0 then Some n
        else do {
          (v, c) \<leftarrow> chain_add_block (sha e) (node_chain n) block;
          let n = n\<lparr>node_chain := c\<rparr>;
          if v \<noteq> 0 then Some n
          else let n = (case on_new_block cb of None \<Rightarrow> n | Some f \<Rightarrow> f n block)
               in broadcast_block_except e n block peer_fd
        })"

definition handle_new_tx :: "'a callbacks \<Rightarrow> 'a node_t \<Rightarrow> string \<Rightarrow> 'a node_t" where
  "handle_new_tx cb n payload =
     (case protocol_deserialize_tx payload of (r, t) \<Rightarrow>
        if r \<noteq> 0 then n
        else (case on_new_tx cb of None \<Rightarrow> n | Some f \<Rightarrow> f n t))"

definition handle_request_chain :: "env \<Rightarrow> 'a node_t \<Rightarrow> int \<Rightarrow> 'a node_t option" where
  "handle_request_chain e n peer_fd = do {
     chain_json \<leftarrow> protocol_serialize_chain (malloc e) (node_chain n);
     case chain_json of None \<Rightarrow> Some n | Some json \<Rightarrow>
     (case protocol_serialize_msg (malloc e) MSG_CHAIN_RESPONSE (Some json) of None \<Rightarrow> Some n
      | Some msg \<Rightarrow> Some (snd (send_message e n peer_fd msg)))
   }"

definition handle_chain_response :: "env \<Rightarrow> 'a node_t \<Rightarrow> string \<Rightarrow> 'a node_t option" where
  "handle_chain_response e n payload =
     (if \<not> calloc_chain e then Some n
      else case protocol_deserialize_chain (malloc e) payload \<lparr>blocks = []\<rparr> of (r, other) \<Rightarrow>
        if r \<noteq> 0 then Some n
        else do {
          (_, c) \<leftarrow> chain_replace (sha e) (node_chain n) other;
          Some (n\<lparr>node_chain := c\<rparr>)
        })"

definition handle_ping :: "env \<Rightarrow> 'a node_t \<Rightarrow> int \<Rightarrow> 'a node_t" where
  "handle_ping e n peer_fd =
     (case protocol_serialize_msg (malloc e) MSG_PONG None of None \<Rightarrow> n
      | Some msg \<Rightarrow> snd (send_message e n peer_fd msg))"

definition handle_message :: "env \<Rightarrow> 'a callbacks \<Rightarrow> 'a node_t \<Rightarrow> int \<Rightarrow> string \<Rightarrow> 'a node_t option" where
  "handle_message e cb n peer_fd raw =
     (case protocol_parse_msg (malloc e) raw of
        (Some MSG_NEW_BLOCK, Some payload) \<Rightarrow> handle_new_block e cb n peer_fd payload
      | (Some MSG_NEW_TX, Some payload) \<Rightarrow> Some (handle_new_tx cb n payload)
      | (Some MSG_REQUEST_CHAIN, _) \<Rightarrow> handle_request_chain e n peer_fd
      | (Some MSG_CHAIN_RESPONSE, Some payload) \<Rightarrow> handle_chain_response e n payload
      | (Some MSG_PING, _) \<Rightarrow> Some (handle_ping e n peer_fd)
      | _ \<Rightarrow> Some n)"

text \<open>
  One turn of the loop of \<open>peer_handler\<close> for the peer with index \<open>idx\<close>, on what is left to read from
  its socket: the new state, what is left then, and whether the loop goes on.
\<close>

definition peer_step :: "env \<Rightarrow> 'a callbacks \<Rightarrow> nat \<Rightarrow> 'a node_t \<Rightarrow> string \<Rightarrow> ('a node_t \<times> string \<times> bool) option" where
  "peer_step e cb idx n s = do {
     p \<leftarrow> arr_get (peers n) idx;
     if \<not> (running n \<and> active p) then Some (n, s, False)
     else case read_message (malloc e) s of
       (None, rest) \<Rightarrow>
         Some (n\<lparr>peers := (peers n)[idx := p\<lparr>active := False\<rparr>], closed := closed n @ [fd p]\<rparr>, rest, False)
     | (Some msg, rest) \<Rightarrow> do {
         n \<leftarrow> handle_message e cb n (fd p) msg;
         Some (n, rest, True)
       }
   }"

section \<open>Peers\<close>

text \<open>\<open>add_peer\<close>: the thread argument is allocated without a check, so a failure there is undefined.\<close>

definition add_peer :: "env \<Rightarrow> 'a callbacks \<Rightarrow> 'a node_t \<Rightarrow> int \<Rightarrow> string \<Rightarrow> u16 \<Rightarrow> (int \<times> 'a node_t) option" where
  "add_peer e cb n peer_fd peer_host peer_port =
     (if MAX_PEERS \<le> length (peers n) then Some (- 1, n\<lparr>closed := closed n @ [peer_fd]\<rparr>)
      else let idx = length (peers n);
               p = \<lparr>fd = peer_fd, host = strncpy_to peer_host 255, port = peer_port, active = True\<rparr>;
               n = n\<lparr>peers := peers n @ [p]\<rparr>
        in if \<not> malloc e 16 then None
           else let n = node_request_chain e n (int idx)
             in Some (0, case on_peer_connected cb of None \<Rightarrow> n | Some f \<Rightarrow> f n peer_fd))"

text \<open>What \<open>socket\<close>, \<open>bind\<close> and \<open>listen\<close> return, and what \<open>getaddrinfo\<close>, \<open>socket\<close> and \<open>connect\<close> do.\<close>

record listen_result =
  listen_fd :: int
  bind_rc :: int
  listen_rc :: int

record dial_result =
  resolve_rc :: int
  dial_fd :: int
  connect_rc :: int

definition node_init :: "listen_result \<Rightarrow> 'a \<Rightarrow> u16 \<Rightarrow> blockchain_t \<Rightarrow> int \<times> 'a node_t" where
  "node_init lr a node_p c =
     (let n = \<lparr>node_port = node_p, server_fd = listen_fd lr, peers = [], node_chain = c, running = True,
               app = a, outbox = [], closed = []\<rparr> in
      if server_fd n < 0 then (- 1, n)
      else if bind_rc lr < 0 then (- 1, n\<lparr>closed := [server_fd n]\<rparr>)
      else if listen_rc lr < 0 then (- 1, n\<lparr>closed := [server_fd n]\<rparr>)
      else (0, n))"

definition node_stop :: "'a node_t \<Rightarrow> 'a node_t" where
  "node_stop n =
     (let n = n\<lparr>running := False\<rparr>;
          n = (if 0 \<le> server_fd n then n\<lparr>closed := closed n @ [server_fd n]\<rparr> else n)
      in n\<lparr>peers := map (\<lambda>p. p\<lparr>active := False\<rparr>) (peers n),
           closed := closed n @ map fd (filter active (peers n))\<rparr>)"

definition node_connect_peer :: "env \<Rightarrow> 'a callbacks \<Rightarrow> dial_result \<Rightarrow> 'a node_t \<Rightarrow> string \<Rightarrow> u16 \<Rightarrow> (int \<times> 'a node_t) option" where
  "node_connect_peer e cb dr n peer_host peer_port =
     (if resolve_rc dr \<noteq> 0 then Some (- 1, n)
      else if dial_fd dr < 0 then Some (- 1, n)
      else if connect_rc dr < 0 then Some (- 1, n\<lparr>closed := closed n @ [dial_fd dr]\<rparr>)
      else do {
        (_, n) \<leftarrow> add_peer e cb n (dial_fd dr) peer_host peer_port;
        Some (0, node_request_chain e n (int (length (peers n)) - 1))
      })"

section \<open>Facts on framing\<close>

lemma read_loop_line:
  "CHR 0x0A \<notin> set m \<Longrightarrow> tot + length m < MAX_MSG_SIZE - 1 \<Longrightarrow>
    read_loop tot buf (m @ CHR 0x0A # rest) = (Some (buf @ m), rest)"
  by (induction m arbitrary: tot buf) auto

lemma read_loop_full:
  "CHR 0x0A \<notin> set m \<Longrightarrow> tot + length m = MAX_MSG_SIZE - 1 \<Longrightarrow>
    read_loop tot buf (m @ rest) = (Some (buf @ m), rest)"
  by (induction m arbitrary: tot buf; cases rest) auto

lemma c_string_id: "CHR 0x00 \<notin> set m \<Longrightarrow> c_string m = m"
  by (auto simp: c_string_def takeWhile_eq_all_conv)

lemma c_string_no_NUL: "CHR 0x00 \<notin> set (c_string m)"
  by (auto simp: c_string_def dest: set_takeWhileD)

lemma read_message_line:
  assumes "CHR 0x0A \<notin> set m" "CHR 0x00 \<notin> set m" "length m < MAX_MSG_SIZE - 1" "al MAX_MSG_SIZE"
  shows "read_message al (m @ CHR 0x0A # rest) = (Some m, rest)"
  using assms by (simp add: read_message_def read_loop_line c_string_id)

lemma read_message_no_NUL: "read_message al s = (Some m, rest) \<Longrightarrow> CHR 0x00 \<notin> set m"
  by (auto simp: read_message_def c_string_no_NUL split: if_splits prod.splits)

lemma read_loop_consumes:
  "read_loop tot buf s = (Some m, rest) \<Longrightarrow> tot < MAX_MSG_SIZE - 1 \<Longrightarrow> length rest < length s"
proof (induction tot buf s rule: read_loop.induct)
  case (2 tot buf c cs)
  show ?case
  proof (cases "c = CHR 0x0A \<or> \<not> tot + 1 < MAX_MSG_SIZE - 1")
    case True
    with 2 show ?thesis by (cases cs) (auto split: if_splits)
  next
    case False
    with 2 show ?thesis by (auto split: if_splits)
  qed
qed (simp split: if_splits)

lemma MAX_MSG_SIZE_pos: "0 < MAX_MSG_SIZE - 1"
  by (simp add: MAX_MSG_SIZE_def)

lemma read_message_consumes:
  "read_message al s = (Some m, rest) \<Longrightarrow> length rest < length s"
  using read_loop_consumes [OF _ MAX_MSG_SIZE_pos]
  by (auto simp: read_message_def split: if_splits prod.splits)

text \<open>Reading a number of messages one after the other from the same socket.\<close>

fun read_messages :: "allocator \<Rightarrow> nat \<Rightarrow> string \<Rightarrow> string list \<times> string" where
  "read_messages al 0 s = ([], s)"
| "read_messages al (Suc k) s =
     (case read_message al s of
        (None, rest) \<Rightarrow> ([], rest)
      | (Some m, rest) \<Rightarrow> (case read_messages al k rest of (ms, r) \<Rightarrow> (m # ms, r)))"

lemma read_messages_lines:
  "\<forall>m \<in> set ms. CHR 0x0A \<notin> set m \<and> CHR 0x00 \<notin> set m \<and> length m < MAX_MSG_SIZE - 1 \<Longrightarrow>
    al MAX_MSG_SIZE \<Longrightarrow>
    read_messages al (length ms) (concat (map (\<lambda>m. m @ [CHR 0x0A]) ms) @ rest) = (ms, rest)"
  by (induction ms) (simp_all add: read_message_line)

text \<open>
  A codec whose texts are also short enough for the receiving buffer: its messages survive the
  socket.
\<close>

locale stream_codec = wire_codec +
  assumes enc_small: "good x \<Longrightarrow> length (enc x) + 22 < MAX_MSG_SIZE"
begin

lemma frame_line:
  assumes "good x"
  shows "CHR 0x0A \<notin> set (msg_text type (enc x)) \<and> CHR 0x00 \<notin> set (msg_text type (enc x))
    \<and> length (msg_text type (enc x)) < MAX_MSG_SIZE - 1"
  using enc_small [OF assms] msg_text_one_line [OF enc_object [OF assms], of type]
  by (simp add: length_msg_text)

lemma read_frame:
  assumes "good x" "al MAX_MSG_SIZE"
  shows "read_message al (msg_text type (enc x) @ CHR 0x0A # rest) = (Some (msg_text type (enc x)), rest)"
  using frame_line [OF assms(1), of type] assms(2) by (intro read_message_line) auto

lemma read_frames:
  assumes "\<forall>x \<in> set xs. good x" "al MAX_MSG_SIZE"
  shows "read_messages al (length xs)
      (concat (map (\<lambda>x. msg_text type (enc x) @ [CHR 0x0A]) xs) @ rest)
    = (map (\<lambda>x. msg_text type (enc x)) xs, rest)"
  using read_messages_lines [of "map (\<lambda>x. msg_text type (enc x)) xs" al rest] assms frame_line
  by (simp add: comp_def)

end

interpretation tx_stream: stream_codec tx_text protocol_deserialize_tx tx_wire
proof unfold_locales
  show "length (tx_text t) + 22 < MAX_MSG_SIZE" if "tx_wire t" for t
    using length_tx_text [of t] that by (simp add: tx_wire_def MAX_MSG_SIZE_def)
qed

interpretation block_stream: stream_codec block_text "protocol_deserialize_block alloc_ok" block_wire
proof unfold_locales
  show "length (block_text b) + 22 < MAX_MSG_SIZE" if "block_wire b" for b
    using length_block_text [of b] that by (simp add: block_wire_def MAX_MSG_SIZE_def)
qed

text \<open>
  A chain survives the socket when it is short: 177 blocks always fit in the buffer of one
  megabyte, although the chain itself may hold ten thousand.
\<close>

definition chain_sendable :: "blockchain_t \<Rightarrow> bool" where
  "chain_sendable c \<longleftrightarrow> chain_wire c \<and> chain_length c \<le> 177"

interpretation chain_stream: stream_codec chain_text
    "\<lambda>json. protocol_deserialize_chain alloc_ok json \<lparr>blocks = []\<rparr>" chain_sendable
proof unfold_locales
  fix c assume c: "chain_sendable c"
  then have wire: "chain_wire c" by (simp add: chain_sendable_def)
  then show "protocol_deserialize_chain alloc_ok (chain_text c) \<lparr>blocks = []\<rparr> = (0, c)"
    "wire_object (chain_text c)"
    by (simp_all add: protocol_deserialize_chain_text chain_wire_text alloc_ok_def)
  have "length (chain_text c) \<le> 5915 * chain_length c + 43"
    using wire by (intro length_chain_text) (auto simp: chain_wire_def block_wire_def)
  with c show "length (chain_text c) + 22 < MAX_MSG_SIZE"
    by (simp add: chain_sendable_def MAX_MSG_SIZE_def)
qed

section \<open>Facts on sending\<close>

text \<open>An environment in which allocations succeed and sockets accept data.\<close>

definition reliable :: "env \<Rightarrow> bool" where
  "reliable e \<longleftrightarrow> malloc e = alloc_ok \<and> calloc_chain e \<and> (\<forall>s k i. 0 < sends e s k i)"

lemma send_loop_cases:
  "send_loop rs i msg = (r, out) \<Longrightarrow>
    (r = 0 \<and> out = msg) \<or> (r = - 1 \<and> (\<exists>rest. rest \<noteq> [] \<and> msg = out @ rest))"
proof (induction rs i msg arbitrary: r out rule: send_loop.induct)
  case (1 rs i msg)
  show ?case
  proof (cases "msg = [] \<or> rs i \<le> 0")
    case True
    with "1.prems" show ?thesis by (subst (asm) send_loop.simps) (auto split: if_splits)
  next
    case False
    obtain r' out' where rec: "send_loop rs (Suc i) (drop (nat (rs i)) msg) = (r', out')" by fastforce
    with False "1.prems" have "r = r'" "out = take (nat (rs i)) msg @ out'"
      by (simp_all add: send_loop.simps [of rs i msg])
    with "1.IH" [of "rs i", OF _ refl _ rec] False show ?thesis
      by (metis append_assoc append_take_drop_id linorder_not_le)
  qed
qed

lemma send_loop_all: "\<forall>i. 0 < rs i \<Longrightarrow> send_loop rs i msg = (0, msg)"
proof (induction rs i msg rule: send_loop.induct)
  case (1 rs i msg)
  show ?case
  proof (cases "msg = []")
    case True
    then show ?thesis by (simp add: send_loop.simps)
  next
    case False
    have "0 < rs i" using "1.prems" by blast
    with 1 False show ?thesis by (simp add: send_loop.simps [of rs i msg] not_le Let_def)
  qed
qed

text \<open>\<open>only_sends n fds n'\<close>: the step from \<open>n\<close> to \<open>n'\<close> does nothing but send, to \<open>fds\<close> in this order.\<close>

definition only_sends :: "'a node_t \<Rightarrow> int list \<Rightarrow> 'a node_t \<Rightarrow> bool" where
  "only_sends n fds n' \<longleftrightarrow> (\<exists>out. n' = n\<lparr>outbox := outbox n @ out\<rparr> \<and> map fst out = fds)"

lemma only_sends_refl [simp]: "only_sends n [] n"
  by (simp add: only_sends_def)

lemma only_sends_trans:
  assumes "only_sends n a n'" "only_sends n' b n''"
  shows "only_sends n (a @ b) n''"
proof -
  obtain o1 where 1: "n' = n\<lparr>outbox := outbox n @ o1\<rparr>" "map fst o1 = a"
    using assms(1) by (auto simp: only_sends_def)
  obtain o2 where 2: "n'' = n'\<lparr>outbox := outbox n' @ o2\<rparr>" "map fst o2 = b"
    using assms(2) by (auto simp: only_sends_def)
  from 1 2 show ?thesis unfolding only_sends_def by (intro exI [of _ "o1 @ o2"]) simp
qed

lemma only_sends_message: "only_sends n [s] (snd (send_message e n s msg))"
  by (auto simp: only_sends_def send_message_def split: prod.split)

lemma only_sends_peers: "only_sends n (map fd (filter sel ps)) (send_to_peers e sel msg ps n)"
proof (induction ps arbitrary: n)
  case (Cons p ps)
  show ?case
  proof (cases "sel p")
    case True
    then show ?thesis
      using only_sends_trans [OF only_sends_message Cons.IH] by simp
  next
    case False
    then show ?thesis using Cons.IH by simp
  qed
qed simp

lemma only_sendsD [wf_facts]:
  assumes "only_sends n fds n'"
  shows "node_chain n' = node_chain n" "peers n' = peers n" "running n' = running n"
    "app n' = app n" "closed n' = closed n" "server_fd n' = server_fd n" "\<exists>out. outbox n' = outbox n @ out \<and> map fst out = fds"
  using assms by (auto simp: only_sends_def)

lemma send_message_reliable:
  "reliable e \<Longrightarrow> send_message e n s msg = (0, n\<lparr>outbox := outbox n @ [(s, msg)]\<rparr>)"
  by (simp add: send_message_def send_loop_all reliable_def)

lemma send_to_peers_reliable:
  "reliable e \<Longrightarrow> send_to_peers e sel msg ps n =
    n\<lparr>outbox := outbox n @ map (\<lambda>p. (fd p, msg)) (filter sel ps)\<rparr>"
  by (induction ps arbitrary: n) (simp_all add: send_message_reliable)

lemma only_sends_broadcast:
  assumes "broadcast_block_except e n b x = Some n'"
  shows "n' = n \<or> only_sends n (map fd (filter (\<lambda>p. active p \<and> fd p \<noteq> x) (peers n))) n'"
proof -
  have "n' = n \<or> (\<exists>msg. n' = send_to_peers e (\<lambda>p. active p \<and> fd p \<noteq> x) msg (peers n) n)"
    using assms by (auto simp: broadcast_block_except_def split: option.splits)
  then show ?thesis using only_sends_peers by blast
qed

lemma broadcast_excludes:
  assumes "broadcast_block_except e n b x = Some n'"
  shows "\<exists>fds. only_sends n fds n' \<and> x \<notin> set fds"
  using only_sends_broadcast [OF assms] only_sends_refl [of n]
  by (elim disjE) (auto intro: exI [of _ "[]"])

lemma broadcast_block_eq:
  assumes "reliable e" "block_ok b"
  shows "broadcast_block_except e n b x =
    Some (n\<lparr>outbox := outbox n @ map (\<lambda>p. (fd p, msg_text MSG_NEW_BLOCK (block_text b) @ [CHR 0x0A]))
      (filter (\<lambda>p. active p \<and> fd p \<noteq> x) (peers n))\<rparr>)"
proof -
  have "\<forall>k. malloc e k" using assms(1) by (simp add: reliable_def alloc_ok_def)
  then show ?thesis
    using protocol_serialize_block_eq [OF assms(2)]
    by (simp add: broadcast_block_except_def protocol_serialize_msg_eq send_to_peers_reliable
        assms(1))
qed

lemma only_sends_request_chain: "\<exists>fds. only_sends n fds (node_request_chain e n i)"
proof -
  have "node_request_chain e n i = n \<or>
      (\<exists>s msg. node_request_chain e n i = snd (send_message e n s msg))"
    by (auto simp: node_request_chain_def Let_def split: option.split)
  then show ?thesis by (metis only_sends_refl only_sends_message)
qed

lemma only_sends_send_tx: "\<exists>fds. only_sends n fds (node_send_tx e n s t)"
proof -
  have "node_send_tx e n s t = n \<or> (\<exists>msg. node_send_tx e n s t = snd (send_message e n s msg))"
    by (auto simp: node_send_tx_def split: option.split)
  then show ?thesis by (metis only_sends_refl only_sends_message)
qed

lemma only_sends_broadcast_tx: "\<exists>fds. only_sends n fds (node_broadcast_tx e n t)"
proof -
  have "node_broadcast_tx e n t = n \<or>
      (\<exists>msg. node_broadcast_tx e n t = send_to_peers e active msg (peers n) n)"
    by (auto simp: node_broadcast_tx_def split: option.split)
  then show ?thesis by (metis only_sends_refl only_sends_peers)
qed

lemma only_sends_ping: "\<exists>fds. only_sends n fds (handle_ping e n s)"
proof -
  have "handle_ping e n s = n \<or> (\<exists>msg. handle_ping e n s = snd (send_message e n s msg))"
    by (auto simp: handle_ping_def split: option.split)
  then show ?thesis by (metis only_sends_refl only_sends_message)
qed

lemma only_sends_chain:
  assumes "handle_request_chain e n s = Some n'"
  shows "\<exists>fds. only_sends n fds n'"
proof -
  have "n' = n \<or> (\<exists>msg. n' = snd (send_message e n s msg))"
    using assms by (auto simp: handle_request_chain_def split: option.splits)
  then show ?thesis by (metis only_sends_refl only_sends_message)
qed

section \<open>The interface of the callbacks\<close>

text \<open>
  What the network layer needs of the callbacks of \<open>main.c\<close>: they leave the chain, the peers, the
  sockets and the running flag alone, and keep a property of their own data, \<open>app_inv\<close>, on which the parsed
  transactions are well formed. From this the handlers keep \<open>node_inv\<close>.
\<close>

definition same_node :: "'a node_t \<Rightarrow> 'a node_t \<Rightarrow> bool" where
  "same_node n n' \<longleftrightarrow> node_chain n' = node_chain n \<and> peers n' = peers n \<and> running n' = running n
     \<and> closed n' = closed n \<and> server_fd n' = server_fd n"

lemma same_node_refl [simp]: "same_node n n"
  by (simp add: same_node_def)

text \<open>The part of this that the handling of a message keeps: the table of peers and the sockets.\<close>

definition same_sockets :: "'a node_t \<Rightarrow> 'a node_t \<Rightarrow> bool" where
  "same_sockets n n' \<longleftrightarrow> peers n' = peers n \<and> running n' = running n \<and> closed n' = closed n
     \<and> server_fd n' = server_fd n"

lemma same_sockets_refl [simp]: "same_sockets n n"
  by (simp add: same_sockets_def)

lemma same_sockets_chain [simp]: "same_sockets n (n\<lparr>node_chain := c\<rparr>)"
  by (simp add: same_sockets_def)

lemma same_node_sockets: "same_node n n' \<Longrightarrow> same_sockets n n'"
  by (simp add: same_node_def same_sockets_def)

lemma only_sends_same: "only_sends n fds n' \<Longrightarrow> same_node n n' \<and> app n' = app n"
  by (simp add: same_node_def only_sendsD)

definition node_inv :: "env \<Rightarrow> ('a \<Rightarrow> bool) \<Rightarrow> 'a node_t \<Rightarrow> bool" where
  "node_inv e app_inv n \<longleftrightarrow>
     chain_inv (sha e) (node_chain n) \<and> length (peers n) \<le> MAX_PEERS \<and> app_inv (app n)"

lemma node_inv_same:
  "same_node n n' \<Longrightarrow> node_inv e P n \<Longrightarrow> P (app n') \<Longrightarrow> node_inv e P n'"
  by (simp add: node_inv_def same_node_def)

lemma node_inv_sends: "only_sends n fds n' \<Longrightarrow> node_inv e P n' \<longleftrightarrow> node_inv e P n"
  by (simp add: node_inv_def only_sendsD)

locale node_callbacks =
  fixes cb :: "'a callbacks" and app_inv :: "'a \<Rightarrow> bool"
  assumes new_block_keeps: "on_new_block cb = Some f \<Longrightarrow> app_inv (app n) \<Longrightarrow>
      same_node n (f n b) \<and> app_inv (app (f n b))"
    and new_tx_keeps: "on_new_tx cb = Some g \<Longrightarrow> app_inv (app n) \<Longrightarrow> tx_ok t \<Longrightarrow>
      same_node n (g n t) \<and> app_inv (app (g n t))"
    and peer_connected_keeps: "on_peer_connected cb = Some h \<Longrightarrow> app_inv (app n) \<Longrightarrow>
      same_node n (h n s) \<and> app_inv (app (h n s))"
begin

lemma handle_new_block_inv:
  assumes "node_inv e app_inv n" "CHR 0x00 \<notin> set payload" "handle_new_block e cb n s payload = Some n'"
  shows "node_inv e app_inv n' \<and> same_sockets n n' \<and> grows (node_chain n) (node_chain n')"
proof -
  obtain r b where b: "protocol_deserialize_block (malloc e) payload = (r, b)" by fastforce
  show ?thesis
  proof (cases "r = 0")
    case False
    with assms b show ?thesis by (simp add: handle_new_block_def)
  next
    case True
    obtain v c where c: "chain_add_block (sha e) (node_chain n) b = Some (v, c)"
      using assms(3) b True by (auto simp: handle_new_block_def)
    have shape: "block_shape b"
      using protocol_deserialize_block_shape [OF assms(2), of "malloc e"] b by simp
    have inv: "chain_inv (sha e) c"
      using c assms(1) shape by (auto simp: node_inv_def intro: chain_add_block_inv)
    have len: "grows (node_chain n) c"
      using chain_add_block_grows [OF c _ shape] assms(1) by (simp add: node_inv_def chain_inv_def)
    let ?n = "n\<lparr>node_chain := c\<rparr>"
    have n: "node_inv e app_inv ?n" using assms(1) inv by (simp add: node_inv_def)
    show ?thesis
    proof (cases "v = 0")
      case False
      with assms(3) b c True n len show ?thesis by (auto simp: handle_new_block_def)
    next
      case v: True
      let ?m = "case on_new_block cb of None \<Rightarrow> ?n | Some f \<Rightarrow> f ?n b"
      have m: "same_node ?n ?m" "app_inv (app ?m)"
        using new_block_keeps [of _ ?n b] n by (auto simp: node_inv_def split: option.split)
      have "broadcast_block_except e ?m b s = Some n'"
        using assms(3) b c True v by (simp add: handle_new_block_def Let_def)
      from broadcast_excludes [OF this] obtain fds where fds: "only_sends ?m fds n'" by blast
      have "node_inv e app_inv n'"
        unfolding node_inv_sends [OF fds] by (rule node_inv_same [OF m(1) n m(2)])
      moreover have "node_chain n' = c" "same_sockets n n'"
        using m(1) by (simp_all add: only_sendsD [OF fds] same_node_def same_sockets_def)
      ultimately show ?thesis using len by simp
    qed
  qed
qed

lemma handle_new_tx_inv:
  assumes "node_inv e app_inv n" "CHR 0x00 \<notin> set payload"
  shows "node_inv e app_inv (handle_new_tx cb n payload) \<and> same_node n (handle_new_tx cb n payload)"
proof -
  obtain r t where t: "protocol_deserialize_tx payload = (r, t)" by fastforce
  then have "tx_ok t" using protocol_deserialize_tx_ok [OF assms(2)] by simp
  moreover have "app_inv (app n)" using assms(1) by (simp add: node_inv_def)
  ultimately have "same_node n (handle_new_tx cb n payload) \<and> app_inv (app (handle_new_tx cb n payload))"
    using new_tx_keeps t by (auto simp: handle_new_tx_def split: option.split)
  with assms(1) show ?thesis by (auto intro: node_inv_same)
qed

lemma handle_chain_response_inv:
  assumes "node_inv e app_inv n" "CHR 0x00 \<notin> set payload" "handle_chain_response e n payload = Some n'"
  shows "node_inv e app_inv n' \<and> same_sockets n n' \<and> grows (node_chain n) (node_chain n')"
proof -
  obtain r other where other: "protocol_deserialize_chain (malloc e) payload \<lparr>blocks = []\<rparr> = (r, other)"
    by fastforce
  then have shape: "chain_shape other"
    using protocol_deserialize_chain_shape [OF assms(2), of "malloc e"] by simp
  show ?thesis
  proof (cases "calloc_chain e \<and> r = 0")
    case False
    with assms other show ?thesis by (auto simp: handle_chain_response_def split: if_splits)
  next
    case True
    then obtain v c where c: "chain_replace (sha e) (node_chain n) other = Some (v, c)"
      and n': "n' = n\<lparr>node_chain := c\<rparr>"
      using assms(3) other by (auto simp: handle_chain_response_def)
    then show ?thesis
      using chain_replace_inv [OF c _ shape] chain_replace_grows [OF c shape] assms(1)
      by (auto simp: node_inv_def same_sockets_def)
  qed
qed

lemma handle_message_inv:
  assumes "node_inv e app_inv n" "CHR 0x00 \<notin> set raw" "handle_message e cb n s raw = Some n'"
  shows "node_inv e app_inv n' \<and> same_sockets n n' \<and> grows (node_chain n) (node_chain n')"
proof -
  obtain type payload where p: "protocol_parse_msg (malloc e) raw = (type, payload)" by fastforce
  have nul: "CHR 0x00 \<notin> set x" if "payload = Some x" for x
    using protocol_parse_msg_chars [of "malloc e" raw type x] p that assms(2) by auto
  have sends: "node_inv e app_inv n' \<and> same_sockets n n' \<and> grows (node_chain n) (node_chain n')" if "only_sends n fds n'" for fds
    using assms(1) node_inv_sends [OF that] by (simp add: only_sendsD [OF that] same_sockets_def)
  show ?thesis
  proof (cases type)
    case None
    with assms p show ?thesis by (simp add: handle_message_def)
  next
    case (Some ty)
    show ?thesis
    proof (cases ty)
      case MSG_NEW_BLOCK
      with assms p Some show ?thesis
        using handle_new_block_inv [OF assms(1) nul]
        by (cases payload) (auto simp: handle_message_def)
    next
      case MSG_NEW_TX
      with assms p Some show ?thesis
        using handle_new_tx_inv [OF assms(1) nul]
        by (cases payload) (auto simp: handle_message_def same_node_def same_sockets_def)
    next
      case MSG_CHAIN_RESPONSE
      with assms p Some show ?thesis
        using handle_chain_response_inv [OF assms(1) nul]
        by (cases payload) (auto simp: handle_message_def)
    next
      case MSG_REQUEST_CHAIN
      then have "handle_request_chain e n s = Some n'"
        using assms(3) p Some by (simp add: handle_message_def split: option.splits)
      with only_sends_chain sends show ?thesis by blast
    next
      case MSG_PING
      then have "n' = handle_ping e n s"
        using assms(3) p Some by (simp add: handle_message_def split: option.splits)
      with only_sends_ping [of n e s] sends show ?thesis by auto
    qed (use assms p Some in \<open>simp_all add: handle_message_def\<close>)
  qed
qed

lemma peer_step_inv:
  assumes "node_inv e app_inv n" "peer_step e cb i n s = Some (n', s', cont)"
  shows "node_inv e app_inv n' \<and> length (peers n') = length (peers n)
    \<and> grows (node_chain n) (node_chain n') \<and> (cont \<longrightarrow> length s' < length s)"
proof -
  obtain r rest where r: "read_message (malloc e) s = (r, rest)" by fastforce
  show ?thesis
  proof (cases r)
    case None
    with assms r show ?thesis
      by (auto simp: peer_step_def arr_get_eq_Some_iff node_inv_def split: if_splits)
  next
    case (Some m)
    note m = read_message_no_NUL [OF r [unfolded Some]] read_message_consumes [OF r [unfolded Some]]
    from assms r Some m handle_message_inv [OF assms(1) m(1)] show ?thesis
      by (auto simp: peer_step_def arr_get_eq_Some_iff same_sockets_def split: if_splits)
  qed
qed

lemma add_peer_inv:
  assumes "node_inv e app_inv n" "add_peer e cb n s h p = Some (r, n')"
  shows "node_inv e app_inv n' \<and> node_chain n' = node_chain n
    \<and> (if length (peers n) < MAX_PEERS then r = 0 \<and> length (peers n') = length (peers n) + 1
       else r = - 1 \<and> peers n' = peers n \<and> closed n' = closed n @ [s])"
proof (cases "length (peers n) < MAX_PEERS")
  case False
  with assms show ?thesis by (auto simp: add_peer_def node_inv_def)
next
  case True
  let ?p = "\<lparr>fd = s, host = strncpy_to h 255, port = p, active = True\<rparr>"
  let ?n = "n\<lparr>peers := peers n @ [?p]\<rparr>"
  let ?m = "node_request_chain e ?n (int (length (peers n)))"
  obtain fds where fds: "only_sends ?n fds ?m" using only_sends_request_chain by blast
  have n': "r = 0" "n' = (case on_peer_connected cb of None \<Rightarrow> ?m | Some f \<Rightarrow> f ?m s)"
    using assms(2) True by (simp_all add: add_peer_def Let_def split: if_splits)
  have inv: "node_inv e app_inv ?m"
    unfolding node_inv_sends [OF fds] using assms(1) True by (simp add: node_inv_def)
  then have "same_node ?m n' \<and> app_inv (app n')"
    using n'(2) peer_connected_keeps [of _ ?m s] by (auto simp: node_inv_def split: option.split)
  moreover from this have "node_inv e app_inv n'" using inv by (auto intro: node_inv_same)
  ultimately show ?thesis
    using n'(1) True by (simp add: same_node_def only_sendsD [OF fds])
qed

lemma connect_inv:
  assumes "node_inv e app_inv n" "node_connect_peer e cb dr n h p = Some (r, n')"
  shows "node_inv e app_inv n' \<and> node_chain n' = node_chain n"
proof -
  consider "n' = n" | "n' = n\<lparr>closed := closed n @ [dial_fd dr]\<rparr>"
    | v m where "add_peer e cb n (dial_fd dr) h p = Some (v, m)"
        "n' = node_request_chain e m (int (length (peers m)) - 1)"
    using assms(2) by (auto simp: node_connect_peer_def split: if_splits)
  then show ?thesis
  proof cases
    case (3 v m)
    obtain fds where fds: "only_sends m fds n'" using only_sends_request_chain 3(2) by blast
    from add_peer_inv [OF assms(1) 3(1)] show ?thesis
      by (simp add: node_inv_sends [OF fds] only_sendsD [OF fds])
  qed (use assms(1) in \<open>simp_all add: node_inv_def\<close>)
qed

end

section \<open>Two nodes\<close>

lemma reliable_malloc: "reliable e \<Longrightarrow> malloc e = alloc_ok" "reliable e \<Longrightarrow> calloc_chain e"
  by (simp_all add: reliable_def)

lemma read_frame_of:
  assumes "wire_object p" "length p + 22 < MAX_MSG_SIZE"
  shows "read_message alloc_ok (msg_text type p @ [CHR 0x0A]) = (Some (msg_text type p), [])"
  using read_message_line [of "msg_text type p" alloc_ok "[]"] msg_text_one_line [OF assms(1)] assms(2)
  by (simp add: length_msg_text alloc_ok_def)

lemma request_answered:
  assumes "reliable e" "chain_wire (node_chain b)"
  shows "handle_message e cb b s (msg_text MSG_REQUEST_CHAIN ''{}'') =
    Some (b\<lparr>outbox := outbox b @ [(s, msg_text MSG_CHAIN_RESPONSE (chain_text (node_chain b)) @ [CHR 0x0A])]\<rparr>)"
proof -
  note al = reliable_malloc(1) [OF assms(1)]
  have "protocol_serialize_chain (malloc e) (node_chain b) = Some (Some (chain_text (node_chain b)))"
    using assms(2) al by (intro protocol_serialize_chain_eq) (auto simp: chain_wire_def block_wire_def alloc_ok_def)
  then show ?thesis
    using protocol_parse_msg_eq [OF wire_object_empty, of "malloc e" MSG_REQUEST_CHAIN] al
    by (simp add: handle_message_def handle_request_chain_def protocol_serialize_msg_eq alloc_ok_def
        send_message_reliable [OF assms(1)])
qed

lemma handle_message_new_block:
  assumes "malloc e = alloc_ok" "wire_object p"
  shows "handle_message e cb n s (msg_text MSG_NEW_BLOCK p) = handle_new_block e cb n s p"
  using protocol_parse_msg_eq [OF assms(2), of alloc_ok] assms(1)
  by (simp add: handle_message_def alloc_ok_def)

lemma handle_new_block_text:
  assumes "malloc e = alloc_ok" "block_wire b" "chain_inv (sha e) (node_chain n)"
    "chain_length (node_chain n) < MAX_BLOCKS" "index b = index (last (blocks (node_chain n))) + 1"
    "link_ok (sha e) (last (blocks (node_chain n))) b" "on_new_block cb = None"
  shows "handle_new_block e cb n s (block_text b) =
    broadcast_block_except e (n\<lparr>node_chain := \<lparr>blocks = blocks (node_chain n) @ [b]\<rparr>\<rparr>) b s"
proof -
  have b: "block_ok b" "blocks (node_chain n) \<noteq> []"
    using assms(2,3) by (simp_all add: block_wire_def chain_inv_def)
  then have "chain_add_block (sha e) (node_chain n) b = Some (0, \<lparr>blocks = blocks (node_chain n) @ [b]\<rparr>)"
    using assms(4-6) block_okD(2) [OF b(1)]
    by (cases "node_chain n") (simp add: chain_add_block_eq block_okD(1) link_ok_def)
  moreover have "protocol_deserialize_block (malloc e) (block_text b) = (0, b)"
    using assms(1,2) by (simp add: protocol_deserialize_block_text alloc_ok_def)
  ultimately show ?thesis using assms(7) by (simp add: handle_new_block_def Let_def)
qed

definition demo_env :: env where
  "demo_env = \<lparr>sha = zero_sha, malloc = alloc_ok, calloc_chain = True, sends = (\<lambda>s k i. 10)\<rparr>"

definition demo_node :: "block_t list \<Rightarrow> unit node_t" where
  "demo_node bs = \<lparr>node_port = DEFAULT_PORT, server_fd = 3,
     peers = [\<lparr>fd = 4, host = ''localhost'', port = 9334, active = True\<rparr>],
     node_chain = \<lparr>blocks = bs\<rparr>, running = True, app = (), outbox = [], closed = []\<rparr>"

definition no_callbacks :: "'a callbacks" where
  "no_callbacks = \<lparr>on_new_block = None, on_new_tx = None, on_peer_connected = None\<rparr>"

lemma demo_env_facts [simp]: "reliable demo_env" "sha demo_env = zero_sha" "malloc demo_env = alloc_ok"
  by (simp_all add: reliable_def demo_env_def)

section \<open>Properties\<close>

text \<open>
  Framing: from a line followed by anything, \<open>read_message\<close> takes exactly the line when it is
  shorter than the buffer. A longer one is cut after \<open>MAX_MSG_SIZE - 1\<close> bytes without an error, and
  its remainder is read as the start of the next message.
\<close>

theorem read_message_spec:
  assumes "CHR 0x0A \<notin> set m" "CHR 0x00 \<notin> set m" "al MAX_MSG_SIZE"
  shows "read_message al (m @ CHR 0x0A # rest) =
    (if length m < MAX_MSG_SIZE - 1 then (Some m, rest)
     else (Some (take (MAX_MSG_SIZE - 1) m), drop (MAX_MSG_SIZE - 1) m @ CHR 0x0A # rest))"
proof (cases "length m < MAX_MSG_SIZE - 1")
  case False
  let ?a = "take (MAX_MSG_SIZE - 1) m" and ?b = "drop (MAX_MSG_SIZE - 1) m"
  have "CHR 0x0A \<notin> set ?a" "CHR 0x00 \<notin> set ?a" using assms(1,2) by (auto dest: in_set_takeD)
  with read_loop_full [of ?a 0 "[]" "?b @ CHR 0x0A # rest"] assms(3) False show ?thesis
    by (simp add: read_message_def c_string_id flip: append_assoc)
qed (simp add: assms read_message_line)

theorem read_message_spec_witness:
  "read_message alloc_ok (''ab'' @ CHR 0x0A # ''cd'') = (Some ''ab'', ''cd'')"
  using read_message_spec [of "''ab''" alloc_ok "''cd''"] by (simp add: alloc_ok_def MAX_MSG_SIZE_def)

text \<open>
  Partial sends: whatever the socket accepts per call, \<open>send_message\<close> has transmitted a prefix
  of the message when it returns, all of it exactly when it returns 0, which it does whenever no
  \<open>send\<close> fails.
\<close>

theorem send_message_spec:
  "\<exists>out. send_message e n s msg = (if out = msg then 0 else - 1, n\<lparr>outbox := outbox n @ [(s, out)]\<rparr>)
    \<and> (\<exists>rest. msg = out @ rest)
    \<and> ((\<forall>i. 0 < sends e s (length (outbox n)) i) \<longrightarrow> out = msg)"
proof -
  obtain r out where r: "send_loop (sends e s (length (outbox n))) 0 msg = (r, out)" by fastforce
  from send_loop_cases [OF r] have "r = (if out = msg then 0 else - 1)" "\<exists>rest. msg = out @ rest"
    by auto
  moreover have "out = msg" if "\<forall>i. 0 < sends e s (length (outbox n)) i"
    using send_loop_all [of "sends e s (length (outbox n))" 0 msg] that r by simp
  ultimately show ?thesis using r by (auto simp: send_message_def)
qed

theorem send_message_spec_witness:
  "snd (send_message demo_env (demo_node []) 4 ''hello world'')
    = (demo_node [])\<lparr>outbox := [(4, ''hello world'')]\<rparr>"
  using send_message_spec [of demo_env "demo_node []" 4 "''hello world''"]
  by (auto simp: demo_env_def demo_node_def)

text \<open>
  A block reaches the peers: when a node broadcasts a block, what it writes to the socket of an
  active peer is one line, from which the peer reads a message; handling that message appends the
  very same block to the peer's chain, if it extends that chain.
\<close>

theorem block_propagates:
  assumes "reliable e" "reliable e'" "block_wire b" "p \<in> set (peers a)" "active p" "fd p \<noteq> - 1"
    "chain_inv (sha e') (node_chain n)" "chain_length (node_chain n) < MAX_BLOCKS"
    "index b = index (last (blocks (node_chain n))) + 1"
    "link_ok (sha e') (last (blocks (node_chain n))) b" "on_new_block cb = None"
  shows "\<exists>a' out line raw n'. node_broadcast_block e a b = Some a' \<and> outbox a' = outbox a @ out
    \<and> (fd p, line) \<in> set out \<and> read_message (malloc e') line = (Some raw, [])
    \<and> handle_message e' cb n s raw = Some n'
    \<and> blocks (node_chain n') = blocks (node_chain n) @ [b]"
proof -
  have b: "block_ok b" "wire_object (block_text b)" "length (block_text b) + 22 < MAX_MSG_SIZE"
    using assms(3) block_wire_text block_stream.enc_small by (auto simp: block_wire_def)
  let ?line = "msg_text MSG_NEW_BLOCK (block_text b) @ [CHR 0x0A]"
  let ?out = "map (\<lambda>p. (fd p, ?line)) (filter (\<lambda>p. active p \<and> fd p \<noteq> - 1) (peers a))"
  have "node_broadcast_block e a b = Some (a\<lparr>outbox := outbox a @ ?out\<rparr>)"
    by (simp add: node_broadcast_block_def broadcast_block_eq [OF assms(1) b(1)])
  moreover have "(fd p, ?line) \<in> set ?out" using assms(4-6) by auto
  moreover have "read_message (malloc e') ?line = (Some (msg_text MSG_NEW_BLOCK (block_text b)), [])"
    using read_frame_of [OF b(2,3)] reliable_malloc(1) [OF assms(2)] by simp
  moreover have "\<exists>n'. handle_message e' cb n s (msg_text MSG_NEW_BLOCK (block_text b)) = Some n'
      \<and> blocks (node_chain n') = blocks (node_chain n) @ [b]"
    using handle_new_block_text [OF reliable_malloc(1) [OF assms(2)] assms(3,7-11), of s]
    by (simp add: handle_message_new_block [OF reliable_malloc(1) [OF assms(2)] b(2)]
        broadcast_block_eq [OF assms(2) b(1)])
  ultimately show ?thesis by auto
qed

theorem block_propagates_witness:
  "\<exists>line raw n'. read_message alloc_ok line = (Some raw, [])
    \<and> handle_message demo_env no_callbacks (demo_node [demo_genesis]) 4 raw = Some n'
    \<and> blocks (node_chain n') = [demo_genesis, demo_block]"
  using block_propagates [of demo_env demo_env demo_block "hd (peers (demo_node []))" "demo_node []"
      "demo_node [demo_genesis]" no_callbacks 4] demo_chain_inv(2)
  by (auto simp: demo_node_def chain_length_def MAX_BLOCKS_def no_callbacks_def)

text \<open>
  C31. Relaying: a received block is sent on only if it was appended to the chain, only to active
  peers, and never back on the socket it came from. A block that has been relayed once is dropped
  when it arrives again, so a block floods through the network and then stops.
\<close>

theorem relay_once_no_echo:
  assumes "chain_inv (sha e) (node_chain n)" "CHR 0x00 \<notin> set payload" "on_new_block cb = None"
    "handle_new_block e cb n s payload = Some n'"
  shows "\<exists>out. outbox n' = outbox n @ out \<and> (node_chain n' = node_chain n \<longrightarrow> out = [])
    \<and> (\<forall>(s', m) \<in> set out. s' \<noteq> s \<and> (\<exists>p \<in> set (peers n). active p \<and> fd p = s'))
    \<and> (node_chain n' \<noteq> node_chain n \<longrightarrow> handle_new_block e cb n' s' payload = Some n')"
proof -
  obtain r b where b: "protocol_deserialize_block (malloc e) payload = (r, b)" by fastforce
  have shape: "block_shape b"
    using protocol_deserialize_block_shape [OF assms(2), of "malloc e"] b by simp
  have ne: "blocks (node_chain n) \<noteq> []" using assms(1) by (simp add: chain_inv_def)
  consider (dropped) "n' = n"
    | (added) c where "r = 0" "chain_add_block (sha e) (node_chain n) b = Some (0, c)"
        "broadcast_block_except e (n\<lparr>node_chain := c\<rparr>) b s = Some n'"
    using assms(3,4) b chain_add_block_cases [OF _ ne shape, of "sha e"]
    by (auto simp: handle_new_block_def Let_def split: if_splits)
      (metis node_t.surjective node_t.update_convs(4))
  then show ?thesis
  proof cases
    case (added c)
    then have c: "c = (node_chain n)\<lparr>blocks := blocks (node_chain n) @ [b]\<rparr>"
      using chain_add_block_cases [OF _ ne shape] by fastforce
    let ?sel = "\<lambda>p. active p \<and> fd p \<noteq> s"
    have sent: "n' = n\<lparr>node_chain := c\<rparr> \<or> only_sends (n\<lparr>node_chain := c\<rparr>) (map fd (filter ?sel (peers n))) n'"
      using only_sends_broadcast [OF added(3)] by simp
    then obtain out where out: "n' = n\<lparr>node_chain := c, outbox := outbox n @ out\<rparr>"
      "set (map fst out) \<subseteq> fd ` set (filter ?sel (peers n))"
    proof
      assume "n' = n\<lparr>node_chain := c\<rparr>"
      then show thesis using that [of "[]"] by simp
    next
      assume "only_sends (n\<lparr>node_chain := c\<rparr>) (map fd (filter ?sel (peers n))) n'"
      then obtain o' where o': "n' = n\<lparr>node_chain := c\<rparr>\<lparr>outbox := outbox n @ o'\<rparr>"
        "map fst o' = map fd (filter ?sel (peers n))" by (auto simp: only_sends_def)
      then show thesis using that [of o'] by simp
    qed
    have again: "chain_add_block (sha e) c b = Some (- 1, c)"
      using c shape by (simp add: chain_add_block_eq)
    have "handle_new_block e cb n' s' payload = Some n'"
      using again b added(1) out(1) by (simp add: handle_new_block_def Let_def)
    moreover have "c \<noteq> node_chain n" using c by (cases "node_chain n") simp
    ultimately show ?thesis using out by fastforce
  qed (intro exI [of _ "[]"], simp)
qed

theorem relay_once_no_echo_witness:
  "\<exists>n'. handle_new_block demo_env no_callbacks (demo_node [demo_genesis]) 4 (block_text demo_block) = Some n'
    \<and> outbox n' = [] \<and> handle_new_block demo_env no_callbacks n' 4 (block_text demo_block) = Some n'"
proof -
  let ?n = "demo_node [demo_genesis]"
  have inv: "chain_inv (sha demo_env) (node_chain ?n)" by (simp add: demo_node_def)
  have nul: "CHR 0x00 \<notin> set (block_text demo_block)"
    using block_wire_text(1) [of demo_block] by (simp add: wire_object_def)
  have "handle_new_block demo_env no_callbacks ?n 4 (block_text demo_block) =
      broadcast_block_except demo_env (?n\<lparr>node_chain := \<lparr>blocks = [demo_genesis, demo_block]\<rparr>\<rparr>) demo_block 4"
    using handle_new_block_text [of demo_env demo_block ?n no_callbacks 4] inv
    by (simp add: demo_node_def chain_length_def MAX_BLOCKS_def no_callbacks_def)
  also have "\<dots> = Some (?n\<lparr>node_chain := \<lparr>blocks = [demo_genesis, demo_block]\<rparr>\<rparr>)"
    by (simp add: broadcast_block_eq demo_node_def)
  finally have step: "handle_new_block demo_env no_callbacks ?n 4 (block_text demo_block) =
      Some (?n\<lparr>node_chain := \<lparr>blocks = [demo_genesis, demo_block]\<rparr>\<rparr>)" .
  from relay_once_no_echo [OF inv nul _ step, of 4] step show ?thesis
    by (auto simp: no_callbacks_def demo_node_def)
qed

text \<open>
  C4. Synchronisation: when a peer holds a longer valid chain, short enough for one message, its
  answer to \<open>MSG_REQUEST_CHAIN\<close> is one line, and handling that line replaces the node's chain by
  exactly the peer's.
\<close>

theorem chain_sync:
  assumes "reliable e" "reliable e'" "chain_sendable (node_chain b)" "chain_inv (sha e) (node_chain b)"
    "chain_length (node_chain a) < chain_length (node_chain b)"
  shows "\<exists>b' line raw a'. handle_message e' cb' b s (msg_text MSG_REQUEST_CHAIN ''{}'') = Some b'
    \<and> outbox b' = outbox b @ [(s, line)] \<and> read_message (malloc e) line = (Some raw, [])
    \<and> handle_message e cb a s' raw = Some a' \<and> node_chain a' = node_chain b"
proof -
  let ?c = "node_chain b"
  let ?line = "msg_text MSG_CHAIN_RESPONSE (chain_text ?c) @ [CHR 0x0A]"
  note m = reliable_malloc [OF assms(1)] reliable_malloc [OF assms(2)]
  have al: "\<forall>k. malloc e k" using m by (simp add: alloc_ok_def)
  have wire: "chain_wire ?c" using assms(3) by (simp add: chain_sendable_def)
  have obj: "wire_object (chain_text ?c)" "length (chain_text ?c) + 22 < MAX_MSG_SIZE"
    using assms(3) by (auto intro: chain_stream.enc_object chain_stream.enc_small)
  note request_answered [OF assms(2) wire, of cb' s]
  moreover have "read_message (malloc e) ?line = (Some (msg_text MSG_CHAIN_RESPONSE (chain_text ?c)), [])"
    using read_frame_of [OF obj] m by simp
  moreover have "handle_message e cb a s' (msg_text MSG_CHAIN_RESPONSE (chain_text ?c))
      = Some (a\<lparr>node_chain := ?c\<rparr>)"
  proof -
    have "protocol_deserialize_chain (malloc e) (chain_text ?c) \<lparr>blocks = []\<rparr> = (0, ?c)"
      using wire al by (rule protocol_deserialize_chain_text)
    moreover have "chain_replace (sha e) (node_chain a) ?c = Some (0, ?c)"
      using assms(4,5) by (auto simp: chain_replace_eq chain_inv_def)
    ultimately show ?thesis
      using protocol_parse_msg_eq [OF obj(1), of "malloc e" MSG_CHAIN_RESPONSE] al m
      by (simp add: handle_message_def handle_chain_response_def)
  qed
  ultimately show ?thesis by auto
qed

theorem chain_sync_witness:
  "\<exists>line raw a'. read_message alloc_ok line = (Some raw, [])
    \<and> handle_message demo_env no_callbacks (demo_node [demo_genesis]) 9 raw = Some a'
    \<and> node_chain a' = demo_chain"
  using chain_sync [of demo_env demo_env "demo_node (blocks demo_chain)" "demo_node [demo_genesis]"
      no_callbacks 4 no_callbacks 9] demo_wire(5) demo_chain_inv(1)
  by (auto simp: demo_node_def chain_sendable_def chain_length_def demo_chain_def)

text \<open>
  C32. A peer can drive the node into undefined behaviour: for every node whose chain is not full
  there is a one-line message, short enough to be read, that announces a block on the node's tip
  with a transaction count of 11; hashing that block reads past the array of transactions.
\<close>

theorem remote_undefined_read:
  assumes "malloc e = alloc_ok" "chain_inv (sha e) (node_chain n)"
    "chain_length (node_chain n) < MAX_BLOCKS" "plain (hash (last (blocks (node_chain n))))"
  shows "\<exists>raw. length raw < MAX_MSG_SIZE - 1 \<and> CHR 0x0A \<notin> set raw \<and> CHR 0x00 \<notin> set raw
    \<and> handle_message e cb n s raw = None"
proof -
  let ?tip = "last (blocks (node_chain n))"
  define b where "b = block_zero\<lparr>index := index ?tip + 1, prev_hash := hash ?tip, tx_count := 11\<rparr>"
  let ?p = "block_format b ''[]''"
  have ne: "blocks (node_chain n) \<noteq> []" using assms(2) by (simp add: chain_inv_def)
  then have "block_shape ?tip" using assms(2) by (simp add: chain_inv_def chain_shape_def)
  then have shape: "block_shape b"
    by (auto simp: b_def block_shape_def block_zero_def block_consts cstr_fits_def i64_ok_def)
  have plain: "plain (prev_hash b)" "plain (hash b)" using assms(4) by (simp_all add: b_def block_zero_def)
  have wire: "wire_object ?p" by (rule block_format_wire [OF plain])
  have "protocol_deserialize_block (malloc e) ?p = (0, b)"
    using protocol_deserialize_block_format [of b "malloc e" "'']''"] plain shape
    by (simp add: block_head_ok_def b_def block_zero_def block_consts numeral_eq_Suc)
  moreover have "chain_add_block (sha e) (node_chain n) b = None"
    using assms(3) by (simp add: chain_add_block_eq [OF ne shape]) (simp add: b_def)
  ultimately have "handle_message e cb n s (msg_text MSG_NEW_BLOCK ?p) = None"
    by (simp add: handle_message_new_block [OF assms(1) wire] handle_new_block_def)
  moreover have "length (msg_text MSG_NEW_BLOCK ?p) < MAX_MSG_SIZE - 1"
    using length_block_format [OF shape, of "''[]''"] by (simp add: length_msg_text MAX_MSG_SIZE_def)
  ultimately show ?thesis using msg_text_one_line [OF wire] by blast
qed

theorem remote_undefined_read_witness:
  "\<exists>raw. handle_message demo_env no_callbacks (demo_node [demo_genesis]) 4 raw = None"
proof -
  have "plain zero_hash" by (simp add: zero_hash_def plain_def plain_char_def)
  then show ?thesis
    using remote_undefined_read [of demo_env "demo_node [demo_genesis]" no_callbacks 4] demo_chain_inv(2)
    by (auto simp: demo_node_def chain_length_def MAX_BLOCKS_def)
qed

text \<open>
  Connecting with a full peer table: although the connection is refused and its socket closed,
  \<open>node_connect_peer\<close> returns 0, success, and asks the last peer of the table for its chain instead.
\<close>

theorem connect_full_reports_success:
  assumes "length (peers n) = MAX_PEERS" "resolve_rc dr = 0" "0 \<le> dial_fd dr" "0 \<le> connect_rc dr"
  shows "\<exists>n'. node_connect_peer e cb dr n h p = Some (0, n')
    \<and> peers n' = peers n \<and> closed n' = closed n @ [dial_fd dr]
    \<and> n' = node_request_chain e (n\<lparr>closed := closed n @ [dial_fd dr]\<rparr>) 15"
proof -
  let ?n = "n\<lparr>closed := closed n @ [dial_fd dr]\<rparr>"
  obtain fds where "only_sends ?n fds (node_request_chain e ?n 15)"
    using only_sends_request_chain by blast
  then show ?thesis
    using assms by (simp add: node_connect_peer_def add_peer_def MAX_PEERS_def only_sendsD)
qed

theorem connect_full_reports_success_witness:
  "\<exists>n'. node_connect_peer demo_env no_callbacks \<lparr>resolve_rc = 0, dial_fd = 20, connect_rc = 0\<rparr>
      ((demo_node [])\<lparr>peers := replicate 16 \<lparr>fd = 4, host = [], port = 1, active = False\<rparr>\<rparr>) ''h'' 1
    = Some (0, n') \<and> closed n' = [20]"
proof -
  let ?n = "(demo_node [])\<lparr>peers := replicate 16 \<lparr>fd = 4, host = [], port = 1, active = False\<rparr>\<rparr>"
    and ?dr = "\<lparr>resolve_rc = 0, dial_fd = 20, connect_rc = 0\<rparr>"
  have "length (peers ?n) = MAX_PEERS" by (simp add: MAX_PEERS_def)
  from connect_full_reports_success [OF this, of ?dr demo_env no_callbacks "''h''" 1]
  show ?thesis by (auto simp: demo_node_def)
qed

end
