(* ===== verification/Reader.thy ===== *)
theory Reader
  imports Net
begin

text \<open>
  The threads of the network layer (\<open>src/net.c\<close>) as whole loops: \<open>peer_handler\<close>, which reads one peer's
  messages until the connection ends, and \<open>accept_thread\<close>, which takes new connections. The facts say
  that the reader does nothing but handle the lines of the stream one after the other, and which
  messages it survives.
\<close>

section \<open>Operations\<close>

lemma peer_step_consumes:
  assumes "peer_step e cb i n s = Some (n', rest, True)"
  shows "length rest < length s"
proof -
  obtain r rest' where r: "read_message (malloc e) s = (r, rest')" by fastforce
  then obtain m where "r = Some m" "rest = rest'"
    using assms by (cases r) (auto simp: peer_step_def split: if_splits)
  with r read_message_consumes show ?thesis by simp
qed

text \<open>
  The loop of \<open>peer_handler\<close> on everything that will still arrive from the peer. It ends, because
  every turn that goes on has taken at least one byte from the socket.
\<close>

function peer_handler :: "env \<Rightarrow> 'a callbacks \<Rightarrow> nat \<Rightarrow> 'a node_t \<Rightarrow> string \<Rightarrow> ('a node_t \<times> string) option" where
  "peer_handler e cb idx n s = do {
     (n, rest, cont) \<leftarrow> peer_step e cb idx n s;
     if cont then peer_handler e cb idx n rest else Some (n, rest)
   }"
  by pat_completeness auto
termination
  by (relation "measure (\<lambda>(e, cb, idx, n, s). length s)") (auto dest: peer_step_consumes)

declare peer_handler.simps [simp del]

text \<open>
  The loop of \<open>accept_thread\<close> over what \<open>accept\<close> returns in turn: a descriptor, negative on an error,
  and the address of the client.
\<close>

type_synonym accepted = "int \<times> string \<times> u16"

definition accept_step :: "env \<Rightarrow> 'a callbacks \<Rightarrow> 'a node_t \<Rightarrow> accepted \<Rightarrow> 'a node_t option" where
  "accept_step e cb n a =
     (case a of (client_fd, client_host, client_port) \<Rightarrow>
        if client_fd < 0 then Some n
        else do {
          (_, n) \<leftarrow> add_peer e cb n client_fd client_host client_port;
          Some n
        })"

fun accept_thread :: "env \<Rightarrow> 'a callbacks \<Rightarrow> 'a node_t \<Rightarrow> accepted list \<Rightarrow> 'a node_t option" where
  "accept_thread e cb n [] = Some n"
| "accept_thread e cb n (a # as) =
     (if running n
      then do {
        n \<leftarrow> accept_step e cb n a;
        accept_thread e cb n as
      }
      else Some n)"

section \<open>The stream as a list of messages\<close>

text \<open>
  The reference for framing: the bytes up to the next newline, or the first \<open>MAX_MSG_SIZE - 1\<close> bytes
  when there is no newline among them; what is left without a newline at the end of the stream is no
  message.
\<close>

definition next_frame :: "string \<Rightarrow> (string \<times> string) option" where
  "next_frame s =
     (let line = takeWhile (\<lambda>c. c \<noteq> CHR 0x0A) (take (MAX_MSG_SIZE - 1) s) in
      if length line = MAX_MSG_SIZE - 1 then Some (c_string line, drop (MAX_MSG_SIZE - 1) s)
      else if length line < length s then Some (c_string line, drop (Suc (length line)) s)
      else None)"

lemma next_frame_consumes: "next_frame s = Some (m, rest) \<Longrightarrow> length rest < length s"
proof -
  have "length (takeWhile (\<lambda>c. c \<noteq> CHR 0x0A) (take (MAX_MSG_SIZE - 1) s)) \<le> length s"
    by (rule le_trans [OF length_takeWhile_le]) simp
  with MAX_MSG_SIZE_pos show "next_frame s = Some (m, rest) \<Longrightarrow> length rest < length s"
    by (auto simp: next_frame_def Let_def split: if_splits)
qed

function frames :: "string \<Rightarrow> string list" where
  "frames s = (case next_frame s of None \<Rightarrow> [] | Some (m, rest) \<Rightarrow> m # frames rest)"
  by pat_completeness auto
termination
  by (relation "measure length") (auto dest: next_frame_consumes)

declare frames.simps [simp del]

lemma read_loop_eq:
  assumes "tot \<le> MAX_MSG_SIZE - 1"
  shows "read_loop tot buf s =
    (let line = takeWhile (\<lambda>c. c \<noteq> CHR 0x0A) (take (MAX_MSG_SIZE - 1 - tot) s) in
     if length line = MAX_MSG_SIZE - 1 - tot then (Some (buf @ line), drop (length line) s)
     else if length line < length s then (Some (buf @ line), drop (Suc (length line)) s)
     else (None, []))"
  using assms
proof (induction tot buf s rule: read_loop.induct)
  case (1 tot buf)
  then show ?case by (auto simp: Let_def)
next
  case (2 tot buf c cs)
  show ?case
  proof (cases "tot < MAX_MSG_SIZE - 1 \<and> c \<noteq> CHR 0x0A")
    case False
    with "2.prems" show ?thesis by (cases "MAX_MSG_SIZE - 1 - tot") (auto simp: Let_def)
  next
    case True
    then have "MAX_MSG_SIZE - 1 - tot = Suc (MAX_MSG_SIZE - 1 - (tot + 1))" by linarith
    with True "2.IH" show ?thesis by (simp add: Let_def)
  qed
qed

lemma read_message_eq:
  "read_message al s =
    (if \<not> al MAX_MSG_SIZE then (None, s)
     else case next_frame s of None \<Rightarrow> (None, []) | Some (m, rest) \<Rightarrow> (Some m, rest))"
  using read_loop_eq [of 0 "[]" s]
  by (simp add: read_message_def next_frame_def Let_def)

lemma next_frame_no_NUL: "next_frame s = Some (m, rest) \<Longrightarrow> CHR 0x00 \<notin> set m"
  by (auto simp: next_frame_def Let_def c_string_no_NUL split: if_splits)

lemma frames_no_NUL: "m \<in> set (frames s) \<Longrightarrow> CHR 0x00 \<notin> set m"
proof (induction s rule: frames.induct)
  case (1 s)
  then show ?case
    by (cases "next_frame s") (auto simp: frames.simps [of s] next_frame_no_NUL)
qed

lemma next_frame_line:
  assumes "CHR 0x0A \<notin> set m" "length m < MAX_MSG_SIZE - 1"
  shows "next_frame (m @ CHR 0x0A # rest) = Some (c_string m, rest)"
proof -
  have "takeWhile (\<lambda>c. c \<noteq> CHR 0x0A) (take (MAX_MSG_SIZE - 1) (m @ CHR 0x0A # rest)) = m"
    using assms by (cases "MAX_MSG_SIZE - 1 - length m") (auto intro!: takeWhile_append_stop)
  with assms(2) show ?thesis by (simp add: next_frame_def)
qed

lemma frames_line:
  "CHR 0x0A \<notin> set m \<Longrightarrow> length m < MAX_MSG_SIZE - 1 \<Longrightarrow>
    frames (m @ CHR 0x0A # rest) = c_string m # frames rest"
  by (subst frames.simps) (simp add: next_frame_line)

lemma frames_Nil [simp]: "frames [] = []"
  using MAX_MSG_SIZE_pos by (subst frames.simps) (simp add: next_frame_def Let_def)

section \<open>The reader thread\<close>

text \<open>The end of a connection: the peer is marked inactive and its socket closed.\<close>

definition disconnect :: "nat \<Rightarrow> 'a node_t \<Rightarrow> 'a node_t" where
  "disconnect i n = n\<lparr>peers := (peers n)[i := (peers n ! i)\<lparr>active := False\<rparr>],
     closed := closed n @ [fd (peers n ! i)]\<rparr>"

text \<open>
  The body of the loop without its test: what the thread does with the result of \<open>recv\<close>, at whatever
  time it comes.
\<close>

definition peer_recv :: "env \<Rightarrow> 'a callbacks \<Rightarrow> nat \<Rightarrow> 'a node_t \<Rightarrow> string \<Rightarrow> ('a node_t \<times> string \<times> bool) option" where
  "peer_recv e cb idx n s = do {
     p \<leftarrow> arr_get (peers n) idx;
     case read_message (malloc e) s of
       (None, rest) \<Rightarrow> Some (disconnect idx n, rest, False)
     | (Some msg, rest) \<Rightarrow> do {
         n \<leftarrow> handle_message e cb n (fd p) msg;
         Some (n, rest, True)
       }
   }"

lemma peer_step_recv:
  "peer_step e cb idx n s = do {
     p \<leftarrow> arr_get (peers n) idx;
     if running n \<and> active p then peer_recv e cb idx n s else Some (n, s, False)
   }"
  by (cases "idx < length (peers n)") (auto simp: peer_step_def peer_recv_def disconnect_def split: prod.split option.split)

lemma peer_step_idle:
  "i < length (peers n) \<Longrightarrow> \<not> (running n \<and> active (peers n ! i)) \<Longrightarrow>
    peer_step e cb i n s = Some (n, s, False)"
  by (simp add: peer_step_def)

lemma peer_step_frame:
  assumes "i < length (peers n)" "running n" "active (peers n ! i)" "malloc e MAX_MSG_SIZE"
  shows "peer_step e cb i n s = (case next_frame s of
      None \<Rightarrow> Some (disconnect i n, [], False)
    | Some (m, rest) \<Rightarrow> map_option (\<lambda>n'. (n', rest, True)) (handle_message e cb n (fd (peers n ! i)) m))"
  using assms
  by (auto simp: peer_step_def read_message_eq disconnect_def map_conv_bind_option comp_def split: option.split)

text \<open>
  \<open>counts_ok al raw\<close>: every block that the message announces or delivers has a transaction count within
  the array. \<open>counted\<close>: so has every block of the node's chain. From its second block on a valid chain
  has it anyway.
\<close>

definition counts_ok :: "allocator \<Rightarrow> string \<Rightarrow> bool" where
  "counts_ok al raw =
     (case protocol_parse_msg al raw of
        (Some MSG_NEW_BLOCK, Some p) \<Rightarrow> tx_count (snd (protocol_deserialize_block al p)) \<le> 10
      | (Some MSG_CHAIN_RESPONSE, Some p) \<Rightarrow>
          list_all (\<lambda>b. tx_count b \<le> 10) (blocks (snd (protocol_deserialize_chain al p \<lparr>blocks = []\<rparr>)))
      | _ \<Rightarrow> True)"

definition counted :: "blockchain_t \<Rightarrow> bool" where
  "counted c \<longleftrightarrow> (\<forall>b \<in> set (blocks c). tx_count b \<le> 10)"

lemma counted_block_ok: "chain_shape c \<Longrightarrow> counted c \<Longrightarrow> b \<in> set (blocks c) \<Longrightarrow> block_ok b"
  by (simp add: chain_shape_def counted_def block_ok_def block_consts)

lemma chain_inv_counted:
  assumes "chain_inv h c" "tx_count (hd (blocks c)) \<le> 10"
  shows "counted c"
  unfolding counted_def
proof
  fix b assume "b \<in> set (blocks c)"
  then obtain i where i: "i < length (blocks c)" "b = blocks c ! i" by (auto simp: in_set_conv_nth)
  show "tx_count b \<le> 10"
  proof (cases "i = 0")
    case True
    with i assms(2) show ?thesis by (simp add: hd_conv_nth [symmetric])
  next
    case False
    with i assms(1) have "sealed h b" by (simp add: chain_inv_def links_def link_ok_def)
    then show ?thesis by (rule sealed_tx_count)
  qed
qed

lemma chain_validate_defined:
  assumes "chain_shape c" "counted c"
  shows "\<exists>v. chain_validate h c = Some v"
proof -
  have "\<exists>v. chain_validate_from h c i = Some v" if "0 < i" for i
    using that
  proof (induction "chain_length c - i" arbitrary: i)
    case 0
    then show ?case by (subst chain_validate_from.simps) simp
  next
    case (Suc k)
    then have i: "i < chain_length c" "i - 1 < chain_length c" by simp_all
    have b: "blocks c ! i \<in> set (blocks c)" using i by (simp add: chain_length_def)
    with assms have "block_shape (blocks c ! i)" "tx_count (blocks c ! i) \<le> 10"
      by (simp_all add: chain_shape_def counted_def)
    moreover have "\<exists>v. chain_validate_from h c (Suc i) = Some v"
      using Suc.hyps by (intro Suc.hyps(1)) auto
    ultimately show ?case
      using i by (subst chain_validate_from.simps) (auto simp: block_validate_eq chain_length_def)
  qed
  then show ?thesis by (simp add: chain_validate_def)
qed

lemma broadcast_block_defined:
  "block_ok b \<Longrightarrow> \<exists>n'. broadcast_block_except e n b x = Some n'"
  by (auto simp: broadcast_block_except_def protocol_serialize_block_any split: option.split)

lemma handle_request_chain_defined:
  assumes "chain_shape (node_chain n)" "counted (node_chain n)"
  shows "\<exists>n'. handle_request_chain e n s = Some n'"
proof -
  have "\<forall>b \<in> set (blocks (node_chain n)). block_ok b" using assms counted_block_ok by blast
  moreover have "chain_length (node_chain n) \<le> MAX_BLOCKS" using assms(1) by (simp add: chain_shape_def)
  ultimately have "protocol_serialize_chain (malloc e) (node_chain n) \<noteq> None"
    using protocol_serialize_chain_defined [of "node_chain n" "malloc e"] by auto
  then obtain r where "protocol_serialize_chain (malloc e) (node_chain n) = Some r" by blast
  then show ?thesis by (simp add: handle_request_chain_def split: option.split)
qed

lemma handle_chain_response_defined:
  assumes "CHR 0x00 \<notin> set p" "counted (snd (protocol_deserialize_chain (malloc e) p \<lparr>blocks = []\<rparr>))"
    "counted (node_chain n)"
  shows "\<exists>n'. handle_chain_response e n p = Some n' \<and> counted (node_chain n')"
proof -
  obtain r other where other: "protocol_deserialize_chain (malloc e) p \<lparr>blocks = []\<rparr> = (r, other)"
    by fastforce
  then have "chain_shape other" using protocol_deserialize_chain_shape [OF assms(1), of "malloc e"] by simp
  moreover have "counted other" using assms(2) other by simp
  ultimately obtain v where "chain_validate (sha e) other = Some v" using chain_validate_defined by blast
  with other assms(3) \<open>counted other\<close> show ?thesis
    by (auto simp: handle_chain_response_def chain_replace_def counted_def)
qed

context node_callbacks
begin

lemma handle_message_keeps:
  assumes "node_inv e app_inv n" "handle_message e cb n s m = Some n'" "CHR 0x00 \<notin> set m"
  shows "node_inv e app_inv n'" "peers n' = peers n" "running n' = running n"
  using handle_message_inv [OF assms(1,3,2)] by (simp_all add: same_sockets_def)

text \<open>The reader thread handles the messages of the stream in order, then closes the connection.\<close>

lemma peer_handler_frames:
  assumes "node_inv e app_inv n" "i < length (peers n)" "running n" "active (peers n ! i)"
    "malloc e MAX_MSG_SIZE"
  shows "peer_handler e cb i n s =
    foldM (\<lambda>n m. handle_message e cb n (fd (peers n ! i)) m) n (frames s)
      \<bind> (\<lambda>n'. Some (disconnect i n', []))"
  using assms
proof (induction s arbitrary: n rule: frames.induct)
  case (1 s)
  note step = peer_step_frame [OF "1.prems"(2-5), of cb s]
  show ?case
  proof (cases "next_frame s")
    case None
    then show ?thesis by (simp add: peer_handler.simps [of e cb i n s] step frames.simps [of s])
  next
    case (Some f)
    then obtain m rest where f: "next_frame s = Some (m, rest)" by (cases f) auto
    show ?thesis
    proof (cases "handle_message e cb n (fd (peers n ! i)) m")
      case None
      then show ?thesis by (simp add: peer_handler.simps [of e cb i n s] step f frames.simps [of s])
    next
      case n1: (Some n1)
      note keep = handle_message_keeps [OF "1.prems"(1) n1 next_frame_no_NUL [OF f]]
      have "peer_handler e cb i n1 rest =
          foldM (\<lambda>n m. handle_message e cb n (fd (peers n ! i)) m) n1 (frames rest)
            \<bind> (\<lambda>n'. Some (disconnect i n', []))"
        using "1.prems"(2-5) keep by (intro "1.IH" [OF f]) simp_all
      then show ?thesis
        by (simp add: peer_handler.simps [of e cb i n s] step f n1 frames.simps [of s])
    qed
  qed
qed

lemma handle_new_block_defined:
  assumes "node_inv e app_inv n" "CHR 0x00 \<notin> set p" "counted (node_chain n)"
    "tx_count (snd (protocol_deserialize_block (malloc e) p)) \<le> 10"
  shows "\<exists>n'. handle_new_block e cb n s p = Some n' \<and> counted (node_chain n')"
proof -
  obtain r b where b: "protocol_deserialize_block (malloc e) p = (r, b)" by fastforce
  have shape: "block_shape b" using protocol_deserialize_block_shape [OF assms(2), of "malloc e"] b by simp
  then have ok: "block_ok b" using assms(4) b by (simp add: block_ok_def block_consts)
  have ne: "blocks (node_chain n) \<noteq> []" using assms(1) by (simp add: node_inv_def chain_inv_def)
  have "chain_add_block (sha e) (node_chain n) b \<noteq> None"
    using assms(4) b by (simp add: chain_add_block_eq [OF ne shape])
  then obtain v c where c: "chain_add_block (sha e) (node_chain n) b = Some (v, c)" by auto
  from chain_add_block_cases [OF c ne shape] have cnt: "counted c"
    by cases (use assms(3,4) b in \<open>auto simp: counted_def\<close>)
  show ?thesis
  proof (cases "r = 0 \<and> v = 0")
    case False
    with b c assms(3) cnt show ?thesis by (auto simp: handle_new_block_def)
  next
    case True
    let ?n = "n\<lparr>node_chain := c\<rparr>"
    let ?m = "case on_new_block cb of None \<Rightarrow> ?n | Some f \<Rightarrow> f ?n b"
    have same: "same_node ?n ?m"
      using new_block_keeps [of _ ?n b] assms(1) by (auto simp: node_inv_def split: option.split)
    obtain n' where n': "broadcast_block_except e ?m b s = Some n'"
      using broadcast_block_defined [OF ok] by blast
    from broadcast_excludes [OF n'] same have "node_chain n' = c"
      by (auto simp: only_sendsD same_node_def)
    moreover have "handle_new_block e cb n s p = Some n'"
      using n' b c True by (simp add: handle_new_block_def Let_def)
    ultimately show ?thesis using cnt by simp
  qed
qed

lemma handle_message_defined:
  assumes "node_inv e app_inv n" "CHR 0x00 \<notin> set raw" "counted (node_chain n)" "counts_ok (malloc e) raw"
  shows "\<exists>n'. handle_message e cb n s raw = Some n' \<and> counted (node_chain n')"
proof -
  obtain ty payload where p: "protocol_parse_msg (malloc e) raw = (ty, payload)" by fastforce
  have nul: "CHR 0x00 \<notin> set x" if "payload = Some x" for x
    using protocol_parse_msg_chars [of "malloc e" raw ty x] p that assms(2) by auto
  have shape: "chain_shape (node_chain n)" using assms(1) by (simp add: node_inv_def chain_inv_def)
  consider (block) x where "ty = Some MSG_NEW_BLOCK" "payload = Some x"
    | (tx) x where "ty = Some MSG_NEW_TX" "payload = Some x"
    | (request) "ty = Some MSG_REQUEST_CHAIN"
    | (response) x where "ty = Some MSG_CHAIN_RESPONSE" "payload = Some x"
    | (ping) "ty = Some MSG_PING" | (other) "handle_message e cb n s raw = Some n"
    by (cases ty; cases payload; cases "the ty") (auto simp: handle_message_def p)
  then show ?thesis
  proof cases
    case (block x)
    with handle_new_block_defined [OF assms(1) nul assms(3)] assms(4) p show ?thesis
      by (simp add: handle_message_def counts_ok_def)
  next
    case (tx x)
    with handle_new_tx_inv [OF assms(1) nul] assms(3) p show ?thesis
      by (auto simp: handle_message_def same_node_def)
  next
    case request
    obtain n' where n': "handle_request_chain e n s = Some n'"
      using handle_request_chain_defined [OF shape assms(3)] by blast
    with only_sends_chain [OF n'] request p assms(3) show ?thesis
      by (auto simp: handle_message_def only_sendsD split: option.split)
  next
    case (response x)
    then have "counted (snd (protocol_deserialize_chain (malloc e) x \<lparr>blocks = []\<rparr>))"
      using assms(4) p by (simp add: counts_ok_def counted_def list_all_iff)
    from handle_chain_response_defined [OF nul [OF response(2)] this assms(3)] response p show ?thesis
      by (simp add: handle_message_def)
  next
    case ping
    obtain fds where "only_sends n fds (handle_ping e n s)" using only_sends_ping by blast
    with ping p assms(3) show ?thesis by (auto simp: handle_message_def only_sendsD split: option.split)
  qed (use assms(3) in simp)
qed

lemma peer_handler_defined:
  assumes "node_inv e app_inv n" "i < length (peers n)" "running n" "active (peers n ! i)"
    "malloc e MAX_MSG_SIZE" "counted (node_chain n)" "\<forall>m \<in> set (frames s). counts_ok (malloc e) m"
  shows "\<exists>n'. peer_handler e cb i n s = Some (n', []) \<and> node_inv e app_inv n' \<and> counted (node_chain n')
    \<and> \<not> active (peers n' ! i) \<and> fd (peers n ! i) \<in> set (closed n')"
proof -
  let ?P = "\<lambda>m. node_inv e app_inv m \<and> counted (node_chain m) \<and> peers m = peers n"
  let ?Q = "\<lambda>m. counts_ok (malloc e) m \<and> CHR 0x00 \<notin> set m"
  let ?h = "\<lambda>n m. handle_message e cb n (fd (peers n ! i)) m"
  have step: "\<exists>s'. ?h m raw = Some s' \<and> ?P s'" if "?P m" "?Q raw" for m raw
    using handle_message_defined [of e m raw "fd (peers m ! i)"] handle_message_keeps that by metis
  have "\<exists>n'. foldM ?h n (frames s) = Some n' \<and> ?P n'"
    by (rule foldM_defined [where Q = ?Q and f = ?h, OF step]) (use assms frames_no_NUL in auto)
  then obtain n' where n': "foldM ?h n (frames s) = Some n'" "?P n'" by blast
  have "node_inv e app_inv (disconnect i n')" "counted (node_chain (disconnect i n'))"
    using n'(2) assms(1) by (simp_all add: disconnect_def node_inv_def)
  moreover have "\<not> active (peers (disconnect i n') ! i)" "fd (peers n ! i) \<in> set (closed (disconnect i n'))"
    using n'(2) assms(2) by (simp_all add: disconnect_def)
  ultimately show ?thesis
    using peer_handler_frames [OF assms(1-5), of s] n'(1) by simp
qed

text \<open>The accept thread.\<close>

lemma add_peer_effect:
  assumes "node_inv e app_inv n" "add_peer e cb n s h p = Some (r, n')"
  shows "running n' = running n \<and> peers n' =
    (if length (peers n) < MAX_PEERS
     then peers n @ [\<lparr>fd = s, host = strncpy_to h 255, port = p, active = True\<rparr>] else peers n)"
proof (cases "length (peers n) < MAX_PEERS")
  case False
  with assms show ?thesis by (auto simp: add_peer_def)
next
  case True
  let ?p = "\<lparr>fd = s, host = strncpy_to h 255, port = p, active = True\<rparr>"
  let ?n = "n\<lparr>peers := peers n @ [?p]\<rparr>"
  let ?m = "node_request_chain e ?n (int (length (peers n)))"
  obtain fds where fds: "only_sends ?n fds ?m" using only_sends_request_chain by blast
  have "n' = (case on_peer_connected cb of None \<Rightarrow> ?m | Some f \<Rightarrow> f ?m s)"
    using assms(2) True by (simp_all add: add_peer_def Let_def split: if_splits)
  moreover have "app_inv (app ?m)" using assms(1) by (simp add: node_inv_def only_sendsD [OF fds])
  ultimately have "same_node ?m n'"
    using peer_connected_keeps [of _ ?m s] by (auto split: option.split)
  with True show ?thesis by (simp add: same_node_def only_sendsD [OF fds])
qed

lemma accept_thread_eq:
  assumes "node_inv e app_inv n" "running n"
  shows "accept_thread e cb n as =
    foldM (\<lambda>n (s, h, p). map_option snd (add_peer e cb n s h p)) n (filter (\<lambda>a. 0 \<le> fst a) as)"
  using assms
proof (induction as arbitrary: n)
  case (Cons a as)
  obtain s h p where a: "a = (s, h, p)" by (cases a) auto
  have "accept_thread e cb n1 as =
      foldM (\<lambda>n (s, h, p). map_option snd (add_peer e cb n s h p)) n1 (filter (\<lambda>a. 0 \<le> fst a) as)"
    if "add_peer e cb n s h p = Some (r, n1)" for r n1
    using Cons.prems add_peer_inv [OF Cons.prems(1) that] add_peer_effect [OF Cons.prems(1) that]
    by (intro Cons.IH) simp_all
  with Cons show ?case
    by (cases "add_peer e cb n s h p") (auto simp: a accept_step_def)
qed simp

end

end
