(* ===== verification/Snapshot.thy ===== *)
theory Snapshot
  imports Net
begin

text \<open>
  \<open>protocol_serialize_chain\<close> step by step, while other threads change the chain. The function reads
  \<open>chain->length\<close> three times, for the size of its buffer, for the text and in the test of its loop, and
  the blocks in between, and never takes \<open>chain->lock\<close>. \<open>Protocol\<close> has the same function as one
  operation on a chain that stands still.
\<close>

section \<open>The serialiser as a thread\<close>

text \<open>
  Where the serialiser is: in front of \<open>malloc\<close>; in front of the head of the text, with the size of the
  buffer; in front of the test of the loop, with \<open>i\<close> and with the buffer and \<open>offset\<close>; or at the end.
\<close>

datatype serialiser =
    Sizing
  | Heading nat
  | Looping nat nat "string \<times> nat"
  | Returned "string option"
  | Undefined

text \<open>One turn of the loop: \<open>Some None\<close> is the early \<open>return NULL\<close>.\<close>

definition append_block :: "allocator \<Rightarrow> nat \<Rightarrow> blockchain_t \<Rightarrow> nat \<Rightarrow> string \<times> nat \<Rightarrow> (string \<times> nat) option option" where
  "append_block al buf_size c i st = do {
     b \<leftarrow> arr_get (blocks c) i;
     r \<leftarrow> protocol_serialize_block al b;
     case r of
       None \<Rightarrow> Some None
     | Some block_json \<Rightarrow> do {
         st \<leftarrow> (if i > 0 then buf_append buf_size st '','' else Some st);
         st \<leftarrow> buf_append buf_size st block_json;
         Some (Some st)
       }
   }"

text \<open>
  A step of the serialiser on the chain as it is at that moment. A turn of the loop is one step: that a
  single block is being overwritten while it is read is not modelled.
\<close>

fun serialiser_step :: "allocator \<Rightarrow> blockchain_t \<Rightarrow> serialiser \<Rightarrow> serialiser" where
  "serialiser_step al c Sizing =
     (let buf_size = chain_length c * 16384 + 256 in
      if al buf_size then Heading buf_size else Returned None)"
| "serialiser_step al c (Heading buf_size) =
     (case buf_append buf_size ([], 0) (chain_head (chain_length c)) of
        None \<Rightarrow> Undefined
      | Some st \<Rightarrow> Looping buf_size 0 st)"
| "serialiser_step al c (Looping buf_size i st) =
     (if i < chain_length c
      then (case append_block al buf_size c i st of
              None \<Rightarrow> Undefined
            | Some None \<Rightarrow> Returned None
            | Some (Some st) \<Rightarrow> Looping buf_size (Suc i) st)
      else (case buf_append buf_size st '']}'' of
              None \<Rightarrow> Undefined
            | Some (buf, _) \<Rightarrow> Returned (Some buf)))"
| "serialiser_step al c (Returned r) = Returned r"
| "serialiser_step al c Undefined = Undefined"

text \<open>
  The serialiser next to the threads that write: they append a block, or, when \<open>rep\<close> holds, replace the
  whole chain. Each of the two is atomic, under the lock.
\<close>

inductive race :: "env \<Rightarrow> bool \<Rightarrow> blockchain_t \<times> serialiser \<Rightarrow> blockchain_t \<times> serialiser \<Rightarrow> bool"
  for e :: env and rep :: bool where
  reads: "race e rep (c, st) (c, serialiser_step (malloc e) c st)"
| appends: "chain_add_block (sha e) c b = Some (0, c') \<Longrightarrow> race e rep (c, st) (c', st)"
| replaces: "rep \<Longrightarrow> chain_replace (sha e) c other = Some (0, c') \<Longrightarrow> race e rep (c, st) (c', st)"

inductive_cases raceE: "race e rep s s'"

section \<open>Alone\<close>

lemma serialiser_stays [simp]:
  "(serialiser_step al c ^^ k) (Returned r) = Returned r" "(serialiser_step al c ^^ k) Undefined = Undefined"
  by (induction k) simp_all

lemma funpow_first: "(f ^^ Suc k) x = (f ^^ k) (f x)"
  by (simp add: funpow_swap1)

lemma serialize_blocks_step:
  "i < length (blocks c) \<Longrightarrow> serialize_blocks al sz (drop i (blocks c)) i st =
    (case append_block al sz c i st of
       None \<Rightarrow> None
     | Some None \<Rightarrow> Some None
     | Some (Some st) \<Rightarrow> serialize_blocks al sz (drop (Suc i) (blocks c)) (Suc i) st)"
  unfolding append_block_def
  by (cases "protocol_serialize_block al (blocks c ! i)";
      cases "if i > 0 then buf_append sz st '','' else Some st")
    (auto simp: Cons_nth_drop_Suc [symmetric] split: option.split bind_splits)

text \<open>The end of the function, behind the loop.\<close>

definition close_text :: "nat \<Rightarrow> (string \<times> nat) option option \<Rightarrow> serialiser" where
  "close_text sz r =
     (case r of
        None \<Rightarrow> Undefined
      | Some None \<Rightarrow> Returned None
      | Some (Some st) \<Rightarrow> (case buf_append sz st '']}'' of None \<Rightarrow> Undefined | Some (buf, _) \<Rightarrow> Returned (Some buf)))"

lemma serialiser_loop:
  assumes "i + k = chain_length c"
  shows "(serialiser_step al c ^^ Suc k) (Looping sz i st) =
    close_text sz (serialize_blocks al sz (drop i (blocks c)) i st)"
  using assms
proof (induction k arbitrary: i st)
  case 0
  then show ?case by (simp add: chain_length_def close_text_def)
next
  case (Suc k)
  then have i: "i < length (blocks c)" by (simp add: chain_length_def)
  have step: "serialiser_step al c (Looping sz i st) = (case append_block al sz c i st of
      None \<Rightarrow> Undefined | Some None \<Rightarrow> Returned None | Some (Some st) \<Rightarrow> Looping sz (Suc i) st)"
    using i by (simp add: chain_length_def)
  show ?case
    unfolding funpow_first [of "Suc k"] step serialize_blocks_step [OF i]
    using Suc by (auto simp: close_text_def simp del: funpow.simps split: option.split)
qed

section \<open>Next to threads that append\<close>

text \<open>A receiver reads as many blocks as the head names, and leaves the others.\<close>

lemma snapshot_parsed:
  assumes "0 < k" "k \<le> length bs" "k \<le> MAX_BLOCKS" "\<forall>b \<in> set bs. block_wire b" "\<forall>n. al n"
  shows "protocol_deserialize_chain al (snapshot_text k bs) c = (0, \<lparr>blocks = take k bs\<rparr>)"
proof -
  have body: "comma_sep True (map block_text bs) =
      comma_sep True (map block_text (take k bs)) @ comma_sep False (map block_text (drop k bs))"
  proof -
    have "map block_text bs = map block_text (take k bs) @ map block_text (drop k bs)"
      by (metis append_take_drop_id map_append)
    moreover have "map block_text (take k bs) \<noteq> []" using assms(1,2) by auto
    ultimately show ?thesis by (simp add: comma_sep_append)
  qed
  have "deserialize_blocks al (length (take k bs)) (comma_sep True (map block_text (take k bs))
      @ (comma_sep False (map block_text (drop k bs)) @ '']}'')) [] = (0, [] @ take k bs)"
    using assms(4,5) by (intro deserialize_blocks_eq) (auto dest: in_set_takeD)
  then show ?thesis
    using assms(1-3) by (simp add: protocol_deserialize_chain_def snapshot_text_fields body)
qed

text \<open>
  What the serialiser has when it started on a chain of \<open>n\<close> blocks: a head that names some later length,
  and the text of all blocks up to its place in the loop.
\<close>

definition snapshot_inv :: "nat \<Rightarrow> blockchain_t \<Rightarrow> serialiser \<Rightarrow> bool" where
  "snapshot_inv n c st \<longleftrightarrow> n \<le> chain_length c \<and> (case st of
      Sizing \<Rightarrow> True
    | Heading sz \<Rightarrow> n * 16384 + 256 \<le> sz
    | Looping sz i (s, off) \<Rightarrow> n * 16384 + 256 \<le> sz \<and> i \<le> chain_length c \<and> off = length s
        \<and> (\<exists>k. n \<le> k \<and> k \<le> chain_length c \<and> s = chain_head k @ comma_sep True (map block_text (take i (blocks c))))
    | Returned r \<Rightarrow> (\<exists>k j. n \<le> k \<and> k \<le> j \<and> j \<le> chain_length c \<and> r = Some (snapshot_text k (take j (blocks c))))
    | Undefined \<Rightarrow> False)"

lemma snapshot_inv_returned:
  "n \<le> k \<Longrightarrow> k \<le> j \<Longrightarrow> j \<le> chain_length c \<Longrightarrow>
    snapshot_inv n c (Returned (Some (snapshot_text k (take j (blocks c)))))"
  by (auto simp: snapshot_inv_def)

lemma added_block: "chain_add_block h c b = Some (0, c') \<Longrightarrow> c' = c\<lparr>blocks := blocks c @ [b]\<rparr>"
  by (auto simp: chain_add_block_def split: if_splits bind_splits)

lemma snapshot_inv_append:
  assumes "snapshot_inv n c st"
  shows "snapshot_inv n (c\<lparr>blocks := blocks c @ [b]\<rparr>) st"
proof (cases st)
  case (Returned r)
  with assms obtain k j where "n \<le> k" "k \<le> j" "j \<le> chain_length c" "r = Some (snapshot_text k (take j (blocks c)))"
    by (auto simp: snapshot_inv_def)
  with snapshot_inv_returned [of n k j "c\<lparr>blocks := blocks c @ [b]\<rparr>"] Returned show ?thesis
    by (simp add: chain_length_def)
qed (use assms in \<open>auto simp: snapshot_inv_def chain_length_def\<close>)

lemma length_chain_head: "k \<le> MAX_BLOCKS \<Longrightarrow> length (chain_head k) \<le> 41"
  using length_fmt_d64 [of "int k"] by (simp add: chain_head_def i64_ok_def MAX_BLOCKS_def)

lemma snapshot_body_length:
  assumes "\<forall>b \<in> set bs. block_ok b" "k \<le> MAX_BLOCKS"
  shows "length (chain_head k @ comma_sep True (map block_text bs)) \<le> 5915 * length bs + 41"
proof -
  have "length (comma_sep True (map block_text bs)) \<le> (5914 + 1) * length (map block_text bs)"
    using assms(1) by (intro length_comma_sep) (auto simp: length_block_text)
  with length_chain_head [OF assms(2)] show ?thesis by simp
qed

lemma append_block_text:
  assumes "i < length (blocks c)" "block_ok (blocks c ! i)" "\<forall>n. al n" "s \<noteq> [] \<or> i = 0"
    "length s + 5915 < sz"
  shows "append_block al sz c i (s, length s) =
    (let r = s @ (if i = 0 then [] else '','') @ block_text (blocks c ! i) in Some (Some (r, length r)))"
  using assms length_block_text [OF assms(2)]
  by (cases "i = 0") (simp_all add: append_block_def protocol_serialize_block_eq buf_append_def)

lemma snapshot_step:
  assumes "snapshot_inv n c st" "\<forall>b \<in> set (blocks c). block_ok b" "\<forall>n. al n"
    "chain_length c \<le> 2 * n" "chain_length c \<le> MAX_BLOCKS"
  shows "snapshot_inv n c (serialiser_step al c st)"
proof (cases st)
  case Sizing
  with assms(1,3) show ?thesis by (simp add: snapshot_inv_def Let_def)
next
  case (Heading sz)
  with assms(1) length_chain_head [OF assms(5)]
  have "buf_append sz ([], 0) (chain_head (chain_length c)) = Some (chain_head (chain_length c), length (chain_head (chain_length c)))"
    using buf_append_fits [of "[]" "chain_head (chain_length c)" sz] by (simp add: snapshot_inv_def)
  with assms(1) Heading show ?thesis by (auto simp: snapshot_inv_def)
next
  case (Looping sz i p)
  obtain s where p: "p = (s, length s)"
    using assms(1) Looping by (cases p) (auto simp: snapshot_inv_def)
  from assms(1) Looping p obtain k where k: "n * 16384 + 256 \<le> sz" "i \<le> chain_length c" "n \<le> k" "k \<le> chain_length c"
    "s = chain_head k @ comma_sep True (map block_text (take i (blocks c)))"
    by (auto simp: snapshot_inv_def)
  have "length s \<le> 5915 * length (take i (blocks c)) + 41"
    unfolding k(5) using assms(2,5) k(4) by (intro snapshot_body_length) (auto dest: in_set_takeD)
  moreover have "length (take i (blocks c)) = i" using k(2) by (simp add: chain_length_def)
  ultimately have len: "length s \<le> 5915 * i + 41" by simp
  show ?thesis
  proof (cases "i < chain_length c")
    case True
    then have i: "i < length (blocks c)" by (simp add: chain_length_def)
    have "i + 1 \<le> 2 * n" using True assms(4) by linarith
    then have "length s + 5915 < sz" using len k(1) by linarith
    moreover have "s \<noteq> []" by (simp add: k(5) chain_head_def)
    ultimately have "serialiser_step al c st = (let r = s @ (if i = 0 then [] else '','') @ block_text (blocks c ! i)
        in Looping sz (Suc i) (r, length r))"
      using append_block_text [OF i _ assms(3), of s sz] assms(2) True i
      by (simp add: Looping p Let_def)
    moreover have "s @ (if i = 0 then [] else '','') @ block_text (blocks c ! i) =
        chain_head k @ comma_sep True (map block_text (take (Suc i) (blocks c)))"
      by (simp add: k(5) take_Suc_conv_app_nth [OF i] comma_sep_append)
        (use i in \<open>cases "blocks c"; auto\<close>)
    ultimately show ?thesis
      using assms(1) k(1,3,4) True by (auto simp: snapshot_inv_def Let_def)
  next
    case False
    then have i: "i = chain_length c" using k(2) by simp
    have "length s + 2 < sz" using len i assms(4) k(1) by linarith
    then have "serialiser_step al c st = Returned (Some (snapshot_text k (take i (blocks c))))"
      by (simp add: Looping p i buf_append_def snapshot_text_def k(5))
    then show ?thesis using snapshot_inv_returned k(2-4) i by simp
  qed
qed (use assms(1) in \<open>simp_all add: snapshot_inv_def\<close>)

lemma race_append_prefix:
  assumes "(race e False)\<^sup>*\<^sup>* (c, st) (c', st')"
  shows "\<exists>bs. blocks c' = blocks c @ bs"
  using assms
proof (induction "(c', st')" arbitrary: c' st' rule: rtranclp_induct)
  case (step y)
  obtain c1 st1 where y: "y = (c1, st1)" by fastforce
  from step.hyps(2) [unfolded y] have "\<exists>bs. blocks c' = blocks c1 @ bs"
    by (cases rule: race.cases) (auto dest: added_block)
  with step.hyps(3) [OF y] show ?case by auto
qed simp

lemma race_inv:
  assumes "(race e False)\<^sup>*\<^sup>* (c, Sizing) (c', st)" "\<forall>b \<in> set (blocks c'). block_ok b" "\<forall>n. malloc e n"
    "chain_length c' \<le> 2 * chain_length c" "chain_length c' \<le> MAX_BLOCKS"
  shows "snapshot_inv (chain_length c) c' st"
  using assms(1,2,4,5)
proof (induction "(c', st)" arbitrary: c' st rule: rtranclp_induct)
  case base
  then show ?case by (simp add: snapshot_inv_def)
next
  case (step y)
  obtain c1 st1 where y: "y = (c1, st1)" by fastforce
  obtain bs where bs: "blocks c' = blocks c1 @ bs"
    using race_append_prefix [of e c1 st1 c' st] step.hyps(2) y by auto
  then have IH: "snapshot_inv (chain_length c) c1 st1"
    using step.prems by (intro step.hyps(3) [OF y]) (auto simp: chain_length_def)
  from step.hyps(2) [unfolded y] show ?case
  proof (cases rule: race.cases)
    case reads
    with snapshot_step [OF IH] step.prems assms(3) show ?thesis by simp
  next
    case (appends b)
    with snapshot_inv_append [OF IH] added_block [OF appends(2)] show ?thesis by simp
  qed simp
qed

section \<open>Next to a thread that replaces the chain\<close>

lemma append_block_offset:
  assumes "append_block al sz c i (buf, off) = Some (Some (buf', off'))" "\<forall>n. al n" "block_ok (blocks c ! i)"
  shows "off' = off + (if i = 0 then 0 else 1) + length (block_text (blocks c ! i))"
  using assms(1) protocol_serialize_block_eq [OF assms(3,2)]
  by (auto simp: append_block_def buf_append_def arr_get_eq_Some_iff split: if_splits bind_splits)

text \<open>Alone again, but with a buffer of any size: where the loop ends without an overflow, \<open>offset\<close> counts all.\<close>

lemma serialize_blocks_offset:
  assumes "\<forall>b \<in> set bs. block_ok b" "\<forall>n. al n"
  shows "serialize_blocks al sz bs i (buf, off) = None
    \<or> (\<exists>buf'. serialize_blocks al sz bs i (buf, off) =
          Some (Some (buf', off + length (comma_sep (i = 0) (map block_text bs)))))"
  using assms(1)
proof (induction bs arbitrary: i buf off)
  case (Cons b bs)
  have b: "protocol_serialize_block al b = Some (Some (block_text b))"
    using Cons.prems assms(2) by (simp add: protocol_serialize_block_eq)
  let ?off = "off + (if i = 0 then 0 else 1) + length (block_text b)"
  obtain r where r: "r = (if i > 0 then buf_append sz (buf, off) '','' else Some (buf, off)) \<bind>
      (\<lambda>st. buf_append sz st (block_text b))" by simp
  then have eq: "serialize_blocks al sz (b # bs) i (buf, off) = r \<bind> serialize_blocks al sz bs (Suc i)"
    by (cases "i > 0"; cases "buf_append sz (buf, off) '',''") (simp_all add: b)
  show ?case
  proof (cases r)
    case None
    then show ?thesis unfolding eq by simp
  next
    case (Some st)
    then obtain buf1 where "st = (buf1, ?off)"
      using r by (auto simp: buf_append_def split: if_splits bind_splits)
    with Some Cons.IH [of "Suc i" buf1 ?off] Cons.prems show ?thesis
      unfolding eq by (cases "i = 0") (simp_all add: add.assoc del: serialize_blocks.simps)
  qed
qed simp

lemma serialiser_overflows:
  assumes "\<forall>b \<in> set (blocks c). block_ok b" "\<forall>n. al n" "chain_length c \<le> MAX_BLOCKS" "256 \<le> sz"
    "sz + 2 < length (chain_text c)"
  shows "(serialiser_step al c ^^ (chain_length c + 2)) (Heading sz) = Undefined"
proof -
  let ?h = "chain_head (chain_length c)" and ?b = "comma_sep True (map block_text (blocks c))"
  have "buf_append sz ([], 0) ?h = Some (?h, length ?h)"
    using buf_append_fits [of "[]" ?h sz] length_chain_head [OF assms(3)] assms(4) by simp
  then have "(serialiser_step al c ^^ Suc (Suc (chain_length c))) (Heading sz) =
      close_text sz (serialize_blocks al sz (blocks c) 0 (?h, length ?h))"
    unfolding funpow_first [of "Suc _"] using serialiser_loop [of 0 "chain_length c" c al sz] by simp
  moreover have "sz < length ?h + length ?b" using assms(5) by (simp add: chain_text_snapshot snapshot_text_def)
  then have "close_text sz (serialize_blocks al sz (blocks c) 0 (?h, length ?h)) = Undefined"
    using serialize_blocks_offset [OF assms(1,2), of sz 0 ?h "length ?h"]
    by (auto simp: close_text_def buf_append_def)
  ultimately show ?thesis by (simp add: numeral_2_eq_2)
qed

lemma block_text_long:
  assumes "sealed h b"
  shows "149 \<le> length (block_text b)"
proof -
  have "length (hash b) = 64" using assms by (simp add: sealed_def)
  then show ?thesis by (simp add: block_text_def block_format_def)
qed

lemma comma_sep_long: "\<forall>x \<in> set xs. m \<le> length x \<Longrightarrow> m * length xs \<le> length (comma_sep first xs)"
  by (induction first xs rule: comma_sep.induct) auto

lemma tail_sealed:
  assumes "links h xs"
  shows "\<forall>x \<in> set (tl xs). sealed h x"
proof
  fix x assume "x \<in> set (tl xs)"
  then obtain i where "i < length (tl xs)" "x = tl xs ! i" by (auto simp: in_set_conv_nth)
  then have "0 < Suc i" "Suc i < length xs" "xs ! Suc i = x" by (simp_all add: nth_tl)
  with assms show "sealed h x" unfolding links_def link_ok_def by metis
qed

lemma chain_text_long:
  assumes "links h (blocks c)"
  shows "149 * (chain_length c - 1) \<le> length (chain_text c)"
proof (cases "blocks c")
  case (Cons b bs)
  have "\<forall>x \<in> set bs. sealed h x" using tail_sealed [OF assms] by (simp add: Cons)
  then have "149 * length (map block_text bs) \<le> length (comma_sep False (map block_text bs))"
    by (intro comma_sep_long) (auto intro: block_text_long)
  then show ?thesis by (simp add: Cons chain_text_def chain_length_def)
qed (simp add: chain_length_def)

lemma race_reads: "(race e rep)\<^sup>*\<^sup>* (c, st) (c, (serialiser_step (malloc e) c ^^ k) st)"
  by (induction k) (auto intro: rtranclp.rtrancl_into_rtrancl reads)

section \<open>Properties\<close>

text \<open>
  The small steps are the function: when no other thread touches the chain, the steps of the serialiser,
  one for the buffer, one for the head and one for each test of the loop, end with exactly what
  \<open>protocol_serialize_chain\<close> returns, the early returns and the undefined cases included.
\<close>

theorem serialiser_alone:
  "(serialiser_step al c ^^ (chain_length c + 3)) Sizing =
    (case protocol_serialize_chain al c of None \<Rightarrow> Undefined | Some r \<Rightarrow> Returned r)"
proof -
  let ?sz = "chain_length c * 16384 + 256"
  have k: "chain_length c + 3 = Suc (Suc (Suc (chain_length c)))" by simp
  have loop: "(serialiser_step al c ^^ Suc (chain_length c)) (Looping ?sz 0 st) =
      close_text ?sz (serialize_blocks al ?sz (blocks c) 0 st)" for st
    using serialiser_loop [of 0 "chain_length c" c al ?sz st] by simp
  show ?thesis
  proof (cases "al ?sz")
    case False
    then show ?thesis
      unfolding k funpow_first by (simp add: protocol_serialize_chain_def del: funpow.simps)
  next
    case True
    have two: "(serialiser_step al c ^^ (chain_length c + 3)) Sizing =
        (case buf_append ?sz ([], 0) (chain_head (chain_length c)) of
           None \<Rightarrow> Undefined | Some st \<Rightarrow> close_text ?sz (serialize_blocks al ?sz (blocks c) 0 st))"
      unfolding k funpow_first [of "Suc (Suc _)"] funpow_first [of "Suc _" _ "serialiser_step _ _ _"]
      using True by (simp add: loop del: funpow.simps split: option.split)
    show ?thesis
      unfolding two using True
      by (simp add: protocol_serialize_chain_def chain_head_def close_text_def Let_def
          split: option.split prod.split bind_splits)
  qed
qed

text \<open>
  C16. Serialising without the lock is harmless next to threads that append: when the chain does not more
  than double meanwhile, the buffer never overflows, and what the receiver of the text parses is the chain
  as it was at one moment between start and end, namely when it had \<open>k\<close> blocks.
\<close>

theorem snapshot_of_appends:
  assumes "(race e False)\<^sup>*\<^sup>* (c, Sizing) (c', st)" "\<forall>n. malloc e n" "blocks c \<noteq> []"
    "\<forall>b \<in> set (blocks c'). block_wire b" "chain_length c' \<le> 2 * chain_length c" "chain_length c' \<le> MAX_BLOCKS"
  shows "st \<noteq> Undefined \<and> (\<forall>r. st = Returned r \<longrightarrow> (\<exists>txt k. r = Some txt
    \<and> chain_length c \<le> k \<and> k \<le> chain_length c'
    \<and> protocol_deserialize_chain (malloc e) txt \<lparr>blocks = []\<rparr> = (0, \<lparr>blocks = take k (blocks c')\<rparr>)))"
proof -
  have ok: "\<forall>b \<in> set (blocks c'). block_ok b" using assms(4) by (simp add: block_wire_def)
  have inv: "snapshot_inv (chain_length c) c' st" by (rule race_inv [OF assms(1) ok assms(2,5,6)])
  show ?thesis
  proof (cases st)
    case (Returned r)
    with inv obtain k j where k: "chain_length c \<le> k" "k \<le> j" "j \<le> chain_length c'"
      "r = Some (snapshot_text k (take j (blocks c')))" by (auto simp: snapshot_inv_def)
    have "protocol_deserialize_chain (malloc e) (snapshot_text k (take j (blocks c'))) \<lparr>blocks = []\<rparr>
        = (0, \<lparr>blocks = take k (take j (blocks c'))\<rparr>)"
      using k(1-3) assms(2-4,6)
      by (intro snapshot_parsed) (auto simp: chain_length_def simp flip: length_greater_0_conv dest: in_set_takeD)
    with k Returned show ?thesis by (auto simp: min_def)
  qed (use inv in \<open>simp_all add: snapshot_inv_def\<close>)
qed

lemma close_text_ends: "close_text sz r = Undefined \<or> (\<exists>x. close_text sz r = Returned x)"
  by (auto simp: close_text_def split: option.split)

theorem snapshot_of_appends_witness:
  "\<exists>txt k. (race demo_env False)\<^sup>*\<^sup>* (\<lparr>blocks = [demo_genesis]\<rparr>, Sizing) (demo_chain, Returned (Some txt))
    \<and> 1 \<le> k \<and> protocol_deserialize_chain alloc_ok txt \<lparr>blocks = []\<rparr> = (0, \<lparr>blocks = take k (blocks demo_chain)\<rparr>)"
proof -
  let ?c = "\<lparr>blocks = [demo_genesis]\<rparr>"
  have al: "\<forall>n. malloc demo_env n" by (simp add: alloc_ok_def)
  have add: "chain_add_block (sha demo_env) ?c demo_block = Some (0, demo_chain)"
    by (simp add: chain_add_block_eq block_okD(1) chain_length_def MAX_BLOCKS_def demo_chain_def)
  let ?l = "(serialiser_step (malloc demo_env) ?c ^^ 2) Sizing"
  let ?st = "(serialiser_step (malloc demo_env) demo_chain ^^ 3) ?l"
  obtain sz p where "?l = Looping sz 0 p"
    using al length_chain_head [of 1]
    by (auto simp: numeral_2_eq_2 Let_def chain_length_def buf_append_def MAX_BLOCKS_def split: option.split)
  then have ends: "?st = Undefined \<or> (\<exists>x. ?st = Returned x)"
    using serialiser_loop [of 0 2 demo_chain "malloc demo_env" sz p] close_text_ends
    by (simp add: demo_chain_def chain_length_def numeral_3_eq_3 numeral_2_eq_2 del: funpow.simps)
  have path: "(race demo_env False)\<^sup>*\<^sup>* (?c, Sizing) (demo_chain, ?st)"
    by (rule rtranclp_trans [OF rtranclp.rtrancl_into_rtrancl [OF race_reads appends [OF add]] race_reads])
  have "\<forall>b \<in> set (blocks demo_chain). block_wire b" by (simp add: demo_chain_def)
  with snapshot_of_appends [OF path al] ends path show ?thesis
    by (fastforce simp: demo_chain_def chain_length_def MAX_BLOCKS_def)
qed

text \<open>
  C33. Serialising without the lock is not harmless next to a thread that replaces the chain: the buffer is
  sized for the old chain and the loop runs to the end of the new one. Whenever a chain arrives that is
  valid and 120 times as long as the node's own, the answer to another peer's request can write past the
  end of its buffer.
\<close>

theorem replaced_while_serialised:
  assumes "\<forall>n. malloc e n" "blocks c \<noteq> []" "chain_shape c'" "\<forall>b \<in> set (blocks c'). block_ok b"
    "links (sha e) (blocks c')" "120 * chain_length c \<le> chain_length c'"
  shows "(race e True)\<^sup>*\<^sup>* (c, Sizing) (c', Undefined)"
proof -
  let ?sz = "chain_length c * 16384 + 256"
  have n: "1 \<le> chain_length c" using assms(2) by (simp add: chain_length_def Suc_le_eq)
  then have "chain_replace (sha e) c c' = Some (0, c')"
    using assms(5,6) by (simp add: chain_replace_eq [OF assms(3)])
  then have rep: "race e True (c, Heading ?sz) (c', Heading ?sz)" by (rule replaces [OF TrueI])
  have "race e True (c, Sizing) (c, Heading ?sz)"
    using reads [of e True c Sizing] assms(1) by (simp add: Let_def)
  moreover have "?sz + 2 < length (chain_text c')"
    using chain_text_long [OF assms(5)] assms(6) n by linarith
  then have "(serialiser_step (malloc e) c' ^^ (chain_length c' + 2)) (Heading ?sz) = Undefined"
    using assms(3) by (intro serialiser_overflows [OF assms(4,1)]) (simp_all add: chain_shape_def)
  then have "(race e True)\<^sup>*\<^sup>* (c', Heading ?sz) (c', Undefined)"
    using race_reads [of e True c' "Heading ?sz"] by metis
  ultimately show ?thesis using rep by (meson converse_rtranclp_into_rtranclp)
qed

theorem replaced_while_serialised_witness:
  "(race demo_env True)\<^sup>*\<^sup>* (\<lparr>blocks = [demo_genesis]\<rparr>, Sizing)
     (\<lparr>blocks = demo_genesis # replicate 119 demo_block\<rparr>, Undefined)"
proof (rule replaced_while_serialised)
  let ?bs = "demo_genesis # replicate 119 demo_block"
  have "link_ok zero_sha demo_block demo_block" using demo_block_facts(4) by (simp add: link_ok_def)
  then show "links (sha demo_env) (blocks \<lparr>blocks = ?bs\<rparr>)"
    by (auto simp: links_def nth_Cons')
  show "chain_shape \<lparr>blocks = ?bs\<rparr>"
    using block_okD(1) by (auto simp: chain_shape_def chain_length_def MAX_BLOCKS_def)
qed (auto simp: alloc_ok_def chain_length_def)

end
