(* ===== verification/Oversize.thy ===== *)
theory Oversize
  imports Reader Snapshot
begin

text \<open>
  A chain that is too long for one message. \<open>read_message\<close> takes \<open>MAX_MSG_SIZE - 1\<close> bytes and hands them on
  as if they were the message, and the rest of the line as further messages. Here is what the parsers make
  of such pieces: the scanners run to the end of the text, the blocks in front of the cut are read, the one
  that is cut counts or not, and in the rest there is no type to be found.
\<close>

section \<open>Scanners and searches on a text that is cut\<close>

lemma payload_scan_stops:
  "length (payload_scan b s d xs) < length xs \<Longrightarrow> payload_scan b s d (xs @ ys) = payload_scan b s d xs"
  by (induction xs arbitrary: b s d) (auto simp: Let_def split: if_splits)

lemma payload_scan_prefix: "\<exists>r. xs = payload_scan b s d xs @ r"
  by (induction xs arbitrary: b s d) (auto simp: Let_def)

lemma payload_scan_cut:
  assumes "payload_ok body" "ys = p @ t" "ys = body @ ''}''"
  shows "payload_scan False False 0 (CHR ''{'' # p) = CHR ''{'' # p"
proof -
  let ?r = "payload_scan False False 0 (CHR ''{'' # p)"
  obtain r where r: "CHR ''{'' # p = ?r @ r" using payload_scan_prefix by blast
  have "length (CHR ''{'' # p) \<le> length ?r"
  proof (rule ccontr)
    assume "\<not> length (CHR ''{'' # p) \<le> length ?r"
    then have less: "length ?r < length (CHR ''{'' # p)" by linarith
    from payload_scan_stops [OF less, of t] have "payload_scan False False 0 (CHR ''{'' # ys) = ?r"
      by (simp add: assms(2))
    moreover have "payload_scan False False 0 (CHR ''{'' # ys) = CHR ''{'' # ys"
      using payload_scan_object [OF assms(1), of "[]"] by (simp add: assms(3))
    ultimately have "length ?r = Suc (length ys)" by simp
    with less show False by (simp add: assms(2))
  qed
  with arg_cong [OF r, of length] have "r = []" by simp
  with r show ?thesis by (metis append_Nil2)
qed

lemma brace_scan_stops:
  "brace_scan d xs = (a, r) \<Longrightarrow> r \<noteq> [] \<Longrightarrow> brace_scan d (xs @ ys) = (a, r @ ys)"
  by (induction xs arbitrary: d a) (auto simp: Let_def split: if_splits prod.splits)

lemma brace_scan_parts: "brace_scan d xs = (a, r) \<Longrightarrow> a @ r = xs"
  by (induction xs arbitrary: d a r) (auto simp: Let_def split: if_splits prod.splits)

lemma brace_scan_cut:
  assumes "brace_object (p @ t)"
  shows "brace_scan 0 p = (p, [])"
proof -
  obtain a r where scan: "brace_scan 0 p = (a, r)" by fastforce
  moreover have "r = []"
  proof (rule ccontr)
    assume "r \<noteq> []"
    from brace_scan_stops [OF scan this, of t] brace_object_scan(2) [OF assms, of "[]"] \<open>r \<noteq> []\<close>
    show False by simp
  qed
  ultimately show ?thesis using brace_scan_parts [OF scan] by simp
qed

lemma is_prefix_extend: "is_prefix pat xs \<Longrightarrow> is_prefix pat (xs @ ys)"
  by (auto simp: is_prefix_iff)

lemma strstr_prefix: "strstr xs pat = Some q \<Longrightarrow> is_prefix pat q \<and> (\<exists>u. xs = u @ q)"
  by (induction xs) (auto split: if_splits intro: exI [of _ "_ # _"])

lemma strstr_extend: "strstr xs pat = Some q \<Longrightarrow> strstr (xs @ ys) pat = Some (q @ ys)"
proof (induction xs)
  case (Cons x xs)
  show ?case
  proof (cases "is_prefix pat (x # xs)")
    case True
    with Cons.prems is_prefix_extend [OF True, of ys] show ?thesis by auto
  next
    case False
    with Cons.prems have q: "strstr xs pat = Some q" by simp
    have "length pat \<le> length xs"
      using strstr_prefix [OF q] by (auto simp: is_prefix_iff)
    with False have "\<not> is_prefix pat (x # xs @ ys)"
      by (auto simp: is_prefix_iff append_eq_append_conv2 append_eq_Cons_conv Cons_eq_append_conv)
    with Cons.IH [OF q] show ?thesis by simp
  qed
next
  case Nil
  then show ?case by (cases ys) (auto split: if_splits)
qed

section \<open>Texts without a key\<close>

text \<open>
  \<open>names seps k xs\<close>: somewhere in \<open>xs\<close> stands \<open>k\<close> in quotes and behind it one of the characters \<open>seps\<close>. The
  search for a key looks for a colon first and then for a blank and a colon.
\<close>

fun names_at :: "string \<Rightarrow> string \<Rightarrow> string \<Rightarrow> bool" where
  "names_at seps [] (x # y # ys) \<longleftrightarrow> x = DQ \<and> y \<in> set seps"
| "names_at seps [] _ \<longleftrightarrow> False"
| "names_at seps (a # k) [] \<longleftrightarrow> False"
| "names_at seps (a # k) (x # xs) \<longleftrightarrow> a = x \<and> names_at seps k xs"

fun names :: "string \<Rightarrow> string \<Rightarrow> string \<Rightarrow> bool" where
  "names seps k [] \<longleftrightarrow> False"
| "names seps k (x # xs) \<longleftrightarrow> x = DQ \<and> names_at seps k xs \<or> names seps k xs"

lemma names_at_iff: "names_at seps k xs \<longleftrightarrow> (\<exists>y r. y \<in> set seps \<and> xs = k @ DQ # y # r)"
  by (induction seps k xs rule: names_at.induct) auto

lemma names_iff: "names seps k xs \<longleftrightarrow> (\<exists>u y r. y \<in> set seps \<and> xs = u @ DQ # k @ DQ # y # r)"
proof (induction xs)
  case (Cons x xs)
  have "(\<exists>u y r. y \<in> set seps \<and> x # xs = u @ DQ # k @ DQ # y # r) \<longleftrightarrow>
      x = DQ \<and> (\<exists>y r. y \<in> set seps \<and> xs = k @ DQ # y # r) \<or> (\<exists>u y r. y \<in> set seps \<and> xs = u @ DQ # k @ DQ # y # r)"
    unfolding Cons_eq_append_conv by blast
  with Cons show ?case by (simp add: names_at_iff)
qed simp

lemma names_infix: "\<not> names seps k (u @ xs @ v) \<Longrightarrow> \<not> names seps k xs"
  unfolding names_iff by (metis append.assoc append_Cons)

lemma names_skip: "DQ \<notin> set v \<Longrightarrow> names seps k (v @ ys) = names seps k ys"
  by (induction v) auto

lemma names_at_value:
  "DQ \<notin> set k \<Longrightarrow> DQ \<notin> set v \<Longrightarrow> c \<notin> set seps \<Longrightarrow> names_at seps k (v @ DQ # c # ys) = False"
proof (induction k arbitrary: v)
  case Nil
  then show ?case by (cases v; cases "tl v") auto
next
  case (Cons a k)
  then show ?case by (cases v) auto
qed

lemma names_strstr:
  assumes "\<not> names seps k xs" "y \<in> set seps"
  shows "strstr xs (DQ # k @ DQ # y # r) = None"
proof (rule ccontr)
  assume "strstr xs (DQ # k @ DQ # y # r) \<noteq> None"
  then obtain q where "strstr xs (DQ # k @ DQ # y # r) = Some q" by blast
  from strstr_prefix [OF this] have "\<exists>u r. xs = u @ DQ # k @ DQ # y # r" by (auto simp: is_prefix_iff)
  with assms show False unfolding names_iff by blast
qed

lemma names_no_key:
  assumes "\<not> names '': '' k xs" "length k < 100"
  shows "json_find_key xs k = None"
  using names_strstr [OF assms(1), of "CHR '':''" "[]"] names_strstr [OF assms(1), of "CHR '' ''" "'':''"] assms(2)
  by (simp add: json_find_key_def snprintf_def)

lemmas names_simps = names_skip names_at_value plainD

lemma names_tx:
  assumes "tx_wire t"
  shows "names '': '' ''type'' (tx_text t @ r) = names '': '' ''type'' r"
    "names '' '' ''tx_count'' (tx_text t @ r) = names '' '' ''tx_count'' r"
  using assms by (simp_all add: tx_text_def tx_format_def tx_wire_def plain_esc names_simps)

lemma names_comma_sep:
  assumes "\<forall>x \<in> set xs. \<forall>r. names seps k (x @ r) = names seps k r"
  shows "names seps k (comma_sep first xs @ r) = names seps k r"
  using assms by (induction first xs rule: comma_sep.induct) auto

lemma names_block:
  assumes "block_wire b"
  shows "names '': '' ''type'' (block_text b @ r) = names '': '' ''type'' r"
    "names '' '' ''tx_count'' (block_text b @ r) = names '' '' ''tx_count'' r"
proof -
  have b: "plain (prev_hash b)" "plain (hash b)" and t: "\<forall>t \<in> set (block_txs b). tx_wire t"
    using assms by (simp_all add: block_wire_def)
  have 1: "names '': '' ''type'' (comma_sep True (map tx_text (block_txs b)) @ x) = names '': '' ''type'' x"
    and 2: "names '' '' ''tx_count'' (comma_sep True (map tx_text (block_txs b)) @ x) = names '' '' ''tx_count'' x" for x
    by (rule names_comma_sep, use t in \<open>simp add: names_tx\<close>)+
  show "names '': '' ''type'' (block_text b @ r) = names '': '' ''type'' r"
    "names '' '' ''tx_count'' (block_text b @ r) = names '' '' ''tx_count'' r"
    using b by (simp_all add: block_text_head block_head_def txs_text_def names_simps 1 2)
qed

section \<open>The block that is cut\<close>

lemma digits_cut:
  assumes "0 \<le> i" "i \<le> 10" "fmt_d i @ CHR '','' # r = x @ t"
  shows "c_int (strtol (dropWhile (\<lambda>c. c = CHR '' '' \<or> c = CHR 0x09) x)) \<le> 10"
proof -
  consider y where "x = fmt_d i @ CHR '','' # y" | u where "fmt_d i = x @ u"
    using assms(3) by (auto simp: append_eq_append_conv2 Cons_eq_append_conv)
  then show ?thesis
  proof cases
    case 1
    have "c_int (strtol (fmt_d i @ CHR '','' # y)) = i"
      by (rule strtol_fmt_d) (use assms in \<open>simp_all add: is_digit_def char_code_def\<close>)
    with 1 assms(2) show ?thesis by (simp add: fmt_d_not_blank)
  next
    case 2
    have "i \<in> {0, 1, 2, 3, 4, 5, 6, 7, 8, 9, 10}" using assms(1,2) by (simp; presburger)
    then have "x \<in> {[], ''1''} \<or> x = fmt_d i"
      using 2 by (auto simp: fmt_d_def clib append_eq_Cons_conv Cons_eq_append_conv)
    moreover have "c_int (strtol (fmt_d i @ [])) = i"
      by (rule strtol_fmt_d) (use assms in simp_all)
    moreover have "c_int (strtol []) = 0" "c_int (strtol ''1'') = 1"
      by code_simp+
    moreover have "dropWhile (\<lambda>c. c = CHR '' '' \<or> c = CHR 0x09) (fmt_d i) = fmt_d i"
      using fmt_d_not_blank [of i "[]"] by simp
    ultimately show ?thesis using assms(2) by auto
  qed
qed

lemma cut_block_count:
  assumes "block_wire b" "block_text b = p @ t" "json_get_int p ''tx_count'' = Some n"
  shows "n \<le> 10"
proof -
  let ?pat = "DQ # ''tx_count'' @ [DQ, CHR '':'']"
  define txs where "txs = ''\"transactions\":'' @ txs_text (block_txs b) @ ''}''"
  let ?val = "fmt_d (tx_count b) @ CHR '','' # txs"
  have "\<not> names '' '' ''tx_count'' (p @ t)"
    using names_block(2) [OF assms(1), of "[]"] by (simp add: assms(2))
  then have "strstr p (DQ # ''tx_count'' @ DQ # CHR '' '' # '':'') = None"
    using names_infix [of "'' ''" "''tx_count''" "[]" p t] by (intro names_strstr [of "'' ''"]) simp_all
  with assms(3) obtain q where q: "strstr p ?pat = Some q"
    and n: "\<exists>v. strchr q (CHR '':'') = Some v \<and> n = c_int (strtol (dropWhile (\<lambda>c. c = CHR '' '' \<or> c = CHR 0x09) (tl v)))"
    by (auto simp: json_get_int_def json_find_key_def snprintf_def split: option.splits)
  have b: "plain (prev_hash b)" "plain (hash b)" "0 \<le> tx_count b" "tx_count b \<le> 10"
    using assms(1) by (simp_all add: block_wire_def block_ok_def block_consts)
  have "after_key ''tx_count'' (block_text b) = Some ?val"
    using b(1,2) by (simp add: block_text_head block_head_def txs_def clib plainD)
  from after_key_strstr [OF this] strstr_extend [OF q, of t]
  have val: "q @ t = ?pat @ ?val" by (simp add: assms(2))
  moreover obtain x where x: "q = ?pat @ x" using strstr_prefix [OF q] unfolding is_prefix_iff by blast
  ultimately have "?val = x @ t" by simp
  from digits_cut [OF b(3,4) this] n show ?thesis by (simp add: x)
qed

lemma cut_block_counted:
  assumes "block_wire b" "block_text b = p @ t" "protocol_deserialize_block al p = (0, x)"
  shows "tx_count x \<le> 10"
  using assms(3) cut_block_count [OF assms(1,2)]
  by (auto simp: protocol_deserialize_block_def Let_def split: option.splits if_splits prod.splits)

section \<open>The chain that is cut\<close>

lemma cut_blocks:
  assumes "m < length (comma_sep first (map block_text bs))"
  shows "\<exists>j sep p t. j < length bs \<and> sep \<in> {[], '',''} \<and> block_text (bs ! j) = p @ t
    \<and> take m (comma_sep first (map block_text bs)) = comma_sep first (map block_text (take j bs)) @ sep @ p"
  using assms
proof (induction bs arbitrary: first m)
  case (Cons b bs)
  define sep where "sep = (if first then [] else '','')"
  have sep: "comma_sep first (map block_text (b # bs)) = sep @ block_text b @ comma_sep False (map block_text bs)"
    by (simp add: sep_def)
  show ?case
  proof (cases "m < length sep + length (block_text b)")
    case True
    then have "take m (comma_sep first (map block_text (b # bs))) =
        take m sep @ take (m - length sep) (block_text b)"
      unfolding sep by simp
    moreover have "take m sep \<in> {[], '',''}" by (cases m) (simp_all add: sep_def)
    moreover have "block_text b = take (m - length sep) (block_text b) @ drop (m - length sep) (block_text b)" by simp
    ultimately have "0 < length (b # bs) \<and> take m sep \<in> {[], '',''}
      \<and> block_text ((b # bs) ! 0) = take (m - length sep) (block_text b) @ drop (m - length sep) (block_text b)
      \<and> take m (comma_sep first (map block_text (b # bs))) =
        comma_sep first (map block_text (take 0 (b # bs))) @ take m sep @ take (m - length sep) (block_text b)"
      by simp
    then show ?thesis by blast
  next
    case False
    let ?m = "m - length (sep @ block_text b)"
    have "?m < length (comma_sep False (map block_text bs))" using False Cons.prems unfolding sep by simp
    from Cons.IH [OF this] obtain j sp p t where j: "j < length bs" "sp \<in> {[], '',''}" "block_text (bs ! j) = p @ t"
      and cut: "take ?m (comma_sep False (map block_text bs)) = comma_sep False (map block_text (take j bs)) @ sp @ p"
      by blast
    have "take m (comma_sep first (map block_text (b # bs))) =
        comma_sep first (map block_text (take (Suc j) (b # bs))) @ sp @ p"
      using False cut unfolding sep by (simp add: sep_def)
    moreover have "Suc j < length (b # bs)" "block_text ((b # bs) ! Suc j) = p @ t" using j by simp_all
    ultimately show ?thesis using j(2) by blast
  qed
qed simp

lemma cut_block_read:
  assumes "\<forall>n. al n" "block_wire b" "block_text b = p @ t" "sep \<in> {[], '',''}"
  shows "\<exists>r xs. deserialize_blocks al k (sep @ p) acc = (r, acc @ xs) \<and> length xs \<le> 1 \<and> (\<forall>x \<in> set xs. tx_count x \<le> 10)"
proof (cases "k = 0 \<or> p = []")
  case True
  then have "deserialize_blocks al k (sep @ p) acc = (0, acc @ [])"
    using assms(4) by (cases k) auto
  then show ?thesis by fastforce
next
  case False
  then obtain k' p' where k: "k = Suc k'" "p = CHR ''{'' # p'"
    using assms(3) by (cases k; cases p) (auto simp: block_text_head)
  then have find: "strchr (sep @ p) (CHR ''{'') = Some p" using assms(4) by auto
  have scan: "brace_scan 0 p = (p, [])"
    using block_wire_text(2) [OF assms(2)] by (intro brace_scan_cut [of p t]) (simp add: assms(3))
  obtain r x where x: "protocol_deserialize_block al p = (r, x)" by fastforce
  show ?thesis
  proof (cases "r = 0")
    case True
    have "deserialize_blocks al k' [] (acc @ [x]) = (0, acc @ [x])" by (cases k') simp_all
    then have "deserialize_blocks al k (sep @ p) acc = (0, acc @ [x])"
      using find scan x True assms(1) by (simp add: k(1))
    moreover have "tx_count x \<le> 10" using cut_block_counted [OF assms(2,3)] x True by simp
    ultimately show ?thesis by (intro exI [of _ 0] exI [of _ "[x]"]) simp
  next
    case False
    then have "deserialize_blocks al k (sep @ p) acc = (- 1, acc @ [])"
      using find scan x assms(1) by (simp add: k(1))
    then show ?thesis by fastforce
  qed
qed

text \<open>A chain whose text ends inside the body: the blocks in front of the cut, and perhaps the one that is cut.\<close>

lemma cut_chain_read:
  assumes "\<forall>n. al n" "\<forall>b \<in> set bs. block_wire b" "0 < k" "k \<le> MAX_BLOCKS" "length bs \<le> k"
    "m < length (comma_sep True (map block_text bs))"
  shows "\<exists>r j xs. j < length bs \<and> length xs \<le> 1 \<and> (\<forall>x \<in> set xs. tx_count x \<le> 10)
    \<and> protocol_deserialize_chain al (chain_head k @ take m (comma_sep True (map block_text bs))) \<lparr>blocks = []\<rparr>
      = (r, \<lparr>blocks = take j bs @ xs\<rparr>)"
proof -
  obtain j sep p t where j: "j < length bs" "sep \<in> {[], '',''}" "block_text (bs ! j) = p @ t"
    and cut: "take m (comma_sep True (map block_text bs)) = comma_sep True (map block_text (take j bs)) @ sep @ p"
    using cut_blocks [OF assms(6)] by blast
  have b: "block_wire (bs ! j)" "\<forall>b \<in> set (take j bs). block_wire b"
    using assms(2) j(1) by (auto dest: in_set_takeD)
  obtain r xs where xs: "deserialize_blocks al (k - j) (sep @ p) (take j bs) = (r, take j bs @ xs)"
    "length xs \<le> 1" "\<forall>x \<in> set xs. tx_count x \<le> 10"
    using cut_block_read [OF assms(1) b(1) j(3,2), of "k - j" "take j bs"] by blast
  have "length (take j bs) + (k - j) = k" using j(1) assms(5) by simp
  with deserialize_blocks_front [OF assms(1) b(2), of "k - j" True "sep @ p" "[]"] xs(1)
  have "deserialize_blocks al k (take m (comma_sep True (map block_text bs))) [] = (r, take j bs @ xs)"
    by (simp add: cut)
  then have "protocol_deserialize_chain al (chain_head k @ take m (comma_sep True (map block_text bs))) \<lparr>blocks = []\<rparr>
      = (r, \<lparr>blocks = take j bs @ xs\<rparr>)"
    using assms(3,4) by (simp add: protocol_deserialize_chain_def chain_head_fields)
  with j(1) xs(2,3) show ?thesis by blast
qed

section \<open>The rest of the line\<close>

lemma frames_infix:
  assumes "m \<in> set (frames s)" "CHR 0x00 \<notin> set s"
  shows "\<exists>u v. s = u @ m @ v"
  using assms
proof (induction s rule: frames.induct)
  case (1 s)
  then obtain f r where f: "next_frame s = Some (f, r)" by (cases "next_frame s") (auto simp: frames.simps [of s])
  define l where "l = takeWhile (\<lambda>c. c \<noteq> CHR 0x0A) (take (MAX_MSG_SIZE - 1) s)"
  have "set l \<subseteq> set s" by (auto simp: l_def dest!: set_takeWhileD dest: in_set_takeD)
  then have "c_string l = l" using "1.prems"(2) by (intro c_string_id) blast
  moreover have "next_frame s = (if length l = MAX_MSG_SIZE - 1 then Some (c_string l, drop (MAX_MSG_SIZE - 1) s)
      else if length l < length s then Some (c_string l, drop (Suc (length l)) s) else None)"
    by (simp only: next_frame_def l_def Let_def)
  ultimately have r: "f = l" "\<exists>k. r = drop k s" using f by (auto split: if_splits)
  show ?case
  proof (cases "m = f")
    case True
    have "take (MAX_MSG_SIZE - 1) s = l @ dropWhile (\<lambda>c. c \<noteq> CHR 0x0A) (take (MAX_MSG_SIZE - 1) s)" by (simp add: l_def)
    then have "s = [] @ l @ dropWhile (\<lambda>c. c \<noteq> CHR 0x0A) (take (MAX_MSG_SIZE - 1) s) @ drop (MAX_MSG_SIZE - 1) s"
      by (metis append.assoc append_Nil append_take_drop_id)
    with True r(1) show ?thesis by blast
  next
    case False
    obtain k where k: "r = drop k s" using r(2) by blast
    have "m \<in> set (frames r)" using "1.prems"(1) False f by (simp add: frames.simps [of s])
    moreover have "CHR 0x00 \<notin> set r" using "1.prems"(2) k by (auto dest: in_set_dropD)
    ultimately obtain u v where "r = u @ m @ v" using "1.IH" [OF f] by blast
    then have "s = (take k s @ u) @ m @ v" using append_take_drop_id [of k s] k by simp
    then show ?thesis by blast
  qed
qed

lemma next_frame_full:
  assumes "take (MAX_MSG_SIZE - 1) s = raw" "length raw = MAX_MSG_SIZE - 1" "CHR 0x0A \<notin> set raw"
  shows "next_frame s = Some (c_string raw, drop (MAX_MSG_SIZE - 1) s)"
proof -
  have all: "takeWhile (\<lambda>c. c \<noteq> CHR 0x0A) raw = raw" using assms(3) by (auto simp: takeWhile_eq_all_conv)
  show ?thesis unfolding next_frame_def Let_def assms(1) all by (simp add: assms(2))
qed

lemma no_type_ignored:
  assumes "\<not> names '': '' ''type'' m"
  shows "handle_message e cb n s m = Some n"
  using names_no_key [OF assms] by (simp add: handle_message_def protocol_parse_msg_def json_get_int_def)

lemma names_block_texts:
  assumes "\<forall>b \<in> set bs. block_wire b"
  shows "names '': '' ''type'' (comma_sep first (map block_text bs) @ r) = names '': '' ''type'' r"
  using assms by (intro names_comma_sep) (simp add: names_block)

lemma rest_ignored:
  assumes "\<forall>b \<in> set bs. block_wire b" "m \<in> set (frames (drop k (comma_sep True (map block_text bs)) @ '']}}'' @ [CHR 0x0A]))"
  shows "handle_message e cb n s m = Some n"
proof -
  let ?b = "comma_sep True (map block_text bs)" and ?e = "'']}}'' @ [CHR 0x0A]"
  have "CHR 0x00 \<notin> set ?b"
    by (rule comma_sep_chars, simp, use assms(1) block_wire_text(1) in \<open>fastforce dest: wire_object_chars\<close>)
  then have "CHR 0x00 \<notin> set (drop k ?b @ ?e)" by (auto dest: in_set_dropD)
  from frames_infix [OF assms(2) this] obtain u v where m: "drop k ?b @ ?e = u @ m @ v" by blast
  have "?b @ ?e = (take k ?b @ u) @ m @ v" using append_take_drop_id [of k ?b] m by (metis append.assoc)
  moreover have "\<not> names '': '' ''type'' (?b @ ?e)" using names_block_texts [OF assms(1), of True ?e] by simp
  ultimately show ?thesis using names_infix no_type_ignored by metis
qed

section \<open>The whole line\<close>

lemma sum_block_texts: "(\<Sum>b\<leftarrow>bs. length (block_text b)) \<le> length (comma_sep first (map block_text bs))"
proof (induction bs arbitrary: first)
  case (Cons b bs)
  from Cons [of False] show ?case by simp
qed simp

lemma cut_response:
  assumes "\<forall>n. malloc e n" "\<forall>b \<in> set (blocks c). block_wire b" "0 < chain_length c" "chain_length c \<le> MAX_BLOCKS"
    "m < length (comma_sep True (map block_text (butlast (blocks c))))"
  shows "\<exists>n' j xs. handle_message e cb n s (msg_head MSG_CHAIN_RESPONSE @ chain_head (chain_length c)
        @ take m (comma_sep True (map block_text (blocks c)))) = Some n'
    \<and> j + length xs < chain_length c \<and> length xs \<le> 1
    \<and> (n' = n \<or> chain_length (node_chain n) < j + length xs \<and> n' = n\<lparr>node_chain := \<lparr>blocks = take j (blocks c) @ xs\<rparr>\<rparr>)"
proof -
  let ?bs = "blocks c" and ?k = "chain_length c"
  let ?front = "butlast ?bs" and ?cut = "take m (comma_sep True (map block_text (butlast (blocks c))))"
  let ?p = "chain_head ?k @ ?cut"
  have bs: "?bs = ?front @ [last ?bs]" using assms(3) by (simp add: chain_length_def)
  have cut: "take m (comma_sep True (map block_text ?bs)) = ?cut"
    using assms(5) by (subst bs) (simp add: comma_sep_append)
  have "wire_object (chain_text c)" using assms(2-4) by (intro chain_wire_text) (simp add: chain_wire_def)
  then obtain body where body: "chain_text c = CHR ''{'' # body @ ''}''" "payload_ok body" by (auto simp: wire_object_def)
  have "chain_text c = ?p @ drop m (comma_sep True (map block_text ?bs)) @ '']}''"
    using append_take_drop_id [of m "comma_sep True (map block_text ?bs)"]
    by (simp add: chain_text_snapshot snapshot_text_def cut)
  then have "body @ ''}'' = tl ?p @ drop m (comma_sep True (map block_text ?bs)) @ '']}''"
    by (simp add: body(1) chain_head_def)
  from payload_scan_cut [OF body(2) this refl] have scan: "payload_scan False False 0 ?p = ?p"
    by (simp add: chain_head_def)
  then have parse: "protocol_parse_msg (malloc e) (msg_head MSG_CHAIN_RESPONSE @ ?p) = (Some MSG_CHAIN_RESPONSE, Some ?p)"
    using protocol_parse_msg_head [of ?p "malloc e" MSG_CHAIN_RESPONSE] assms(1) by (simp add: chain_head_def)
  have front: "\<forall>b \<in> set ?front. block_wire b" "length ?front < ?k"
    using assms(2,3) by (auto simp: chain_length_def dest: in_set_butlastD)
  have take_front: "take j ?front = take j ?bs" if "j < length ?front" for j
    using that by (simp add: take_butlast)
  obtain r j xs where j: "j < length ?front" "length xs \<le> 1" "\<forall>x \<in> set xs. tx_count x \<le> 10"
    "protocol_deserialize_chain (malloc e) ?p \<lparr>blocks = []\<rparr> = (r, \<lparr>blocks = take j ?bs @ xs\<rparr>)"
    using cut_chain_read [OF assms(1) front(1) assms(3,4) less_imp_le [OF front(2)] assms(5)] take_front by metis
  let ?other = "\<lparr>blocks = take j ?bs @ xs\<rparr> :: blockchain_t"
  have "CHR 0x00 \<notin> set (chain_text c)" using \<open>wire_object (chain_text c)\<close> by (simp add: wire_object_def)
  then have "CHR 0x00 \<notin> set ?p" by (simp add: \<open>chain_text c = ?p @ _\<close>)
  then have shape: "chain_shape ?other" using protocol_deserialize_chain_shape [of ?p "malloc e"] j(4) by simp
  have "\<forall>b \<in> set (take j ?bs). tx_count b \<le> 10"
    using assms(2) by (auto simp: block_wire_def block_ok_def block_consts dest: in_set_takeD)
  then have "counted ?other" using j(3) by (auto simp: counted_def)
  then obtain v where v: "chain_validate (sha e) ?other = Some v" using chain_validate_defined [OF shape] by blast
  have len: "chain_length ?other = j + length xs" "j + length xs < ?k"
    using j(1,2) front(2) by (simp_all add: chain_length_def)
  let ?n = "n\<lparr>node_chain := ?other\<rparr>"
  have "handle_chain_response e n ?p = Some n
      \<or> chain_length (node_chain n) < j + length xs \<and> handle_chain_response e n ?p = Some ?n"
    using j(4) v len(1) by (auto simp: handle_chain_response_def chain_replace_def)
  then have "handle_message e cb n s (msg_head MSG_CHAIN_RESPONSE @ ?p) = Some n
      \<or> chain_length (node_chain n) < j + length xs \<and> handle_message e cb n s (msg_head MSG_CHAIN_RESPONSE @ ?p) = Some ?n"
    by (simp add: handle_message_def parse)
  with len(2) j(2) show ?thesis unfolding cut by (metis append.assoc)
qed

text \<open>No valid chain of 7040 blocks fits.\<close>

lemma long_chain_oversized:
  assumes "links h (blocks c)" "7040 \<le> chain_length c"
  shows "MAX_MSG_SIZE \<le> (\<Sum>x\<leftarrow>butlast (blocks c). length (block_text x))"
proof -
  let ?bs = "butlast (blocks c)"
  have len: "7039 \<le> length ?bs" using assms(2) by (simp add: chain_length_def)
  have "set (tl ?bs) \<subseteq> set (tl (blocks c))" by (metis butlast_tl in_set_butlastD subsetI)
  then have "\<forall>x \<in> set (tl ?bs). 149 \<le> length (block_text x)"
    using tail_sealed [OF assms(1)] block_text_long by blast
  then have "149 * length (tl ?bs) \<le> (\<Sum>x\<leftarrow>tl ?bs. length (block_text x))"
    using sum_list_mono [of "tl ?bs" "\<lambda>_. 149" "\<lambda>x. length (block_text x)"] by (simp add: sum_list_triv)
  also have "\<dots> \<le> (\<Sum>x\<leftarrow>?bs. length (block_text x))" by (cases ?bs) simp_all
  finally show ?thesis using len by (simp add: MAX_MSG_SIZE_def)
qed

text \<open>Where the line is cut: behind \<open>body_room c\<close> bytes of the blocks.\<close>

abbreviation response_head :: "blockchain_t \<Rightarrow> string" where
  "response_head c \<equiv> msg_head MSG_CHAIN_RESPONSE @ chain_head (chain_length c)"

abbreviation body_room :: "blockchain_t \<Rightarrow> nat" where
  "body_room c \<equiv> MAX_MSG_SIZE - 1 - length (response_head c)"

lemma response_cut:
  assumes "chain_wire c" "MAX_MSG_SIZE \<le> (\<Sum>x\<leftarrow>butlast (blocks c). length (block_text x))"
  shows "body_room c < length (comma_sep True (map block_text (butlast (blocks c))))"
    "frames (msg_text MSG_CHAIN_RESPONSE (chain_text c) @ [CHR 0x0A]) =
      (response_head c @ take (body_room c) (comma_sep True (map block_text (blocks c))))
      # frames (drop (body_room c) (comma_sep True (map block_text (blocks c))) @ '']}}'' @ [CHR 0x0A])"
proof -
  let ?bs = "blocks c" and ?head = "response_head c" and ?m = "body_room c"
  let ?body = "comma_sep True (map block_text ?bs)" and ?front = "comma_sep True (map block_text (butlast ?bs))"
  let ?line = "msg_text MSG_CHAIN_RESPONSE (chain_text c) @ [CHR 0x0A]"
  have wire: "0 < chain_length c" "chain_length c \<le> MAX_BLOCKS" using assms(1) by (simp_all add: chain_wire_def)
  have "MAX_MSG_SIZE \<le> length ?front" using assms(2) sum_block_texts [of "butlast ?bs" True] by linarith
  moreover have "length ?front \<le> length ?body"
    using wire(1) by (subst append_butlast_last_id [of ?bs, symmetric])
      (simp_all add: chain_length_def comma_sep_append del: append_butlast_last_id)
  moreover have "length ?head \<le> 61" using length_chain_head [OF wire(2)] by simp
  ultimately have m: "?m < length ?front" "length ?head \<le> MAX_MSG_SIZE - 1" "?m < length ?body"
    by (simp_all add: MAX_MSG_SIZE_def)
  show "?m < length ?front" by (rule m(1))
  have line: "?line = ?head @ ?body @ '']}}'' @ [CHR 0x0A]"
    by (simp add: msg_text_head chain_text_snapshot snapshot_text_def)
  let ?raw = "?head @ take ?m ?body" and ?rest = "drop ?m ?body @ '']}}'' @ [CHR 0x0A]"
  have cut: "take (MAX_MSG_SIZE - 1) ?line = ?raw" "drop (MAX_MSG_SIZE - 1) ?line = ?rest"
    unfolding line using m(2,3) by simp_all
  note msg_text_one_line [OF chain_wire_text [OF assms(1)], of MSG_CHAIN_RESPONSE]
  moreover have "set ?raw \<subseteq> set (msg_text MSG_CHAIN_RESPONSE (chain_text c))"
    by (auto simp: msg_text_head chain_text_snapshot snapshot_text_def dest: in_set_takeD)
  ultimately have chars: "CHR 0x0A \<notin> set ?raw" "CHR 0x00 \<notin> set ?raw" by blast+
  have "length ?raw = MAX_MSG_SIZE - 1" using m(2,3) by simp
  from next_frame_full [OF cut(1) this chars(1)] have "next_frame ?line = Some (?raw, ?rest)"
    by (simp only: cut(2) c_string_id [OF chars(2)])
  then show "frames ?line = ?raw # frames ?rest" by (simp add: frames.simps [of ?line])
qed

section \<open>Properties\<close>

text \<open>
  C5. A chain that has outgrown the message: when its blocks but the last fill \<open>MAX_MSG_SIZE\<close> bytes, a node
  that asks for it is answered, but never gets it. What its reader thread makes of the answer, all the
  pieces into which it falls included, is well defined, and leaves the node with its own chain or with a longer
  one that ends before the last block: the blocks in front of the cut, and at most one block that was cut.
\<close>

theorem oversized_chain:
  assumes "reliable e" "reliable e'" "chain_wire (node_chain b)"
    "MAX_MSG_SIZE \<le> (\<Sum>x\<leftarrow>butlast (blocks (node_chain b)). length (block_text x))"
  shows "\<exists>b' line a'. handle_message e' cb' b s (msg_text MSG_REQUEST_CHAIN ''{}'') = Some b'
    \<and> outbox b' = outbox b @ [(s, line)]
    \<and> foldM (\<lambda>n. handle_message e cb n s') a (frames line) = Some a'
    \<and> (a' = a \<or> (\<exists>j xs. chain_length (node_chain a) < j + length xs \<and> j + length xs < chain_length (node_chain b)
         \<and> length xs \<le> 1 \<and> a' = a\<lparr>node_chain := \<lparr>blocks = take j (blocks (node_chain b)) @ xs\<rparr>\<rparr>))"
proof -
  let ?c = "node_chain b"
  let ?bs = "blocks ?c" and ?h = "\<lambda>n. handle_message e cb n s'"
  let ?line = "msg_text MSG_CHAIN_RESPONSE (chain_text ?c) @ [CHR 0x0A]"
  have wire: "\<forall>x \<in> set ?bs. block_wire x" "0 < chain_length ?c" "chain_length ?c \<le> MAX_BLOCKS"
    using assms(3) by (simp_all add: chain_wire_def)
  have al: "\<forall>n. malloc e n" using reliable_malloc(1) [OF assms(1)] by (simp add: alloc_ok_def)
  note cut = response_cut [OF assms(3,4)]
  obtain a' j xs where
    a': "?h a (response_head ?c @ take (body_room ?c) (comma_sep True (map block_text ?bs))) = Some a'"
    and new: "j + length xs < chain_length ?c" "length xs \<le> 1"
      "a' = a \<or> chain_length (node_chain a) < j + length xs \<and> a' = a\<lparr>node_chain := \<lparr>blocks = take j ?bs @ xs\<rparr>\<rparr>"
    using cut_response [OF al wire cut(1), of cb a s'] by auto
  have "foldM ?h a' (frames (drop (body_room ?c) (comma_sep True (map block_text ?bs)) @ '']}}'' @ [CHR 0x0A])) = Some a'"
    by (intro foldM_idle ballI rest_ignored [OF wire(1)])
  then have "foldM ?h a (frames ?line) = Some a'" by (simp only: cut(2) foldM.simps a' bind.bind_lunit)
  with request_answered [OF assms(2,3), of cb' s] new show ?thesis by fastforce
qed

theorem oversized_chain_witness:
  "\<exists>line a'. foldM (\<lambda>n. handle_message demo_env no_callbacks n 9) (demo_node [demo_genesis]) (frames line) = Some a'
    \<and> chain_length (node_chain a') < 7100
    \<and> (\<exists>b'. handle_message demo_env no_callbacks (demo_node (replicate 7100 demo_block)) 4
          (msg_text MSG_REQUEST_CHAIN ''{}'') = Some b' \<and> outbox b' = [(4, line)])"
proof -
  let ?b = "demo_node (replicate 7100 demo_block)"
  have "149 * (7099::nat) \<le> length (block_text demo_block) * 7099"
    using block_text_long [of zero_sha demo_block] by simp
  then have "MAX_MSG_SIZE \<le> (\<Sum>x\<leftarrow>butlast (blocks (node_chain ?b)). length (block_text x))"
    by (simp add: demo_node_def butlast_conv_take sum_list_replicate MAX_MSG_SIZE_def)
  moreover have "chain_wire (node_chain ?b)"
    by (simp add: demo_node_def chain_wire_def chain_length_def MAX_BLOCKS_def)
  ultimately show ?thesis
    using oversized_chain [OF demo_env_facts(1) demo_env_facts(1), of ?b no_callbacks 4 no_callbacks 9 "demo_node [demo_genesis]"]
    by (fastforce simp: demo_node_def chain_length_def)
qed

end
