(* ===== verification/Wallet.thy ===== *)
theory Wallet
  imports Tx
begin

text \<open>
  The wallet (\<open>include/wallet.h\<close>, \<open>src/wallet.c\<close>): address extraction, key generation, signing,
  verification, and the key file.

  OpenSSL is not part of the program. The record \<open>crypto\<close> has one field for each \<open>EVP\<close> or \<open>PEM\<close>
  function that the wallet calls, with \<open>None\<close> or \<open>False\<close> for its error returns; a key is a value of
  an arbitrary type \<open>'k\<close>. What the properties rely on is the predicate \<open>ed25519\<close>.
\<close>

section \<open>Data\<close>

record 'k crypto =
  get_raw_public_key :: "'k \<Rightarrow> u8 list option"
  new_raw_public_key :: "u8 list \<Rightarrow> 'k option"
  digest_sign_init :: "'k option \<Rightarrow> bool"
  digest_sign :: "'k option \<Rightarrow> string \<Rightarrow> u8 list option"
  digest_verify_init :: "'k \<Rightarrow> bool"
  digest_verify :: "'k \<Rightarrow> u8 list \<Rightarrow> string \<Rightarrow> bool"
  pem_write :: "'k option \<Rightarrow> string option"
  pem_read :: "string \<Rightarrow> 'k option"

text \<open>The outcome of the three calls that generate a key: context, initialisation, generation.\<close>

record 'k keygen =
  ctx_new :: bool
  keygen_init :: bool
  keygen_key :: "'k option"

record 'k wallet_t =
  keypair :: "'k option"
  address :: string

definition wallet_zero :: "'k wallet_t" where
  "wallet_zero = \<lparr>keypair = None, address = []\<rparr>"

section \<open>Operations\<close>

text \<open>\<open>extract_address\<close>: the return code and the text written to \<open>addr\<close>, if any.\<close>

definition extract_address :: "'k crypto \<Rightarrow> 'k \<Rightarrow> int \<times> string option" where
  "extract_address cr k =
     (case get_raw_public_key cr k of
        None \<Rightarrow> (- 1, None)
      | Some pubkey \<Rightarrow> (0, Some (hex_bytes pubkey)))"

text \<open>
  \<open>wallet_create\<close>: return code, the wallet, and the keys that were handed to \<open>EVP_PKEY_free\<close>. When
  the address cannot be extracted the key is freed but \<open>wallet->keypair\<close> still points to it.
\<close>

definition wallet_create :: "'k crypto \<Rightarrow> 'k keygen \<Rightarrow> int \<times> 'k wallet_t \<times> 'k list" where
  "wallet_create cr gen =
     (let w = wallet_zero in
      if \<not> ctx_new gen then (- 1, w, [])
      else if \<not> keygen_init gen then (- 1, w, [])
      else case keygen_key gen of
        None \<Rightarrow> (- 1, w, [])
      | Some pkey \<Rightarrow>
          (let w = w\<lparr>keypair := Some pkey\<rparr> in
           case extract_address cr pkey of (r, addr) \<Rightarrow>
             (let w = (case addr of None \<Rightarrow> w | Some a \<Rightarrow> w\<lparr>address := a\<rparr>) in
              if r \<noteq> 0 then (- 1, w, [pkey]) else (0, w, []))))"

definition wallet_destroy :: "'k wallet_t \<Rightarrow> 'k wallet_t \<times> 'k list" where
  "wallet_destroy w =
     (case keypair w of None \<Rightarrow> (w, []) | Some k \<Rightarrow> (w\<lparr>keypair := None\<rparr>, [k]))"

text \<open>\<open>md_ctx\<close> says whether \<open>EVP_MD_CTX_new\<close> succeeded.\<close>

definition wallet_sign_tx :: "'k crypto \<Rightarrow> bool \<Rightarrow> 'k wallet_t \<Rightarrow> tx_t \<Rightarrow> int \<times> tx_t" where
  "wallet_sign_tx cr md_ctx w t =
     (if \<not> md_ctx then (- 1, t)
      else if \<not> digest_sign_init cr (keypair w) then (- 1, t)
      else case digest_sign cr (keypair w) (tx_hash t) of
        None \<Rightarrow> (- 1, t)
      | Some sig \<Rightarrow> (0, t\<lparr>signature := hex_bytes sig\<rparr>))"

text \<open>
  The decoding loops of \<open>wallet_verify_tx\<close>: \<open>n\<close> bytes, read two characters apart. Behind the end of
  the string the arrays of every \<open>tx_t\<close> of the program are zero, so \<open>sscanf\<close> finds nothing there.
\<close>

fun decode_hex :: "nat \<Rightarrow> string \<Rightarrow> u8 list option" where
  "decode_hex 0 s = Some []"
| "decode_hex (Suc n) s = do {
     byte \<leftarrow> sscanf_2x s;
     bs \<leftarrow> decode_hex n (drop 2 s);
     Some (ucast byte # bs)
   }"

definition wallet_verify_tx :: "'k crypto \<Rightarrow> tx_t \<Rightarrow> int" where
  "wallet_verify_tx cr t =
     (if strcmp_eq (sender t) COINBASE_ADDR then 0
      else case decode_hex 32 (sender t) of None \<Rightarrow> - 1 | Some pubkey \<Rightarrow>
      (case new_raw_public_key cr pubkey of None \<Rightarrow> - 1 | Some pkey \<Rightarrow>
       (let sig_len = length (signature t) div 2;
            sig_len = (if 64 < sig_len then 64 else sig_len)
        in case decode_hex sig_len (signature t) of None \<Rightarrow> - 1 | Some sig \<Rightarrow>
          (if \<not> digest_verify_init cr pkey then - 1
           else if digest_verify cr pkey sig (tx_hash t) then 0 else - 1))))"

text \<open>
  The key file: the file system maps a path to the content of the file. \<open>fopen (path, "w")\<close> succeeds
  when \<open>can_write path\<close> and empties the file first, so a failed write leaves an empty file.
\<close>

type_synonym files = "string \<Rightarrow> string option"

definition wallet_save :: "'k crypto \<Rightarrow> (string \<Rightarrow> bool) \<Rightarrow> files \<Rightarrow> 'k wallet_t \<Rightarrow> string \<Rightarrow> int \<times> files" where
  "wallet_save cr can_write fs w path =
     (if \<not> can_write path then (- 1, fs)
      else let fs = fs(path \<mapsto> []) in
        case pem_write cr (keypair w) of
          None \<Rightarrow> (- 1, fs)
        | Some pem \<Rightarrow> (0, fs(path \<mapsto> pem)))"

definition wallet_load :: "'k crypto \<Rightarrow> files \<Rightarrow> 'k wallet_t \<Rightarrow> string \<Rightarrow> int \<times> 'k wallet_t" where
  "wallet_load cr fs w path =
     (case fs path of
        None \<Rightarrow> (- 1, w)
      | Some content \<Rightarrow>
          (let w = wallet_zero\<lparr>keypair := pem_read cr content\<rparr> in
           case keypair w of
             None \<Rightarrow> (- 1, w)
           | Some k \<Rightarrow>
               (case extract_address cr k of (r, addr) \<Rightarrow>
                  (r, case addr of None \<Rightarrow> w | Some a \<Rightarrow> w\<lparr>address := a\<rparr>))))"

section \<open>What is assumed of OpenSSL\<close>

text \<open>
  The documented behaviour of Ed25519 in OpenSSL for a private key \<open>k\<close>: the raw public key has 32
  bytes, a key can be rebuilt from them, signing succeeds with 64 bytes, and the rebuilt key accepts
  what the private key has signed.
\<close>

definition ed25519 :: "'k crypto \<Rightarrow> 'k \<Rightarrow> bool" where
  "ed25519 cr k \<longleftrightarrow>
     (\<exists>pub k'. get_raw_public_key cr k = Some pub \<and> length pub = 32
        \<and> new_raw_public_key cr pub = Some k' \<and> digest_sign_init cr (Some k) \<and> digest_verify_init cr k'
        \<and> (\<forall>m. \<exists>sig. digest_sign cr (Some k) m = Some sig \<and> length sig = 64
              \<and> digest_verify cr k' sig m))"

text \<open>A wallet in order: it holds a key, and its address is that key's public half.\<close>

definition wallet_ok :: "'k crypto \<Rightarrow> 'k wallet_t \<Rightarrow> bool" where
  "wallet_ok cr w \<longleftrightarrow>
     (\<exists>k pub. keypair w = Some k \<and> get_raw_public_key cr k = Some pub \<and> address w = hex_bytes pub)"

section \<open>Hexadecimal text\<close>

lemma hex_char_not_special:
  "n < 16 \<Longrightarrow> \<not> is_space (hex_char n)" "n < 16 \<Longrightarrow> hex_char n \<noteq> CHR ''-''"
  "n < 16 \<Longrightarrow> hex_char n \<noteq> CHR ''+''"
proof -
  assume n: "n < 16"
  then have code: "char_code (hex_char n) = (if n < 10 then 48 + n else 87 + n)"
    by (simp add: hex_char_def char_code_def)
  with n show "\<not> is_space (hex_char n)" by (auto simp: is_space_def)
  show "hex_char n \<noteq> CHR ''-''" "hex_char n \<noteq> CHR ''+''"
    using code n by (auto split: if_splits)
qed

lemma sscanf_2x_fmt: "sscanf_2x (fmt_02x b @ r) = Some (ucast b)"
proof -
  have n: "unat b div 16 < 16" "unat b mod 16 < 16" using unat_u8_less [of b] by auto
  have "16 * (unat b div 16) + unat b mod 16 = unat b" by simp
  moreover have "(of_nat (unat b) :: u32) = ucast b" by (simp add: unsigned_of_nat flip: word_unat_eq_iff)
  ultimately show ?thesis
    using n by (simp add: sscanf_2x_def fmt_02x_def scan_sign_def hex_char_not_special numeral_2_eq_2)
qed

lemma decode_hex_bytes: "length bs = n \<Longrightarrow> decode_hex n (hex_bytes bs @ r) = Some bs"
proof (induction bs arbitrary: n)
  case Nil
  then show ?case by simp
next
  case (Cons b bs)
  then obtain m where m: "n = Suc m" "length bs = m" by (cases n) auto
  have "hex_bytes (b # bs) @ r = fmt_02x b @ hex_bytes bs @ r" by (simp add: hex_bytes_def)
  moreover have "drop 2 (fmt_02x b @ xs) = xs" for xs by (simp add: fmt_02x_def)
  moreover have "ucast (ucast b :: u32) = b" by (simp add: ucast_up_ucast_id is_up)
  ultimately show ?case
    using Cons.IH [OF m(2)] by (simp add: m(1) sscanf_2x_fmt del: drop_append)
qed

lemma hex_bytes_fits: "2 * length bs < n \<Longrightarrow> cstr_fits n (hex_bytes bs)"
  using hex_bytes_is_hex [of bs] is_hex_not_NUL by (fastforce simp: cstr_fits_def)

lemma hex_address_not_coinbase: "length pub = 32 \<Longrightarrow> hex_bytes pub \<noteq> COINBASE_ADDR"
proof
  assume "length pub = 32" "hex_bytes pub = COINBASE_ADDR"
  then have "length (hex_bytes pub) = length COINBASE_ADDR" by simp
  with \<open>length pub = 32\<close> show False by (simp add: COINBASE_ADDR_def)
qed

text \<open>
  \<open>wallet_create\<close> returns 0 exactly when the three library calls and the extraction of the address
  succeed; the wallet is then in order. A key that is generated in the error case has been freed,
  although the wallet still points to it.
\<close>

lemma wallet_create_spec:
  "wallet_create cr gen = (r, w, freed) \<Longrightarrow>
    (if ctx_new gen \<and> keygen_init gen
        \<and> (\<exists>k. keygen_key gen = Some k \<and> get_raw_public_key cr k \<noteq> None)
     then r = 0 \<and> wallet_ok cr w \<and> keypair w = keygen_key gen \<and> freed = []
     else r = - 1 \<and> (case keypair w of None \<Rightarrow> freed = [] | Some k \<Rightarrow> freed = [k]))"
  by (auto simp: wallet_create_def wallet_zero_def extract_address_def wallet_ok_def Let_def
      split: if_splits option.splits)

text \<open>Signing with a wallet in order, and verifying.\<close>

lemma sign_verify:
  assumes "ed25519 cr k" "keypair w = Some k" "wallet_ok cr w" "sender t = address w"
  shows "\<exists>sig. wallet_sign_tx cr True w t = (0, t\<lparr>signature := hex_bytes sig\<rparr>)
    \<and> cstr_fits SIG_LEN (hex_bytes sig) \<and> cstr_fits ADDR_LEN (address w)
    \<and> wallet_verify_tx cr (t\<lparr>signature := hex_bytes sig\<rparr>) = 0"
proof -
  obtain pub k' where pub: "get_raw_public_key cr k = Some pub" "length pub = 32"
    "new_raw_public_key cr pub = Some k'" "digest_sign_init cr (Some k)" "digest_verify_init cr k'"
    and sign: "\<forall>m. \<exists>sig. digest_sign cr (Some k) m = Some sig \<and> length sig = 64
      \<and> digest_verify cr k' sig m"
    using assms(1) by (auto simp: ed25519_def)
  obtain sig where sig: "digest_sign cr (Some k) (tx_hash t) = Some sig" "length sig = 64"
    "digest_verify cr k' sig (tx_hash t)" using sign by blast
  have addr: "sender t = hex_bytes pub" "address w = hex_bytes pub"
    using assms pub(1) by (auto simp: wallet_ok_def)
  have "wallet_verify_tx cr (t\<lparr>signature := hex_bytes sig\<rparr>) = 0"
    using decode_hex_bytes [OF pub(2), of "[]"] decode_hex_bytes [OF sig(2), of "[]"]
      hex_address_not_coinbase [OF pub(2)] addr pub sig
    by (simp add: wallet_verify_tx_def strcmp_eq_def)
  moreover have "wallet_sign_tx cr True w t = (0, t\<lparr>signature := hex_bytes sig\<rparr>)"
    using assms(2) pub(4) sig(1) by (simp add: wallet_sign_tx_def)
  ultimately show ?thesis
    using pub(2) sig(2) addr by (auto simp: tx_consts intro!: hex_bytes_fits)
qed

section \<open>A concrete key\<close>

text \<open>
  For the witnesses: a key is one byte, its public half is 32 copies of it, and it signs every text
  with 64 copies. No property is about this scheme.
\<close>

definition demo_crypto :: "u8 crypto" where
  "demo_crypto = \<lparr>get_raw_public_key = (\<lambda>k. Some (replicate 32 k)),
     new_raw_public_key = (\<lambda>p. Some (hd p)),
     digest_sign_init = (\<lambda>k. k \<noteq> None),
     digest_sign = (\<lambda>k m. map_option (replicate 64) k),
     digest_verify_init = (\<lambda>k. True),
     digest_verify = (\<lambda>k sig m. sig = replicate 64 k),
     pem_write = map_option (\<lambda>k. [char_of (unat k)]),
     pem_read = (\<lambda>s. if s = [] then None else Some (of_nat (char_code (hd s))))\<rparr>"

definition demo_wallet :: "u8 wallet_t" where
  "demo_wallet = \<lparr>keypair = Some 7, address = hex_bytes (replicate 32 7)\<rparr>"

lemma demo_crypto_facts:
  "ed25519 demo_crypto k" "wallet_ok demo_crypto demo_wallet" "keypair demo_wallet = Some 7"
  by (auto simp: ed25519_def demo_crypto_def wallet_ok_def demo_wallet_def intro: exI [of _ k])

section \<open>Properties\<close>

text \<open>
  C39. What the wallet signs, it verifies: for a wallet in order and a transaction that names its
  address as the sender, \<open>wallet_sign_tx\<close> succeeds, changes nothing but the signature, whose text
  fits its array, and \<open>wallet_verify_tx\<close> accepts the result: the hexadecimal address and signature
  decode to the bytes they were made from.
\<close>

theorem wallet_sign_verify:
  assumes "ed25519 cr k" "keypair w = Some k" "wallet_ok cr w" "sender t = address w"
  shows "\<exists>sig. wallet_sign_tx cr True w t = (0, t\<lparr>signature := hex_bytes sig\<rparr>)
    \<and> cstr_fits SIG_LEN (hex_bytes sig) \<and> cstr_fits ADDR_LEN (address w)
    \<and> wallet_verify_tx cr (t\<lparr>signature := hex_bytes sig\<rparr>) = 0"
  using assms by (rule sign_verify)

theorem wallet_sign_verify_witness:
  "\<exists>sig. wallet_sign_tx demo_crypto True demo_wallet (tx_zero\<lparr>sender := address demo_wallet\<rparr>)
      = (0, tx_zero\<lparr>sender := address demo_wallet, signature := sig\<rparr>)
    \<and> wallet_verify_tx demo_crypto (tx_zero\<lparr>sender := address demo_wallet, signature := sig\<rparr>) = 0"
  using wallet_sign_verify [OF demo_crypto_facts(1,3,2), of "tx_zero\<lparr>sender := address demo_wallet\<rparr>"]
  by auto

text \<open>
  A signature does not cover the payment: \<open>wallet_verify_tx\<close> reads the sender, the signature and
  the stored \<open>tx_hash\<close> only, and never recomputes the hash, so a signed transaction still verifies
  after its receiver, amount and fee have been replaced.
\<close>

theorem verify_ignores_payment:
  "wallet_verify_tx cr (t\<lparr>receiver := r, amount := a, fee := f\<rparr>) = wallet_verify_tx cr t"
  by (simp add: wallet_verify_tx_def cong: option.case_cong if_cong)

text \<open>
  The key file round trip: when the PEM functions are inverse to each other on the wallet's key,
  a wallet in order that has been saved is loaded back, key and address alike, and no other file is
  touched.
\<close>

theorem wallet_save_load:
  assumes "wallet_ok cr w" "can_write path"
    "pem_write cr (keypair w) = Some pem" "pem_read cr pem = keypair w"
  shows "\<exists>fs'. wallet_save cr can_write fs w path = (0, fs')
    \<and> wallet_load cr fs' w' path = (0, w) \<and> (\<forall>p. p \<noteq> path \<longrightarrow> fs' p = fs p)"
  using assms
  by (cases w) (auto simp: wallet_save_def wallet_load_def wallet_ok_def extract_address_def
      wallet_zero_def)

theorem wallet_save_load_witness:
  "\<exists>fs'. wallet_save demo_crypto (\<lambda>_. True) (\<lambda>_. None) demo_wallet ''wallet.pem'' = (0, fs')
    \<and> wallet_load demo_crypto fs' wallet_zero ''wallet.pem'' = (0, demo_wallet)"
proof -
  have "pem_write demo_crypto (keypair demo_wallet) = Some [char_of (7 :: nat)]"
    "pem_read demo_crypto [char_of (7 :: nat)] = keypair demo_wallet"
    by (simp_all add: demo_crypto_def demo_wallet_def char_code_def)
  from wallet_save_load [OF demo_crypto_facts(2) _ this, where can_write = "\<lambda>_. True"
      and path = "''wallet.pem''" and fs = "\<lambda>_. None" and w' = wallet_zero]
  show ?thesis by metis
qed

end
