(* ===== verification/Table.thy ===== *)
theory Table
  imports Prelude
begin

text \<open>
  The interface of the bounded arrays of the program: a table of at most \<open>cap\<close> entries, into which an
  operation appends while there is room, and which it leaves alone when it is full. The mempool of
  \<open>main.c\<close> and the peers of \<open>net.c\<close> are such tables; \<open>App\<close> interprets the locale by both.
\<close>

locale bounded_table =
  fixes inv :: "'s \<Rightarrow> bool" and table :: "'s \<Rightarrow> 'x list" and ins :: "'s \<Rightarrow> 'a \<Rightarrow> 's option"
    and entry :: "'a \<Rightarrow> 'x" and cap :: nat
  assumes ins_inv: "inv s \<Longrightarrow> ins s a = Some s' \<Longrightarrow> inv s'"
    and ins_table: "inv s \<Longrightarrow> ins s a = Some s' \<Longrightarrow>
      table s' = (if length (table s) < cap then table s @ [entry a] else table s)"
begin

text \<open>A number of insertions: the first entries stay, and what does not fit is dropped.\<close>

lemma ins_all:
  assumes "foldM ins s as = Some s'" "inv s" "length (table s) \<le> cap"
  shows "inv s' \<and> table s' = take cap (table s @ map entry as)"
  using assms
proof (induction as arbitrary: s)
  case (Cons a as)
  then obtain s1 where s1: "ins s a = Some s1" "foldM ins s1 as = Some s'" by auto
  note t = ins_table [OF Cons.prems(2) s1(1)]
  have "length (table s1) \<le> cap" using Cons.prems(3) by (simp add: t)
  from Cons.IH [OF s1(2) ins_inv [OF Cons.prems(2) s1(1)] this] Cons.prems(3) show ?case
    by (auto simp: t take_Cons')
qed simp

lemma ins_all_length:
  assumes "foldM ins s as = Some s'" "inv s" "length (table s) \<le> cap"
  shows "length (table s') = min cap (length (table s) + length as)"
  using ins_all [OF assms] by simp

lemma ins_all_prefix:
  assumes "foldM ins s as = Some s'" "inv s" "length (table s) \<le> cap"
  shows "take (length (table s)) (table s') = table s"
  using ins_all [OF assms] assms(3) by simp

end

end
