(* ===== verification/App.thy ===== *)
theory App
  imports Reader Wallet Table
begin

text \<open>
  The program itself (\<open>src/main.c\<close>): the mempool, the callbacks it gives to the network layer, mining
  a block, sending a payment, start and menu.

  The static data of \<open>main.c\<close> is the record \<open>app_t\<close>, which is the \<open>app\<close> part of the node. Mining is
  not one atomic step: the main thread takes the chain's lock, then the mempool's, then none while
  it searches, then the chain's again, and the threads of the peers run in between. Each section is
  a definition of its own, and \<open>do_mine\<close> is their sequence. What these
  operations write to the terminal is in \<open>Screen\<close> and \<open>Report\<close>.
\<close>

section \<open>Data\<close>

definition MEMPOOL_SIZE :: nat where "MEMPOOL_SIZE = 100"
definition wallet_file :: string where "wallet_file = ''wallet.pem''"

text \<open>\<open>mempool\<close> is the used part of the C array: \<open>mempool_count\<close> is its length.\<close>

record 'k app_t =
  mempool :: "tx_t list"
  wallet :: "'k wallet_t"
  quit_flag :: bool

type_synonym 'k world = "'k app_t node_t"

definition set_mempool :: "'k world \<Rightarrow> tx_t list \<Rightarrow> 'k world" where
  "set_mempool n ts = n\<lparr>app := (app n)\<lparr>mempool := ts\<rparr>\<rparr>"

text \<open>The insertion that \<open>on_new_tx\<close> and \<open>do_send\<close> share.\<close>

definition mempool_push :: "'k world \<Rightarrow> tx_t \<Rightarrow> 'k world" where
  "mempool_push n t =
     (if length (mempool (app n)) < MEMPOOL_SIZE then set_mempool n (mempool (app n) @ [t]) else n)"

section \<open>Callbacks\<close>

definition on_new_tx_cb :: "'k world \<Rightarrow> tx_t \<Rightarrow> 'k world" where
  "on_new_tx_cb n t = mempool_push n t"

fun send_txs :: "env \<Rightarrow> int \<Rightarrow> tx_t list \<Rightarrow> 'k world \<Rightarrow> 'k world" where
  "send_txs e peer_fd [] n = n"
| "send_txs e peer_fd (t # ts) n = send_txs e peer_fd ts (node_send_tx e n peer_fd t)"

definition on_peer_connected_cb :: "env \<Rightarrow> 'k world \<Rightarrow> int \<Rightarrow> 'k world" where
  "on_peer_connected_cb e n peer_fd = send_txs e peer_fd (mempool (app n)) n"

text \<open>\<open>main\<close> sets two of the three callbacks; \<open>on_new_block\<close> stays \<open>NULL\<close>.\<close>

definition app_callbacks :: "env \<Rightarrow> 'k app_t callbacks" where
  "app_callbacks e = \<lparr>on_new_block = None, on_new_tx = Some on_new_tx_cb,
     on_peer_connected = Some (on_peer_connected_cb e)\<rparr>"

section \<open>Mining\<close>

text \<open>Under the chain's lock: the header of the new block; \<open>now\<close> is what \<open>time (NULL)\<close> returns.\<close>

definition mine_header :: "int \<Rightarrow> 'k world \<Rightarrow> block_t option" where
  "mine_header now n = do {
     last \<leftarrow> chain_last_block (node_chain n);
     Some (block_zero\<lparr>index := index last + 1, timestamp := now,
       prev_hash := strncpy_to (hash last) HASH_HEX_LEN\<rparr>)
   }"

text \<open>The loop over the mempool: the block filled so far and the sum of its fees.\<close>

fun collect_txs :: "blockchain_t \<Rightarrow> tx_t list \<Rightarrow> block_t \<Rightarrow> u64 \<Rightarrow> (block_t \<times> u64) option" where
  "collect_txs c [] b total_fees = Some (b, total_fees)"
| "collect_txs c (t # ts) b total_fees =
     (if tx_count b < int MAX_TX_PER_BLOCK
      then do {
        balance \<leftarrow> chain_get_balance c (sender t);
        let total_cost = amount t + fee t;
        if sint total_cost \<le> balance
        then do {
          txs \<leftarrow> arr_set (transactions b) (nat (tx_count b)) t;
          collect_txs c ts (b\<lparr>transactions := txs, tx_count := tx_count b + 1\<rparr>) (total_fees + fee t)
        }
        else collect_txs c ts b total_fees
      }
      else Some (b, total_fees))"

text \<open>The coinbase transaction with the fees added, hashed again.\<close>

definition coinbase_with_fees :: "digest_fn \<Rightarrow> string \<Rightarrow> u64 \<Rightarrow> tx_t" where
  "coinbase_with_fees hash_fn addr total_fees =
     (let t = tx_create_coinbase hash_fn addr;
          t = t\<lparr>amount := amount t + total_fees\<rparr>
      in tx_compute_hash hash_fn t)"

text \<open>Under the mempool's lock: fill the block and empty the mempool; then the coinbase.\<close>

definition mine_collect :: "env \<Rightarrow> block_t \<Rightarrow> 'k world \<Rightarrow> (block_t \<times> 'k world) option" where
  "mine_collect e b n = do {
     (b, total_fees) \<leftarrow> collect_txs (node_chain n) (mempool (app n)) (b\<lparr>tx_count := 1\<rparr>) 0;
     let n = set_mempool n [];
     txs \<leftarrow> arr_set (transactions b) 0 (coinbase_with_fees (sha e) (address (wallet (app n))) total_fees);
     Some (b\<lparr>transactions := txs\<rparr>, n)
   }"

text \<open>After the search: append and announce the block.\<close>

definition mine_publish :: "env \<Rightarrow> block_t \<Rightarrow> 'k world \<Rightarrow> 'k world option" where
  "mine_publish e b n = do {
     (r, c) \<leftarrow> chain_add_block (sha e) (node_chain n) b;
     if r = 0 then node_broadcast_block e (n\<lparr>node_chain := c\<rparr>) b else Some n
   }"

definition do_mine :: "env \<Rightarrow> int \<Rightarrow> 'k world \<Rightarrow> 'k world option" where
  "do_mine e now n = do {
     b \<leftarrow> mine_header now n;
     (b, n) \<leftarrow> mine_collect e b n;
     (attempts, b) \<leftarrow> block_mine (sha e) b;
     mine_publish e b n
   }"

section \<open>Sending a payment\<close>

text \<open>What the user typed; \<open>None\<close> where \<open>scanf\<close> found no match. An address is at most 64 characters.\<close>

record send_input =
  in_receiver :: "string option"
  in_amount :: "u64 option"
  in_fee :: "u64 option"

definition do_send :: "env \<Rightarrow> 'k crypto \<Rightarrow> bool \<Rightarrow> send_input \<Rightarrow> 'k world \<Rightarrow> 'k world option" where
  "do_send e cr md_ctx inp n =
     (case in_receiver inp of None \<Rightarrow> Some n | Some rcv \<Rightarrow>
      (case in_amount inp of None \<Rightarrow> Some n | Some amt \<Rightarrow>
       (case in_fee inp of None \<Rightarrow> Some n | Some f \<Rightarrow>
        (if f < MIN_TX_FEE then Some n
         else do {
           balance \<leftarrow> chain_get_balance (node_chain n) (address (wallet (app n)));
           let total_cost = amt + f;
           if balance < sint total_cost then Some n
           else let t = tx_create (sha e) (address (wallet (app n))) (take 64 rcv) amt f
             in case wallet_sign_tx cr md_ctx (wallet (app n)) t of (r, t) \<Rightarrow>
               if r \<noteq> 0 then Some n
               else Some (node_broadcast_tx e (mempool_push n t) t)
         }))))"

text \<open>The same in stages: up to the signed transaction, when there is one; then two sections under locks.\<close>

definition send_prepare :: "env \<Rightarrow> 'k crypto \<Rightarrow> bool \<Rightarrow> send_input \<Rightarrow> 'k world \<Rightarrow> tx_t option option" where
  "send_prepare e cr md_ctx inp n =
     (case in_receiver inp of None \<Rightarrow> Some None | Some rcv \<Rightarrow>
      (case in_amount inp of None \<Rightarrow> Some None | Some amt \<Rightarrow>
       (case in_fee inp of None \<Rightarrow> Some None | Some f \<Rightarrow>
        (if f < MIN_TX_FEE then Some None
         else do {
           balance \<leftarrow> chain_get_balance (node_chain n) (address (wallet (app n)));
           let total_cost = amt + f;
           if balance < sint total_cost then Some None
           else let t = tx_create (sha e) (address (wallet (app n))) (take 64 rcv) amt f
             in case wallet_sign_tx cr md_ctx (wallet (app n)) t of (r, t) \<Rightarrow>
               Some (if r \<noteq> 0 then None else Some t)
         }))))"

lemma do_send_stages:
  "do_send e cr md_ctx inp n = do {
     r \<leftarrow> send_prepare e cr md_ctx inp n;
     Some (case r of None \<Rightarrow> n | Some t \<Rightarrow> node_broadcast_tx e (mempool_push n t) t)
   }"
  by (cases "chain_get_balance (node_chain n) (address (wallet (app n)))")
    (auto simp: do_send_def send_prepare_def Let_def split: option.split prod.split)

section \<open>Start and menu\<close>

text \<open>
  The start of \<open>main\<close>: the wallet is loaded, or created and saved; the chain gets its genesis block;
  the node starts listening. The result is the exit code on an error, and the running program.
\<close>

definition open_wallet :: "'k crypto \<Rightarrow> 'k keygen \<Rightarrow> (string \<Rightarrow> bool) \<Rightarrow> files \<Rightarrow> int \<times> 'k wallet_t \<times> files" where
  "open_wallet cr gen can_write fs =
     (case wallet_load cr fs wallet_zero wallet_file of (r, w) \<Rightarrow>
        if r = 0 then (0, w, fs)
        else (case wallet_create cr gen of (r, w, _) \<Rightarrow>
          if r \<noteq> 0 then (1, w, fs)
          else (case wallet_save cr can_write fs w wallet_file of (_, fs) \<Rightarrow> (0, w, fs))))"

definition main_start ::
  "digest_fn \<Rightarrow> 'k crypto \<Rightarrow> 'k keygen \<Rightarrow> (string \<Rightarrow> bool) \<Rightarrow> files \<Rightarrow> listen_result \<Rightarrow> u16
    \<Rightarrow> (int + 'k world) option" where
  "main_start hash_fn cr gen can_write fs lr p =
     (case open_wallet cr gen can_write fs of (r, w, fs) \<Rightarrow>
        if r \<noteq> 0 then Some (Inl 1)
        else do {
          c \<leftarrow> chain_init hash_fn;
          case node_init lr \<lparr>mempool = [], wallet = w, quit_flag = False\<rparr> p c of (r, n) \<Rightarrow>
            Some (if r \<noteq> 0 then Inl 1 else Inr n)
        })"

datatype choice = Mine | Send | ShowChain | WalletInfo | ConnectPeer | NetworkStatus | ShowMempool
  | Quit | Unknown

definition menu_choice :: "string \<Rightarrow> choice" where
  "menu_choice s =
     (if strcmp_eq s ''1'' then Mine
      else if strcmp_eq s ''2'' then Send
      else if strcmp_eq s ''3'' then ShowChain
      else if strcmp_eq s ''4'' then WalletInfo
      else if strcmp_eq s ''5'' then ConnectPeer
      else if strcmp_eq s ''6'' then NetworkStatus
      else if strcmp_eq s ''7'' then ShowMempool
      else if strcmp_eq s ''q'' \<or> strcmp_eq s ''Q'' then Quit
      else Unknown)"

text \<open>What \<open>do_mempool\<close> prints, and the end of \<open>main\<close> after the menu loop.\<close>

definition do_mempool :: "'k world \<Rightarrow> string" where
  "do_mempool n = CHR 0x0A # ''=== Mempool ('' @ fmt_d (int (length (mempool (app n)))) @ '' transakci''
     @ [CHR 0xC3, CHR 0xAD] @ '') ==='' @ [CHR 0x0A] @ concat (map tx_print (mempool (app n)))"

definition main_stop :: "'k world \<Rightarrow> 'k world" where
  "main_stop n =
     (let n = node_stop n
      in n\<lparr>app := (app n)\<lparr>wallet := fst (wallet_destroy (wallet (app n)))\<rparr>\<rparr>)"

section \<open>The data of the program\<close>

text \<open>The mempool is within its bound and well formed, and the wallet's address fits.\<close>

definition app_ok :: "'k app_t \<Rightarrow> bool" where
  "app_ok a \<longleftrightarrow> length (mempool a) \<le> MEMPOOL_SIZE \<and> (\<forall>t \<in> set (mempool a). tx_ok t)
     \<and> cstr_fits ADDR_LEN (address (wallet a))"

lemma set_mempool_sel [simp]:
  "node_chain (set_mempool n ts) = node_chain n" "peers (set_mempool n ts) = peers n"
  "running (set_mempool n ts) = running n" "outbox (set_mempool n ts) = outbox n"
  "closed (set_mempool n ts) = closed n" "server_fd (set_mempool n ts) = server_fd n"
  "mempool (app (set_mempool n ts)) = ts" "wallet (app (set_mempool n ts)) = wallet (app n)"
  by (simp_all add: set_mempool_def)

lemma same_node_set_mempool [simp]: "same_node n (set_mempool n ts)"
  by (simp add: same_node_def)

lemma mempool_push_same: "same_node n (mempool_push n t)"
  by (simp add: mempool_push_def)

lemma mempool_push_ok: "app_ok (app n) \<Longrightarrow> tx_ok t \<Longrightarrow> app_ok (app (mempool_push n t))"
  by (auto simp: mempool_push_def app_ok_def)

lemma only_sends_txs: "\<exists>fds. only_sends n fds (send_txs e s ts n)"
proof (induction ts arbitrary: n)
  case Nil
  show ?case by (intro exI [of _ "[]"]) simp
next
  case (Cons t ts)
  obtain a where a: "only_sends n a (node_send_tx e n s t)" using only_sends_send_tx by blast
  obtain b where "only_sends (node_send_tx e n s t) b (send_txs e s ts (node_send_tx e n s t))"
    using Cons.IH by blast
  with a show ?case by (auto intro: only_sends_trans)
qed

interpretation app_cb: node_callbacks "app_callbacks e :: 'k app_t callbacks" app_ok for e
proof unfold_locales
  fix f and n :: "'k world" and b
  assume "on_new_block (app_callbacks e :: 'k app_t callbacks) = Some f"
  then show "same_node n (f n b) \<and> app_ok (app (f n b))" by (simp add: app_callbacks_def)
next
  fix g and n :: "'k world" and t
  assume "on_new_tx (app_callbacks e :: 'k app_t callbacks) = Some g" "app_ok (app n)" "tx_ok t"
  then show "same_node n (g n t) \<and> app_ok (app (g n t))"
    by (auto simp: app_callbacks_def on_new_tx_cb_def mempool_push_same mempool_push_ok)
next
  fix h and n :: "'k world" and s
  assume h: "on_peer_connected (app_callbacks e :: 'k app_t callbacks) = Some h" "app_ok (app n)"
  obtain fds where "only_sends n fds (send_txs e s (mempool (app n)) n)"
    using only_sends_txs by blast
  from only_sends_same [OF this] h show "same_node n (h n s) \<and> app_ok (app (h n s))"
    by (auto simp: app_callbacks_def on_peer_connected_cb_def)
qed

text \<open>The callbacks do not touch the wallet and the quit flag either.\<close>

interpretation app_keep: node_callbacks "app_callbacks e :: 'k app_t callbacks"
    "\<lambda>a. app_ok a \<and> quit_flag a = q \<and> wallet a = w" for e q w
proof unfold_locales
  fix f and n :: "'k world" and b
  assume "on_new_block (app_callbacks e :: 'k app_t callbacks) = Some f"
  then show "same_node n (f n b) \<and> app_ok (app (f n b)) \<and> quit_flag (app (f n b)) = q \<and> wallet (app (f n b)) = w"
    by (simp add: app_callbacks_def)
next
  fix g and n :: "'k world" and t
  assume g: "on_new_tx (app_callbacks e :: 'k app_t callbacks) = Some g"
    and n: "app_ok (app n) \<and> quit_flag (app n) = q \<and> wallet (app n) = w" "tx_ok t"
  from g have "g = on_new_tx_cb" by (simp add: app_callbacks_def)
  with app_cb.new_tx_keeps [OF g _ n(2), of n] n(1)
  show "same_node n (g n t) \<and> app_ok (app (g n t)) \<and> quit_flag (app (g n t)) = q \<and> wallet (app (g n t)) = w"
    by (auto simp: on_new_tx_cb_def mempool_push_def set_mempool_def)
next
  fix h and n :: "'k world" and s
  assume h: "on_peer_connected (app_callbacks e :: 'k app_t callbacks) = Some h"
    and n: "app_ok (app n) \<and> quit_flag (app n) = q \<and> wallet (app n) = w"
  obtain fds where "only_sends n fds (send_txs e s (mempool (app n)) n)"
    using only_sends_txs by blast
  from only_sends_same [OF this] h n
  show "same_node n (h n s) \<and> app_ok (app (h n s)) \<and> quit_flag (app (h n s)) = q \<and> wallet (app (h n s)) = w"
    by (auto simp: app_callbacks_def on_peer_connected_cb_def)
qed

text \<open>The invariant of the running program.\<close>

abbreviation world_inv :: "env \<Rightarrow> 'k world \<Rightarrow> bool" where
  "world_inv e n \<equiv> node_inv e app_ok n"

section \<open>The two tables\<close>

text \<open>The mempool and the peers are bounded tables: a full one drops what comes, and keeps what it has.\<close>

interpretation mempool_table: bounded_table "\<lambda>_. True" "\<lambda>n :: 'k world. mempool (app n)"
    "\<lambda>n t. Some (mempool_push n t)" "\<lambda>t. t" MEMPOOL_SIZE
  by unfold_locales (auto simp: mempool_push_def)

definition new_peer :: "accepted \<Rightarrow> peer_t" where
  "new_peer a = (case a of (s, h, p) \<Rightarrow> \<lparr>fd = s, host = strncpy_to h 255, port = p, active = True\<rparr>)"

definition insert_peer :: "env \<Rightarrow> 'k world \<Rightarrow> accepted \<Rightarrow> 'k world option" where
  "insert_peer e n a = (case a of (s, h, p) \<Rightarrow> map_option snd (add_peer e (app_callbacks e) n s h p))"

interpretation peer_table: bounded_table "\<lambda>n :: 'k world. world_inv e n" peers "insert_peer e" new_peer MAX_PEERS
  for e
proof unfold_locales
  fix n n' :: "'k world" and a :: accepted
  assume n: "world_inv e n" and "insert_peer e n a = Some n'"
  then obtain s h p r where a: "a = (s, h, p)" "add_peer e (app_callbacks e) n s h p = Some (r, n')"
    by (cases a) (auto simp: insert_peer_def)
  show "world_inv e n'" using app_cb.add_peer_inv [OF n a(2)] by blast
  show "peers n' = (if length (peers n) < MAX_PEERS then peers n @ [new_peer a] else peers n)"
    using app_cb.add_peer_effect [OF n a(2)] by (simp add: a(1) new_peer_def)
qed

text \<open>What an insertion does to the rest of the state.\<close>

lemma insert_peer_rest:
  assumes "insert_peer e n a = Some n'"
  shows "app n' = app n \<and> node_chain n' = node_chain n \<and> server_fd n' = server_fd n
    \<and> closed n' = (if length (peers n) < MAX_PEERS then closed n else closed n @ [fst a])"
proof (cases "length (peers n) < MAX_PEERS")
  case False
  with assms show ?thesis by (cases a) (auto simp: insert_peer_def add_peer_def)
next
  case True
  obtain s h p r where a: "a = (s, h, p)" "add_peer e (app_callbacks e) n s h p = Some (r, n')"
    using assms by (cases a) (auto simp: insert_peer_def)
  let ?n = "n\<lparr>peers := peers n @ [new_peer a]\<rparr>"
  let ?m = "node_request_chain e ?n (int (length (peers n)))"
  obtain fds where fds: "only_sends ?n fds ?m" using only_sends_request_chain by blast
  have "n' = send_txs e s (mempool (app ?m)) ?m"
    using a True
    by (simp add: add_peer_def Let_def app_callbacks_def on_peer_connected_cb_def new_peer_def split: if_splits)
  then obtain fds' where fds': "only_sends ?m fds' n'" using only_sends_txs by metis
  with True show ?thesis by (simp add: only_sendsD [OF fds'] only_sendsD [OF fds])
qed

lemma insert_peers_rest:
  assumes "foldM (insert_peer e) n as = Some n'" "world_inv e n"
  shows "app n' = app n \<and> node_chain n' = node_chain n
    \<and> closed n' = closed n @ map fst (drop (MAX_PEERS - length (peers n)) as)"
  using assms
proof (induction as arbitrary: n)
  case (Cons a as)
  then obtain n1 where n1: "insert_peer e n a = Some n1" "foldM (insert_peer e) n1 as = Some n'" by auto
  note t = peer_table.ins_table [OF Cons.prems(2) n1(1)] insert_peer_rest [OF n1(1)]
  from Cons.IH [OF n1(2) peer_table.ins_inv [OF Cons.prems(2) n1(1)]] show ?case
    by (cases "length (peers n) < MAX_PEERS") (auto simp: t drop_Cons')
qed simp

section \<open>Filling a block\<close>

text \<open>A block in the making: its first \<open>tx_count\<close> slots are used and the others are zero.\<close>

definition draft :: "block_t \<Rightarrow> bool" where
  "draft b \<longleftrightarrow> block_ok b \<and> 1 \<le> tx_count b
     \<and> drop (nat (tx_count b)) (transactions b) = replicate (10 - nat (tx_count b)) tx_zero"

text \<open>
  Which transactions are taken, as a specification: those whose sender can pay according to the
  chain, in the order of the mempool, at most nine.
\<close>

definition affordable :: "blockchain_t \<Rightarrow> tx_t \<Rightarrow> bool" where
  "affordable c t \<longleftrightarrow> (\<exists>bal. chain_get_balance c (sender t) = Some bal \<and> sint (amount t + fee t) \<le> bal)"

definition fees_of :: "tx_t list \<Rightarrow> u64" where
  "fees_of ts = sum_list (map fee ts)"

lemma draftD:
  assumes "draft b"
  shows "block_ok b" "1 \<le> tx_count b" "tx_count b \<le> 10" "length (transactions b) = 10"
  using assms block_okD(2) [of b] block_shapeD(2) [OF block_okD(1), of b] by (auto simp: draft_def)

lemma draft_add:
  assumes "draft b" "tx_count b < 10" "tx_ok t"
  shows "draft (b\<lparr>transactions := (transactions b)[nat (tx_count b) := t], tx_count := tx_count b + 1\<rparr>)"
    (is "draft ?b")
proof -
  note d = draftD [OF assms(1)]
  have "block_ok ?b"
    using d(1,4) assms(2,3) set_update_subset_insert [of "transactions b" "nat (tx_count b)" t]
    by (auto simp: block_ok_def block_shape_def block_consts)
  moreover have "drop (nat (tx_count ?b)) (transactions ?b) = replicate (10 - nat (tx_count ?b)) tx_zero"
  proof -
    define k where "k = nat (tx_count b)"
    have k: "nat (tx_count ?b) = Suc k" using d(2) by (simp add: k_def nat_add_distrib)
    have "drop (Suc k) ((transactions b)[k := t]) = drop 1 (drop k (transactions b))"
      by (simp add: drop_update_cancel)
    also have "\<dots> = replicate (10 - Suc k) tx_zero"
      using assms(1) by (simp add: draft_def k_def)
    finally show ?thesis unfolding k by (simp add: k_def)
  qed
  ultimately show ?thesis using d(2) by (simp add: draft_def)
qed

lemma collect_txs_spec:
  assumes "collect_txs c ts b f = Some (b', f')" "draft b" "\<forall>t \<in> set ts. tx_ok t"
  shows "\<exists>taken. taken = take (10 - nat (tx_count b)) (filter (affordable c) ts)
    \<and> draft b' \<and> block_txs b' = block_txs b @ taken \<and> f' = f + fees_of taken
    \<and> tx_count b' = tx_count b + int (length taken)
    \<and> index b' = index b \<and> timestamp b' = timestamp b \<and> prev_hash b' = prev_hash b"
  using assms
proof (induction ts arbitrary: b f)
  case Nil
  then show ?case by (simp add: fees_of_def)
next
  case (Cons t ts)
  note d = draftD [OF Cons.prems(2)]
  show ?case
  proof (cases "tx_count b < 10")
    case False
    with d(3) Cons.prems show ?thesis by (simp add: fees_of_def block_consts)
  next
    case True
    obtain bal where bal: "chain_get_balance c (sender t) = Some bal"
      using Cons.prems(1) True by (auto simp: block_consts)
    show ?thesis
    proof (cases "sint (amount t + fee t) \<le> bal")
      case False
      with bal Cons True have "\<not> affordable c t" by (simp add: affordable_def)
      moreover have "collect_txs c ts b f = Some (b', f')"
        using Cons.prems(1) True bal False by (simp add: block_consts)
      ultimately show ?thesis using Cons.IH [of b f] Cons.prems by simp
    next
      case pay: True
      let ?b = "b\<lparr>transactions := (transactions b)[nat (tx_count b) := t], tx_count := tx_count b + 1\<rparr>"
      have aff: "affordable c t" using bal pay by (simp add: affordable_def)
      have draft: "draft ?b" using draft_add [OF Cons.prems(2) True] Cons.prems(3) by simp
      have "collect_txs c ts ?b (f + fee t) = Some (b', f')"
        using Cons.prems(1) True bal pay d by (simp add: block_consts)
      from Cons.IH [OF this draft] Cons.prems(3) d
      have IH: "draft b'" "block_txs b' = block_txs ?b @ take (10 - nat (tx_count ?b)) (filter (affordable c) ts)"
        "f' = f + fee t + fees_of (take (10 - nat (tx_count ?b)) (filter (affordable c) ts))"
        "tx_count b' = tx_count ?b + int (length (take (10 - nat (tx_count ?b)) (filter (affordable c) ts)))"
        "index b' = index b" "timestamp b' = timestamp b" "prev_hash b' = prev_hash b"
        by simp_all
      have n: "10 - nat (tx_count b) = Suc (10 - nat (tx_count ?b))"
        using True d(2) by (simp add: nat_add_distrib)
      have "block_txs ?b = block_txs b @ [t]"
        using True d(2,4) by (simp add: block_txs_def nat_add_distrib take_Suc_conv_app_nth)
      with IH aff show ?thesis by (simp add: n fees_of_def)
    qed
  qed
qed

section \<open>Mining a block\<close>

lemma mine_header_eq:
  assumes "chain_inv h (node_chain n)"
  shows "mine_header now n = Some (block_zero\<lparr>index := index (last (blocks (node_chain n))) + 1,
    timestamp := now, prev_hash := hash (last (blocks (node_chain n)))\<rparr>)"
proof -
  have ne: "blocks (node_chain n) \<noteq> []" using assms by (simp add: chain_inv_def)
  then have "block_shape (last (blocks (node_chain n)))"
    using assms by (simp add: chain_inv_def chain_shape_def)
  then have "strncpy_to (hash (last (blocks (node_chain n)))) HASH_HEX_LEN = hash (last (blocks (node_chain n)))"
    using block_shapeD(4) [of "last (blocks (node_chain n))"]
    by (simp add: strncpy_to_def HASH_HEX_LEN_def)
  then show ?thesis by (simp add: mine_header_def chain_last_block_eq [OF ne])
qed

lemma header_draft:
  assumes "i64_ok now" "cstr_fits HASH_HEX_LEN p"
  shows "draft (block_zero\<lparr>index := i, timestamp := now, prev_hash := p, tx_count := 1\<rparr>)"
  using assms by (auto simp: draft_def block_ok_def block_shape_def block_zero_def block_consts cstr_fits_def)

lemma coinbase_with_fees_eq:
  assumes "cstr_fits ADDR_LEN addr"
  shows "coinbase_with_fees h addr f =
      \<lparr>sender = COINBASE_ADDR, receiver = addr, amount = MINING_REWARD + f, fee = 0,
       signature = ''COINBASE'',
       tx_hash = digest_hex (h (COINBASE_ADDR @ addr @ fmt_u (unat (MINING_REWARD + f)) @ ''0''))\<rparr>"
    "tx_ok (coinbase_with_fees h addr f)"
proof -
  let ?t = "\<lparr>sender = COINBASE_ADDR, receiver = addr, amount = MINING_REWARD + f, fee = 0,
       signature = ''COINBASE'', tx_hash = tx_hash (tx_create_coinbase h addr)\<rparr>"
  have "take 64 addr = addr" using assms by (simp add: cstr_fits_def ADDR_LEN_def)
  then have t: "coinbase_with_fees h addr f = tx_compute_hash h ?t"
    by (simp add: coinbase_with_fees_def tx_create_coinbase_def tx_compute_hash_def tx_zero_def
        strncpy_to_def tx_consts Let_def)
  have "tx_ok (tx_create_coinbase h addr)"
    using assms by (intro tx_create_coinbase_ok) (simp add: cstr_fits_def)
  then have ok: "tx_ok ?t"
    using assms by (simp add: tx_ok_def cstr_fits_def tx_consts)
  show "coinbase_with_fees h addr f =
      \<lparr>sender = COINBASE_ADDR, receiver = addr, amount = MINING_REWARD + f, fee = 0,
       signature = ''COINBASE'',
       tx_hash = digest_hex (h (COINBASE_ADDR @ addr @ fmt_u (unat (MINING_REWARD + f)) @ ''0''))\<rparr>"
    unfolding t by (simp add: tx_compute_hash_eq [OF ok] tx_content_def clib)
  show "tx_ok (coinbase_with_fees h addr f)" unfolding t by (rule tx_compute_hash_ok [OF ok])
qed

text \<open>What collecting does, given a header on the tip of the chain.\<close>

definition taken_txs :: "'k world \<Rightarrow> tx_t list" where
  "taken_txs n = take 9 (filter (affordable (node_chain n)) (mempool (app n)))"

definition mined_txs :: "env \<Rightarrow> 'k world \<Rightarrow> tx_t list" where
  "mined_txs e n = coinbase_with_fees (sha e) (address (wallet (app n))) (fees_of (taken_txs n)) # taken_txs n"

lemma mine_collect_spec:
  assumes "app_ok (app n)" "i64_ok now" "cstr_fits HASH_HEX_LEN p"
    "mine_collect e (block_zero\<lparr>index := i, timestamp := now, prev_hash := p\<rparr>) n = Some (b, n')"
  shows "block_ok b \<and> block_txs b = mined_txs e n \<and> tx_count b = int (length (mined_txs e n))
    \<and> index b = i \<and> prev_hash b = p \<and> n' = set_mempool n []"
proof -
  let ?b1 = "block_zero\<lparr>index := i, timestamp := now, prev_hash := p, tx_count := 1\<rparr>"
  let ?coin = "coinbase_with_fees (sha e) (address (wallet (app n)))"
  obtain b2 f where b2: "collect_txs (node_chain n) (mempool (app n)) ?b1 0 = Some (b2, f)"
    and b: "0 < length (transactions b2)" "b = b2\<lparr>transactions := (transactions b2)[0 := ?coin f]\<rparr>"
    and n': "n' = set_mempool n []"
    using assms(4) by (auto simp: mine_collect_def Let_def arr_set_eq_Some_iff)
  have d1: "draft ?b1" by (rule header_draft [OF assms(2,3)])
  have one: "block_txs ?b1 = [tx_zero]" by (simp add: block_txs_def block_zero_def block_consts)
  from collect_txs_spec [OF b2 d1] assms(1)
  have d2: "draft b2" "block_txs b2 = tx_zero # taken_txs n" "f = fees_of (taken_txs n)"
    "tx_count b2 = 1 + int (length (taken_txs n))" "index b2 = i" "prev_hash b2 = p"
    by (auto simp: app_ok_def taken_txs_def one)
  have coin: "tx_ok (?coin f)" using assms(1) by (intro coinbase_with_fees_eq) (simp add: app_ok_def)
  have "block_txs b = ?coin f # taken_txs n"
    using d2(2) b draftD(2,4) [OF d2(1)] by (simp add: block_txs_def take_update_swap)
  moreover have "block_ok b"
    using draftD(1) [OF d2(1)] coin set_update_subset_insert [of "transactions b2" 0 "?coin f"]
    by (auto simp: b(2) block_ok_def block_shape_def)
  ultimately show ?thesis using d2 b(2) n' by (simp add: mined_txs_def)
qed

lemma world_inv_set_mempool: "world_inv e n \<Longrightarrow> world_inv e (set_mempool n [])"
  by (simp add: node_inv_def app_ok_def)

text \<open>The whole of \<open>do_mine\<close> when nothing comes in between.\<close>

lemma do_mine_chain:
  assumes "world_inv e n" "chain_length (node_chain n) < MAX_BLOCKS" "i64_ok now"
    "do_mine e now n = Some n'"
  shows "\<exists>b fds. only_sends ((set_mempool n [])\<lparr>node_chain := \<lparr>blocks = blocks (node_chain n) @ [b]\<rparr>\<rparr>) fds n'
    \<and> block_ok b \<and> sealed (sha e) b \<and> block_txs b = mined_txs e n
    \<and> chain_inv (sha e) \<lparr>blocks = blocks (node_chain n) @ [b]\<rparr>"
proof -
  let ?tip = "last (blocks (node_chain n))"
  have inv: "chain_inv (sha e) (node_chain n)" "app_ok (app n)"
    using assms(1) by (simp_all add: node_inv_def)
  then have fits: "cstr_fits HASH_HEX_LEN (hash ?tip)"
    by (simp add: chain_inv_def chain_shape_def block_shape_def)
  obtain b0 n1 k b where c: "mine_collect e (block_zero\<lparr>index := index ?tip + 1, timestamp := now,
        prev_hash := hash ?tip\<rparr>) n = Some (b0, n1)"
    and m: "block_mine (sha e) b0 = Some (k, b)" and p: "mine_publish e b n1 = Some n'"
    using assms(4) by (auto simp: do_mine_def mine_header_eq [OF inv(1)])
  from mine_collect_spec [OF inv(2) assms(3) fits c]
  have b0: "block_ok b0" "block_txs b0 = mined_txs e n" "index b0 = index ?tip + 1"
    "prev_hash b0 = hash ?tip" and n1: "n1 = set_mempool n []" by auto
  have add: "chain_add_block (sha e) (node_chain n) b = Some (0, \<lparr>blocks = blocks (node_chain n) @ [b]\<rparr>)"
    by (rule mined_block_accepted [OF inv(1) assms(2) b0(1,3,4) m])
  obtain k' where "b = b0\<lparr>nonce := k', hash := mined_hash (sha e) b0 k'\<rparr>"
    using m b0(1) by (elim block_mine_sound)
  then have b: "block_ok b" "sealed (sha e) b" "block_txs b = mined_txs e n"
    using mined_block_ok [OF m b0(1)] block_mine_sealed [OF m b0(1)] b0(2)
    by (simp_all add: block_txs_def)
  have "broadcast_block_except e (n1\<lparr>node_chain := \<lparr>blocks = blocks (node_chain n) @ [b]\<rparr>\<rparr>) b (- 1) = Some n'"
    using p add n1 by (simp add: mine_publish_def node_broadcast_block_def)
  from broadcast_excludes [OF this] n1 b chain_add_block_inv [OF add inv(1) block_okD(1) [OF b(1)]]
  show ?thesis by blast
qed

section \<open>The effect on balances\<close>

lemma ledger_balance_snoc:
  "ledger_balance (bs @ [b]) a = ledger_balance bs a + (\<Sum>t\<leftarrow>block_txs b. tx_delta a t)"
  by (simp add: ledger_balance_def chain_txs_def)

lemma uint_fees_of:
  assumes "(\<Sum>t\<leftarrow>ts. uint (fee t)) < 2 ^ 63"
  shows "uint (fees_of ts) = (\<Sum>t\<leftarrow>ts. uint (fee t))"
  using assms
proof (induction ts)
  case (Cons t ts)
  have "0 \<le> (\<Sum>t\<leftarrow>ts. uint (fee t))" by (rule sum_list_nonneg) auto
  then have "(\<Sum>t\<leftarrow>ts. uint (fee t)) < 2 ^ 63"
    using Cons.prems uint_ge_0 [of "fee t"] unfolding list.map sum_list.Cons by linarith
  then have IH: "uint (fees_of ts) = (\<Sum>t\<leftarrow>ts. uint (fee t))" by (rule Cons.IH)
  have "0 \<le> uint (fee t) + uint (fees_of ts)" "uint (fee t) + uint (fees_of ts) < 2 ^ 64"
    using Cons.prems uint_ge_0 [of "fee t"] uint_ge_0 [of "fees_of ts"] by (simp_all add: IH)
  then have "uint (fee t + fees_of ts) = uint (fee t) + uint (fees_of ts)"
    by (simp add: uint_word_arith_bintrs take_bit_int_eq_self)
  with IH show ?case by (simp add: fees_of_def)
qed (simp add: fees_of_def)

lemma sum_fees_take_filter:
  "(\<Sum>t\<leftarrow>take k (filter P ts). uint (fee t)) \<le> (\<Sum>t\<leftarrow>ts. uint (fee t))"
proof (induction ts arbitrary: k)
  case (Cons t ts)
  show ?case
  proof (cases "P t \<and> k \<noteq> 0")
    case True
    then obtain k' where "k = Suc k'" by (cases k) auto
    with True Cons [of k'] show ?thesis by simp
  next
    case False
    have same: "take k (filter P (t # ts)) = take k (filter P ts)" using False by auto
    show ?thesis
      using Cons [of k] uint_ge_0 [of "fee t"] unfolding same list.map sum_list.Cons by linarith
  qed
qed simp

lemma sum_deltas:
  assumes "finite A" "\<forall>t \<in> set ts. sender t \<in> A \<and> receiver t \<in> A \<and> tx_sane t"
  shows "(\<Sum>a\<in>A. \<Sum>t\<leftarrow>ts. tx_delta a t) = - (\<Sum>t\<leftarrow>ts. uint (fee t))"
  using assms(2)
proof (induction ts)
  case (Cons t ts)
  then show ?case
    using sum_tx_delta [OF assms(1), of t] tx_sane_values [of t] by (simp add: sum.distrib)
qed simp

lemma sum_coinbase:
  assumes "finite A" "COINBASE_ADDR \<notin> A" "sender t = COINBASE_ADDR" "receiver t \<in> A"
  shows "(\<Sum>a\<in>A. tx_delta a t) = sint (amount t)"
proof -
  have "(\<Sum>a\<in>A. tx_delta a t) = (\<Sum>a\<in>A. if a = receiver t then sint (amount t) else 0)"
    using assms(2,3) by (intro sum.cong refl) (auto simp: tx_delta_def)
  with assms(1,4) show ?thesis by simp
qed

section \<open>Mining returns\<close>

lemma collect_txs_defined:
  assumes "\<forall>t \<in> set ts. \<exists>v. chain_get_balance c (sender t) = Some v" "draft b" "\<forall>t \<in> set ts. tx_ok t"
  shows "\<exists>r. collect_txs c ts b f = Some r"
  using assms
proof (induction ts arbitrary: b f)
  case (Cons t ts)
  note d = draftD [OF Cons.prems(2)]
  obtain v where v: "chain_get_balance c (sender t) = Some v" using Cons.prems(1) by auto
  show ?case
  proof (cases "tx_count b < 10 \<and> sint (amount t + fee t) \<le> v")
    case True
    then have i: "nat (tx_count b) < length (transactions b)" using d by auto
    from Cons.IH [OF _ draft_add [OF Cons.prems(2)]] Cons.prems True v i show ?thesis
      by (simp add: block_consts)
  next
    case False
    with Cons.IH [OF _ Cons.prems(2)] Cons.prems v show ?thesis by (auto simp: block_consts)
  qed
qed simp

lemma mine_collect_defined:
  assumes "app_ok (app n)" "i64_ok now" "cstr_fits HASH_HEX_LEN p"
    "\<forall>t \<in> set (mempool (app n)). \<exists>v. chain_get_balance (node_chain n) (sender t) = Some v"
  shows "\<exists>r. mine_collect e (block_zero\<lparr>index := i, timestamp := now, prev_hash := p\<rparr>) n = Some r"
proof -
  let ?h = "block_zero\<lparr>index := i, timestamp := now, prev_hash := p, tx_count := 1\<rparr>"
  have d: "draft ?h" by (rule header_draft [OF assms(2,3)])
  have txs: "\<forall>t \<in> set (mempool (app n)). tx_ok t" using assms(1) by (simp add: app_ok_def)
  obtain b f where b: "collect_txs (node_chain n) (mempool (app n)) ?h 0 = Some (b, f)"
    using collect_txs_defined [OF assms(4) d txs, of 0] by auto
  have "0 < length (transactions b)"
    using collect_txs_spec [OF b d txs] draftD(4) by fastforce
  with b show ?thesis by (simp add: mine_collect_def)
qed

text \<open>The stages of mining one after the other: each of them returns.\<close>

lemma mining_stages:
  assumes "world_inv e n" "chain_length (node_chain n) < MAX_BLOCKS" "i64_ok now"
    "\<forall>t \<in> set (mempool (app n)). \<exists>v. chain_get_balance (node_chain n) (sender t) = Some v"
    "\<forall>b. block_ok b \<longrightarrow> (\<exists>k. pow_nonce (sha e) b k)"
  obtains h b n1 k b' where "mine_header now n = Some h" "mine_collect e h n = Some (b, n1)"
    "block_mine (sha e) b = Some (k, b')" "n1 = set_mempool n []" "block_ok b'" "index b' = index b"
    "chain_add_block (sha e) (node_chain n) b' = Some (0, \<lparr>blocks = blocks (node_chain n) @ [b']\<rparr>)"
proof -
  let ?tip = "last (blocks (node_chain n))"
  let ?h = "block_zero\<lparr>index := index ?tip + 1, timestamp := now, prev_hash := hash ?tip\<rparr>"
  have inv: "chain_inv (sha e) (node_chain n)" "app_ok (app n)"
    using assms(1) by (simp_all add: node_inv_def)
  then have fits: "cstr_fits HASH_HEX_LEN (hash ?tip)"
    by (simp add: chain_inv_def chain_shape_def block_shape_def)
  obtain b0 n1 where c: "mine_collect e ?h n = Some (b0, n1)"
    using mine_collect_defined [OF inv(2) assms(3) fits assms(4)] by fastforce
  from mine_collect_spec [OF inv(2) assms(3) fits c]
  have b0: "block_ok b0" "index b0 = index ?tip + 1" "prev_hash b0 = hash ?tip"
    and n1: "n1 = set_mempool n []" by auto
  obtain k b1 where m: "block_mine (sha e) b0 = Some (k, b1)"
    using assms(5) b0(1) block_mine_returns by fastforce
  obtain k' where "b1 = b0\<lparr>nonce := k', hash := mined_hash (sha e) b0 k'\<rparr>"
    using m b0(1) by (elim block_mine_sound)
  then have "index b1 = index b0" by simp
  then show thesis
    using that [OF mine_header_eq [OF inv(1)] c m n1 mined_block_ok [OF m b0(1)]]
      mined_block_accepted [OF inv(1) assms(2) b0 m] by blast
qed

lemma do_mine_returns:
  assumes "reliable e" "world_inv e n" "chain_length (node_chain n) < MAX_BLOCKS" "i64_ok now"
    "\<forall>t \<in> set (mempool (app n)). \<exists>v. chain_get_balance (node_chain n) (sender t) = Some v"
    "\<forall>b. block_ok b \<longrightarrow> (\<exists>k. pow_nonce (sha e) b k)"
  shows "\<exists>n'. do_mine e now n = Some n'"
  by (rule mining_stages [OF assms(2-6)])
    (simp add: do_mine_def mine_publish_def node_broadcast_block_def broadcast_block_eq [OF assms(1)])

section \<open>Sending a payment\<close>

lemma tx_create_sel:
  assumes "cstr_fits ADDR_LEN src" "cstr_fits ADDR_LEN rcv"
  shows "sender (tx_create h src rcv a f) = src" "receiver (tx_create h src rcv a f) = rcv"
    "amount (tx_create h src rcv a f) = a" "fee (tx_create h src rcv a f) = f"
    "plain (tx_hash (tx_create h src rcv a f))"
  using assms
  by (simp_all add: tx_create_def strncpy_to_def cstr_fits_def ADDR_LEN_def tx_compute_hash_def Let_def)

lemma do_send_accepts:
  assumes "ed25519 cr k" "keypair (wallet (app n)) = Some k" "wallet_ok cr (wallet (app n))"
    "inp = \<lparr>in_receiver = Some rcv, in_amount = Some amt, in_fee = Some f\<rparr>" "cstr_fits ADDR_LEN rcv"
    "MIN_TX_FEE \<le> f" "chain_get_balance (node_chain n) (address (wallet (app n))) = Some bal"
    "sint (amt + f) \<le> bal"
  obtains t where "do_send e cr True inp n = Some (node_broadcast_tx e (mempool_push n t) t)"
    "sender t = address (wallet (app n))" "receiver t = rcv" "amount t = amt" "fee t = f"
    "wallet_verify_tx cr t = 0" "tx_ok t" "plain (signature t)" "plain (tx_hash t)"
    "plain (sender t)"
proof -
  let ?w = "wallet (app n)"
  let ?t = "tx_create (sha e) (address ?w) rcv amt f"
  obtain pub where addr: "address ?w = hex_bytes pub" using assms(3) by (auto simp: wallet_ok_def)
  have fits: "cstr_fits ADDR_LEN (address ?w)"
    using sign_verify [OF assms(1-3), of "tx_zero\<lparr>sender := address ?w\<rparr>"] by auto
  note sel = tx_create_sel [OF fits assms(5), of "sha e" amt f]
  obtain sig where sig: "wallet_sign_tx cr True ?w ?t = (0, ?t\<lparr>signature := hex_bytes sig\<rparr>)"
    "cstr_fits SIG_LEN (hex_bytes sig)" "wallet_verify_tx cr (?t\<lparr>signature := hex_bytes sig\<rparr>) = 0"
    using sign_verify [OF assms(1-3) sel(1)] by blast
  have ok: "tx_ok ?t" using fits assms(5) by (intro tx_create_ok) (simp_all add: cstr_fits_def)
  have "take 64 rcv = rcv" using assms(5) by (simp add: cstr_fits_def ADDR_LEN_def)
  then have "do_send e cr True inp n = Some (node_broadcast_tx e (mempool_push n (?t\<lparr>signature := hex_bytes sig\<rparr>))
      (?t\<lparr>signature := hex_bytes sig\<rparr>))"
    using assms(4,6-8) sig(1) by (simp add: do_send_def Let_def not_less)
  with that [of "?t\<lparr>signature := hex_bytes sig\<rparr>"] sel sig ok addr show thesis
    by (simp add: tx_ok_def)
qed

lemma broadcast_tx_eq:
  assumes "reliable e" "tx_ok t"
  shows "node_broadcast_tx e n t = n\<lparr>outbox := outbox n
    @ map (\<lambda>p. (fd p, msg_text MSG_NEW_TX (tx_text t) @ [CHR 0x0A])) (filter active (peers n))\<rparr>"
proof -
  have al: "\<forall>k. malloc e k" using assms(1) by (simp add: reliable_def alloc_ok_def)
  then show ?thesis
    by (simp add: node_broadcast_tx_def protocol_serialize_tx_eq [OF assms(2)] protocol_serialize_msg_eq
        send_to_peers_reliable [OF assms(1)])
qed

section \<open>Receiving a transaction\<close>

lemma handle_new_tx_message:
  assumes "malloc e = alloc_ok" "tx_wire t"
  shows "handle_message e (app_callbacks e) n s (msg_text MSG_NEW_TX (tx_text t)) = Some (mempool_push n t)"
  using protocol_parse_msg_eq [OF tx_wire_text [OF assms(2)], of alloc_ok] assms(1)
    protocol_deserialize_tx_text [OF tx_wire_sendable [OF assms(2)]]
  by (simp add: handle_message_def handle_new_tx_def app_callbacks_def on_new_tx_cb_def alloc_ok_def)

lemma handle_new_block_app:
  assumes "handle_new_block e (app_callbacks e) n s payload = Some n'"
  shows "app n' = app n"
proof -
  obtain r b where b: "protocol_deserialize_block (malloc e) payload = (r, b)" by fastforce
  then consider "n' = n" | c v where "n' = n\<lparr>node_chain := c\<rparr>"
    | c where "broadcast_block_except e (n\<lparr>node_chain := c\<rparr>) b s = Some n'"
    using assms
    by (fastforce simp: handle_new_block_def app_callbacks_def Let_def split: if_splits)
  then show ?thesis
  proof cases
    case (3 c)
    from broadcast_excludes [OF this] show ?thesis by (auto dest: only_sendsD(4))
  qed simp_all
qed

section \<open>The invariant across the main thread\<close>

text \<open>
  The bounds that OpenSSL keeps when it fills the arrays of the wallet: at most the 32 and 64 bytes
  that the callers pass as the length.
\<close>

definition crypto_bounds :: "'k crypto \<Rightarrow> bool" where
  "crypto_bounds cr \<longleftrightarrow> (\<forall>k pub. get_raw_public_key cr k = Some pub \<longrightarrow> length pub \<le> 32)
     \<and> (\<forall>k m sig. digest_sign cr k m = Some sig \<longrightarrow> length sig \<le> 64)"

lemma send_prepare_ok:
  assumes "world_inv e n" "crypto_bounds cr" "send_prepare e cr md inp n = Some (Some t)"
    "\<forall>rcv. in_receiver inp = Some rcv \<longrightarrow> CHR 0x00 \<notin> set rcv"
  shows "tx_ok t"
proof -
  let ?w = "wallet (app n)"
  obtain rcv amt f r where rcv: "in_receiver inp = Some rcv"
    and t: "wallet_sign_tx cr md ?w (tx_create (sha e) (address ?w) (take 64 rcv) amt f) = (r, t)" "r = 0"
    using assms(3) by (auto simp: send_prepare_def Let_def split: option.splits if_splits prod.splits)
  have "CHR 0x00 \<notin> set (address ?w)"
    using assms(1) by (simp add: node_inv_def app_ok_def cstr_fits_def)
  then have ok: "tx_ok (tx_create (sha e) (address ?w) (take 64 rcv) amt f)"
    using assms(4) rcv by (intro tx_create_ok) (auto dest: in_set_takeD)
  have "cstr_fits SIG_LEN (hex_bytes sig)" if "digest_sign cr (keypair ?w) m = Some sig" for sig m
  proof -
    have "length sig \<le> 64" using assms(2) that unfolding crypto_bounds_def by blast
    then show ?thesis by (intro hex_bytes_fits) (simp add: SIG_LEN_def)
  qed
  with t ok show ?thesis
    by (auto simp: wallet_sign_tx_def tx_ok_def split: if_splits option.splits)
qed

lemma mempool_push_inv:
  "world_inv e n \<Longrightarrow> tx_ok t \<Longrightarrow> world_inv e (mempool_push n t) \<and> same_node n (mempool_push n t)"
  using node_inv_same [OF mempool_push_same, of e app_ok n t] mempool_push_ok [of n t] mempool_push_same [of n t]
  by (simp add: node_inv_def)

lemma broadcast_tx_inv:
  "world_inv e n \<Longrightarrow> world_inv e (node_broadcast_tx e n t) \<and> same_node n (node_broadcast_tx e n t)"
  using only_sends_broadcast_tx [of n e t] node_inv_sends only_sends_same by blast

lemma mine_publish_inv:
  assumes "world_inv e n" "block_ok b" "mine_publish e b n = Some n'"
  shows "world_inv e n' \<and> grows (node_chain n) (node_chain n')
    \<and> same_sockets n n' \<and> app n' = app n"
proof -
  obtain r c where c: "chain_add_block (sha e) (node_chain n) b = Some (r, c)"
    using assms(3) by (auto simp: mine_publish_def)
  note shape = block_okD(1) [OF assms(2)]
  have inv: "chain_inv (sha e) c" "grows (node_chain n) c"
    using chain_add_block_inv [OF c _ shape] chain_add_block_grows [OF c _ shape] assms(1)
    by (simp_all add: node_inv_def chain_inv_def)
  show ?thesis
  proof (cases "r = 0")
    case True
    then have "broadcast_block_except e (n\<lparr>node_chain := c\<rparr>) b (- 1) = Some n'"
      using assms(3) c by (simp add: mine_publish_def node_broadcast_block_def)
    from broadcast_excludes [OF this] obtain fds where fds: "only_sends (n\<lparr>node_chain := c\<rparr>) fds n'"
      by blast
    show ?thesis
      using inv assms(1)
      by (simp add: node_inv_sends [OF fds] only_sendsD [OF fds] same_sockets_def) (simp add: node_inv_def)
  next
    case False
    with assms c show ?thesis by (simp add: mine_publish_def)
  qed
qed

lemma main_stop_inv: "world_inv e n \<Longrightarrow> world_inv e (main_stop n) \<and> node_chain (main_stop n) = node_chain n"
  by (auto simp: main_stop_def node_stop_def node_inv_def app_ok_def wallet_destroy_def Let_def
      split: option.split)

lemma open_wallet_address:
  assumes "open_wallet cr gen can_write fs = (0, w, fs')" "crypto_bounds cr"
  shows "cstr_fits ADDR_LEN (address w)"
proof -
  have fits: "cstr_fits ADDR_LEN (hex_bytes pub)" if "get_raw_public_key cr k = Some pub" for k pub
  proof -
    have "length pub \<le> 32" using assms(2) that unfolding crypto_bounds_def by blast
    then show ?thesis by (intro hex_bytes_fits) (simp add: ADDR_LEN_def)
  qed
  from assms(1) show ?thesis
    by (auto simp: open_wallet_def wallet_load_def wallet_create_def extract_address_def wallet_zero_def
        Let_def fits split: option.splits if_splits prod.splits)
qed

lemma main_start_inv:
  assumes "main_start (sha e) cr gen can_write fs lr p = Some (Inr n)" "crypto_bounds cr"
  shows "world_inv e n \<and> chain_length (node_chain n) = 1 \<and> mempool (app n) = [] \<and> peers n = []"
proof -
  obtain r w fs' where w: "open_wallet cr gen can_write fs = (r, w, fs')" by (metis prod_cases3)
  with assms(1) have r: "r = 0" by (auto simp: main_start_def split: if_splits)
  with assms(1) w obtain c where c: "chain_init (sha e) = Some c"
    by (auto simp: main_start_def)
  obtain v m where m: "node_init lr \<lparr>mempool = [], wallet = w, quit_flag = False\<rparr> p c = (v, m)" by fastforce
  with assms(1) w r c have n: "node_init lr \<lparr>mempool = [], wallet = w, quit_flag = False\<rparr> p c = (0, n)"
    by (auto simp: main_start_def split: if_splits)
  have len: "length (blocks c) = 1" using c by (auto simp: chain_init_def)
  from n have "node_chain n = c" "peers n = []" "app n = \<lparr>mempool = [], wallet = w, quit_flag = False\<rparr>"
    by (auto simp: node_init_def Let_def split: if_splits)
  then show ?thesis
    using chain_init_inv [OF c] len open_wallet_address [OF w [unfolded r] assms(2)]
    by (simp add: node_inv_def app_ok_def chain_length_def)
qed

section \<open>A concrete program state\<close>

text \<open>A node with the two-block chain, one peer, and the given mempool.\<close>

definition demo_world :: "tx_t list \<Rightarrow> u8 world" where
  "demo_world ts = \<lparr>node_port = DEFAULT_PORT, server_fd = 3,
     peers = [\<lparr>fd = 4, host = ''localhost'', port = 9334, active = True\<rparr>],
     node_chain = demo_chain, running = True,
     app = \<lparr>mempool = ts, wallet = demo_wallet, quit_flag = False\<rparr>, outbox = [], closed = []\<rparr>"

lemma demo_balance:
  "chain_get_balance demo_chain addr = Some (if addr = ''aa'' then 40 else if addr = ''bb'' then 10
    else if addr = ''COINBASE'' then - 51 else 0)"
proof -
  have "\<forall>b \<in> set (blocks demo_chain). block_ok b" by (simp add: demo_chain_def)
  then have "chain_get_balance demo_chain addr = balance_fold addr [demo_coinbase, demo_payment] 0"
    by (simp add: chain_get_balance_eq_fold demo_chain_txs)
  also have "\<dots> = Some (\<Sum>t\<leftarrow>[demo_coinbase, demo_payment]. tx_delta addr t)"
    using balance_fold_small [of 0 "[demo_coinbase, demo_payment]" addr]
    by (simp add: tx_volume_def demo_coinbase_def demo_payment_def)
  finally show ?thesis by (simp add: tx_delta_def demo_coinbase_def demo_payment_def)
qed

lemma demo_world_sel [simp]:
  "node_chain (demo_world ts) = demo_chain" "mempool (app (demo_world ts)) = ts"
  "wallet (app (demo_world ts)) = demo_wallet" "chain_length demo_chain < MAX_BLOCKS"
  "length (peers (demo_world ts)) = 1"
  by (simp_all add: demo_world_def chain_length_def demo_chain_def MAX_BLOCKS_def)

lemma demo_address: "cstr_fits ADDR_LEN (address demo_wallet)"
  by (simp add: demo_wallet_def hex_bytes_fits tx_consts)

lemma demo_world_inv:
  "length ts \<le> 100 \<Longrightarrow> \<forall>t \<in> set ts. tx_ok t \<Longrightarrow> world_inv demo_env (demo_world ts)"
  using demo_address by (simp add: node_inv_def app_ok_def MAX_PEERS_def MEMPOOL_SIZE_def)

lemma zero_sha_pow: "pow_nonce zero_sha b k"
  by (simp add: pow_nonce_def mined_hash_def)

lemma demo_mines:
  assumes "length ts \<le> 100" "\<forall>t \<in> set ts. tx_ok t"
  obtains n' where "do_mine demo_env 1800000000 (demo_world ts) = Some n'"
  using do_mine_returns [OF demo_env_facts(1) demo_world_inv [OF assms], of 1800000000]
  by (auto simp: demo_balance i64_ok_def zero_sha_pow)

section \<open>Properties\<close>

text \<open>
  C2. Mining, in full: on a chain with room, with balances defined and a hash that some nonce
  satisfies, \<open>do_mine\<close> returns; the chain is extended by one sealed block, which holds the coinbase of
  the reward and the fees to the own address, then the first nine transactions of the mempool that
  their senders can pay; the mempool is empty afterwards and the invariant holds.
\<close>

theorem do_mine_spec:
  assumes "reliable e" "world_inv e n" "chain_length (node_chain n) < MAX_BLOCKS" "i64_ok now"
    "\<forall>t \<in> set (mempool (app n)). \<exists>v. chain_get_balance (node_chain n) (sender t) = Some v"
    "\<forall>b. block_ok b \<longrightarrow> (\<exists>k. pow_nonce (sha e) b k)"
  shows "\<exists>n' b coinbase taken. do_mine e now n = Some n'
    \<and> blocks (node_chain n') = blocks (node_chain n) @ [b] \<and> sealed (sha e) b
    \<and> take (nat (tx_count b)) (transactions b) = coinbase # taken
    \<and> taken = take 9 (filter (affordable (node_chain n)) (mempool (app n)))
    \<and> sender coinbase = COINBASE_ADDR \<and> receiver coinbase = address (wallet (app n))
    \<and> amount coinbase = MINING_REWARD + sum_list (map fee taken)
    \<and> mempool (app n') = [] \<and> world_inv e n'"
proof -
  obtain n' where n': "do_mine e now n = Some n'" using do_mine_returns [OF assms] by blast
  obtain b fds where b: "only_sends ((set_mempool n [])\<lparr>node_chain := \<lparr>blocks = blocks (node_chain n) @ [b]\<rparr>\<rparr>) fds n'"
    "sealed (sha e) b" "block_txs b = mined_txs e n"
    "chain_inv (sha e) \<lparr>blocks = blocks (node_chain n) @ [b]\<rparr>"
    using do_mine_chain [OF assms(2-4) n'] by blast
  have ok: "app_ok (app n)" "cstr_fits ADDR_LEN (address (wallet (app n)))"
    using assms(2) by (simp_all add: node_inv_def app_ok_def)
  have "world_inv e n'"
    unfolding node_inv_sends [OF b(1)]
    using b(4) assms(2) world_inv_set_mempool [OF assms(2)] by (simp add: node_inv_def)
  then show ?thesis
    using n' b(2,3) only_sendsD [OF b(1)] coinbase_with_fees_eq [OF ok(2)]
    by (simp add: mined_txs_def taken_txs_def block_txs_def fees_of_def)
qed

theorem do_mine_spec_witness:
  "\<exists>n' b. do_mine demo_env 1800000000 (demo_world [demo_payment]) = Some n'
    \<and> blocks (node_chain n') = blocks demo_chain @ [b]
    \<and> map amount (take (nat (tx_count b)) (transactions b)) = [51, 10]"
proof -
  have ok: "\<forall>t \<in> set [demo_payment]. tx_ok t" using demo_wire(1) by (simp add: tx_wire_def)
  have "affordable demo_chain demo_payment"
    by (simp add: affordable_def demo_balance demo_payment_def)
  then show ?thesis
    using do_mine_spec [OF demo_env_facts(1) demo_world_inv [OF _ ok], of 1800000000]
    by (auto simp: demo_balance i64_ok_def zero_sha_pow MINING_REWARD_def demo_payment_def)
qed

text \<open>
  C3. The supply grows by exactly the reward: summed over any finite set of ordinary accounts that
  holds the miner and every sender and receiver in the mempool, and not the coinbase account, the
  balances after a mined block exceed those before by \<open>MINING_REWARD\<close>: the fees the senders lose
  are what the miner gains.
\<close>

theorem mining_supply:
  assumes "world_inv e n" "chain_length (node_chain n) < MAX_BLOCKS" "i64_ok now"
    "do_mine e now n = Some n'" "finite A" "COINBASE_ADDR \<notin> A" "address (wallet (app n)) \<in> A"
    "\<forall>t \<in> set (mempool (app n)). sender t \<in> A \<and> receiver t \<in> A \<and> tx_sane t"
    "(\<Sum>t\<leftarrow>mempool (app n). uint (fee t)) < 2 ^ 62"
  shows "(\<Sum>a\<in>A. ledger_balance (blocks (node_chain n')) a)
    = (\<Sum>a\<in>A. ledger_balance (blocks (node_chain n)) a) + uint MINING_REWARD"
proof -
  let ?taken = "taken_txs n"
  obtain b fds where b: "only_sends ((set_mempool n [])\<lparr>node_chain := \<lparr>blocks = blocks (node_chain n) @ [b]\<rparr>\<rparr>) fds n'"
    "block_txs b = mined_txs e n"
    using do_mine_chain [OF assms(1-4)] by blast
  define coin where "coin = coinbase_with_fees (sha e) (address (wallet (app n))) (fees_of ?taken)"
  have coin: "sender coin = COINBASE_ADDR" "receiver coin \<in> A"
    "amount coin = MINING_REWARD + fees_of ?taken"
    using coinbase_with_fees_eq(1) [of "address (wallet (app n))"] assms(1,7)
    by (simp_all add: coin_def node_inv_def app_ok_def)
  have sub: "set ?taken \<subseteq> set (mempool (app n))"
    by (auto simp: taken_txs_def dest: in_set_takeD)
  have small: "(\<Sum>t\<leftarrow>?taken. uint (fee t)) < 2 ^ 62"
    using sum_fees_take_filter [of 9 "affordable (node_chain n)" "mempool (app n)"] assms(9)
    by (simp add: taken_txs_def)
  then have fees: "uint (fees_of ?taken) = (\<Sum>t\<leftarrow>?taken. uint (fee t))" by (intro uint_fees_of) simp
  have "uint (amount coin) = 50 + uint (fees_of ?taken)"
    unfolding coin(3) using small fees uint_ge_0 [of "fees_of ?taken"]
    by (simp add: MINING_REWARD_def uint_word_arith_bintrs take_bit_int_eq_self)
  then have amount: "sint (amount coin) = 50 + (\<Sum>t\<leftarrow>?taken. uint (fee t))"
    using small fees by (simp add: sint64_small)
  have "(\<Sum>a\<in>A. ledger_balance (blocks (node_chain n')) a)
      = (\<Sum>a\<in>A. ledger_balance (blocks (node_chain n)) a + tx_delta a coin + (\<Sum>t\<leftarrow>?taken. tx_delta a t))"
    by (simp add: only_sendsD [OF b(1)] ledger_balance_snoc b(2) mined_txs_def coin_def add.assoc)
  also have "\<dots> = (\<Sum>a\<in>A. ledger_balance (blocks (node_chain n)) a) + (\<Sum>a\<in>A. tx_delta a coin)
      + (\<Sum>a\<in>A. \<Sum>t\<leftarrow>?taken. tx_delta a t)"
    by (simp add: sum.distrib)
  also have "(\<Sum>a\<in>A. tx_delta a coin) = sint (amount coin)"
    by (rule sum_coinbase [OF assms(5,6) coin(1,2)])
  also have "(\<Sum>a\<in>A. \<Sum>t\<leftarrow>?taken. tx_delta a t) = - (\<Sum>t\<leftarrow>?taken. uint (fee t))"
    using assms(8) sub by (intro sum_deltas [OF assms(5)]) blast
  finally show ?thesis using amount by (simp add: MINING_REWARD_def)
qed

theorem mining_supply_witness:
  "\<exists>n'. do_mine demo_env 1800000000 (demo_world [demo_payment]) = Some n'
    \<and> (\<Sum>a\<in>{''aa'', ''bb'', address demo_wallet}. ledger_balance (blocks (node_chain n')) a)
      = (\<Sum>a\<in>{''aa'', ''bb'', address demo_wallet}. ledger_balance (blocks demo_chain) a) + 50"
proof -
  have ok: "length [demo_payment] \<le> 100" "\<forall>t \<in> set [demo_payment]. tx_ok t"
    using demo_wire(1) by (simp_all add: tx_wire_def)
  obtain n' where n': "do_mine demo_env 1800000000 (demo_world [demo_payment]) = Some n'"
    using demo_mines [OF ok] .
  have "COINBASE_ADDR \<noteq> address demo_wallet"
    using hex_address_not_coinbase [of "replicate 32 7"] by (simp add: demo_wallet_def)
  then show ?thesis
    using mining_supply [OF demo_world_inv [OF ok] _ _ n', of "{''aa'', ''bb'', address demo_wallet}"] n'
    by (simp add: i64_ok_def demo_payment_def tx_sane_def MINING_REWARD_def COINBASE_ADDR_def)
qed

text \<open>
  C35. Double spending inside one block: the balance check of \<open>do_mine\<close> looks at the chain only, not at
  the transactions already taken, so two payments that the sender can afford singly are both mined,
  and the sender's balance falls by both costs, below zero if their sum exceeds it.
\<close>

theorem double_spend_mined:
  assumes "world_inv e n" "chain_length (node_chain n) < MAX_BLOCKS" "i64_ok now"
    "mempool (app n) = [t1, t2]" "affordable (node_chain n) t1" "affordable (node_chain n) t2"
    "sender t1 = a" "sender t2 = a" "receiver t1 \<noteq> a" "receiver t2 \<noteq> a"
    "a \<noteq> COINBASE_ADDR" "a \<noteq> address (wallet (app n))" "do_mine e now n = Some n'"
  shows "ledger_balance (blocks (node_chain n')) a = ledger_balance (blocks (node_chain n)) a
    - sint (amount t1 + fee t1) - sint (amount t2 + fee t2)"
proof -
  obtain b fds where b: "only_sends ((set_mempool n [])\<lparr>node_chain := \<lparr>blocks = blocks (node_chain n) @ [b]\<rparr>\<rparr>) fds n'"
    "block_txs b = mined_txs e n"
    using do_mine_chain [OF assms(1-3,13)] by blast
  have "cstr_fits ADDR_LEN (address (wallet (app n)))"
    using assms(1) by (simp add: node_inv_def app_ok_def)
  note coin = coinbase_with_fees_eq(1) [OF this]
  have "taken_txs n = [t1, t2]" using assms(4-6) by (simp add: taken_txs_def)
  then have "(\<Sum>t\<leftarrow>block_txs b. tx_delta a t) = - sint (amount t1 + fee t1) - sint (amount t2 + fee t2)"
    using assms(7-12) by (simp add: b(2) mined_txs_def coin tx_delta_def)
  then show ?thesis by (simp add: only_sendsD [OF b(1)] ledger_balance_snoc)
qed

theorem double_spend_mined_witness:
  "\<exists>n'. do_mine demo_env 1800000000
      (demo_world [demo_payment\<lparr>amount := 30\<rparr>, demo_payment\<lparr>amount := 30\<rparr>]) = Some n'
    \<and> ledger_balance (blocks demo_chain) ''aa'' = 40
    \<and> ledger_balance (blocks (node_chain n')) ''aa'' = - 22"
proof -
  let ?t = "demo_payment\<lparr>amount := 30\<rparr>"
  have ok: "length [?t, ?t] \<le> 100" "\<forall>t \<in> set [?t, ?t]. tx_ok t"
    using demo_wire(1) by (simp_all add: tx_wire_def tx_ok_def)
  obtain n' where n': "do_mine demo_env 1800000000 (demo_world [?t, ?t]) = Some n'"
    using demo_mines [OF ok] .
  have aff: "affordable demo_chain ?t" by (simp add: affordable_def demo_balance demo_payment_def)
  have "length ''aa'' \<noteq> length (address demo_wallet)" by (simp add: demo_wallet_def)
  then have addr: "''aa'' \<noteq> address demo_wallet" by metis
  have "ledger_balance (blocks demo_chain) ''aa'' = 40"
    by (simp add: ledger_balance_def demo_chain_txs tx_delta_def demo_coinbase_def demo_payment_def)
  moreover have "sender ?t = ''aa''" "receiver ?t \<noteq> ''aa''" "''aa'' \<noteq> COINBASE_ADDR"
    "sint (amount ?t + fee ?t) = 31"
    by (simp_all add: demo_payment_def COINBASE_ADDR_def)
  ultimately show ?thesis
    using double_spend_mined [OF demo_world_inv [OF ok], of 1800000000 ?t ?t "''aa''" n'] n' aff addr
    by (simp add: i64_ok_def)
qed

text \<open>
  The race between mining and the network: if a block with the same index has been appended
  while the miner was searching, the mined block is refused and the state stays as it is; the
  transactions it held are no longer in the mempool.
\<close>

theorem stale_block_refused:
  assumes "world_inv e n" "chain_length (node_chain n) < MAX_BLOCKS" "i64_ok now"
    "mine_header now n = Some h" "mine_collect e h n = Some (b, n1)" "block_mine (sha e) b = Some (k, b')"
    "chain_inv (sha e) c" "blocks c = blocks (node_chain n) @ bs" "index (last bs) = index b" "bs \<noteq> []"
  shows "mine_publish e b' (n1\<lparr>node_chain := c\<rparr>) = Some (n1\<lparr>node_chain := c\<rparr>) \<and> mempool (app n1) = []"
proof -
  have inv: "chain_inv (sha e) (node_chain n)" "app_ok (app n)"
    using assms(1) by (simp_all add: node_inv_def)
  let ?tip = "last (blocks (node_chain n))"
  have fits: "cstr_fits HASH_HEX_LEN (hash ?tip)"
    using inv by (simp add: chain_inv_def chain_shape_def block_shape_def)
  have h: "h = block_zero\<lparr>index := index ?tip + 1, timestamp := now, prev_hash := hash ?tip\<rparr>"
    using assms(4) by (simp add: mine_header_eq [OF inv(1)])
  from mine_collect_spec [OF inv(2) assms(3) fits assms(5) [unfolded h]]
  have b: "block_ok b" and n1: "n1 = set_mempool n []" by auto
  obtain k' where "b' = b\<lparr>nonce := k', hash := mined_hash (sha e) b k'\<rparr>"
    using assms(6) b by (elim block_mine_sound)
  then have "index b' = index b" by simp
  moreover have "block_shape b'" using mined_block_ok [OF assms(6) b] by (simp add: block_okD)
  ultimately have "chain_add_block (sha e) c b' = Some (- 1, c)"
    using assms(7-10) by (simp add: chain_add_block_eq chain_inv_def)
  then show ?thesis using n1 by (simp add: mine_publish_def)
qed

theorem stale_block_refused_witness:
  "\<exists>b b' n1 c. mine_collect demo_env (the (mine_header 1800000000 (demo_world [demo_payment])))
      (demo_world [demo_payment]) = Some (b, n1)
    \<and> mine_publish demo_env b' (n1\<lparr>node_chain := c\<rparr>) = Some (n1\<lparr>node_chain := c\<rparr>)
    \<and> blocks c = blocks demo_chain @ [b'] \<and> mempool (app n1) = []"
proof -
  let ?n = "demo_world [demo_payment]"
  have ok: "\<forall>t \<in> set [demo_payment]. tx_ok t" using demo_wire(1) by (simp add: tx_wire_def)
  have inv: "world_inv demo_env ?n" using ok by (intro demo_world_inv) simp_all
  obtain h b n1 k b' where m: "mine_header 1800000000 ?n = Some h" "mine_collect demo_env h ?n = Some (b, n1)"
    "block_mine (sha demo_env) b = Some (k, b')" and b': "block_ok b'" "index b' = index b"
    and add: "chain_add_block (sha demo_env) (node_chain ?n) b' = Some (0, \<lparr>blocks = blocks (node_chain ?n) @ [b']\<rparr>)"
    by (rule mining_stages [OF inv, of 1800000000])
      (auto simp: demo_balance i64_ok_def zero_sha_pow)
  have "chain_inv (sha demo_env) \<lparr>blocks = blocks (node_chain ?n) @ [b']\<rparr>"
    using chain_add_block_inv [OF add _ block_okD(1) [OF b'(1)]] by simp
  from stale_block_refused [OF inv _ _ m this, of "[b']"] m b'(2) show ?thesis
    by (intro exI [of _ b] exI [of _ b'] exI [of _ n1]
        exI [of _ "\<lparr>blocks = blocks (node_chain ?n) @ [b']\<rparr>"]) (simp add: i64_ok_def)
qed

text \<open>
  C38. Sending: with a wallet in order and an address that fits, \<open>do_send\<close> refuses a fee below the
  minimum and a cost above the balance without any effect; otherwise it signs a payment with exactly
  the given values, which verifies, puts it into the mempool if there is room, and sends it to every
  active peer.
\<close>

theorem do_send_spec:
  assumes "reliable e" "ed25519 cr k" "keypair (wallet (app n)) = Some k" "wallet_ok cr (wallet (app n))"
    "cstr_fits ADDR_LEN rcv" "chain_get_balance (node_chain n) (address (wallet (app n))) = Some bal"
  shows "if f < MIN_TX_FEE \<or> bal < sint (amt + f)
    then do_send e cr True \<lparr>in_receiver = Some rcv, in_amount = Some amt, in_fee = Some f\<rparr> n = Some n
    else \<exists>t n'. do_send e cr True \<lparr>in_receiver = Some rcv, in_amount = Some amt, in_fee = Some f\<rparr> n = Some n'
      \<and> sender t = address (wallet (app n)) \<and> receiver t = rcv \<and> amount t = amt \<and> fee t = f
      \<and> wallet_verify_tx cr t = 0 \<and> node_chain n' = node_chain n
      \<and> mempool (app n') = (if length (mempool (app n)) < MEMPOOL_SIZE then mempool (app n) @ [t]
                            else mempool (app n))
      \<and> outbox n' = outbox n
          @ map (\<lambda>p. (fd p, msg_text MSG_NEW_TX (tx_text t) @ [CHR 0x0A])) (filter active (peers n))"
proof (cases "f < MIN_TX_FEE \<or> bal < sint (amt + f)")
  case True
  with assms(6) show ?thesis by (auto simp: do_send_def Let_def)
next
  case False
  let ?inp = "\<lparr>in_receiver = Some rcv, in_amount = Some amt, in_fee = Some f\<rparr>"
  obtain t where t: "do_send e cr True ?inp n = Some (node_broadcast_tx e (mempool_push n t) t)"
    "sender t = address (wallet (app n))" "receiver t = rcv" "amount t = amt" "fee t = f"
    "wallet_verify_tx cr t = 0" "tx_ok t"
    by (rule do_send_accepts [where e = e and amt = amt and f = f, OF assms(2-4) refl assms(5) _ assms(6)])
      (use False in auto)
  then show ?thesis
    using False mempool_push_same [of n t]
    by (auto simp: broadcast_tx_eq [OF assms(1)] mempool_push_def)
qed

theorem do_send_spec_witness:
  "do_send demo_env demo_crypto True \<lparr>in_receiver = Some ''bb'', in_amount = Some 7, in_fee = Some 1\<rparr>
    (demo_world []) = Some (demo_world [])"
proof -
  have "address demo_wallet \<noteq> s" if "length s < 10" for s :: string
    using that by (auto simp: demo_wallet_def)
  then have "chain_get_balance demo_chain (address demo_wallet) = Some 0"
    by (simp add: demo_balance)
  moreover have "cstr_fits ADDR_LEN ''bb''" by (simp add: cstr_fits_def ADDR_LEN_def)
  ultimately show ?thesis
    using do_send_spec [OF demo_env_facts(1) demo_crypto_facts(1) _ _ _, of "demo_world []" 7 "''bb''" 0 1 7]
      demo_crypto_facts(2,3) by (simp add: MIN_TX_FEE_def)
qed



text \<open>
  No signature is checked on the way into a block: whatever signature a well-formed transaction
  carries, the message that announces it puts it into the mempool, and the next mined block holds it
  right after the coinbase, if its sender has the money.
\<close>

theorem forged_payment_mined:
  assumes "reliable e" "world_inv e n" "chain_length (node_chain n) < MAX_BLOCKS" "i64_ok now"
    "tx_wire t" "mempool (app n) = []" "affordable (node_chain n) t"
    "\<forall>b. block_ok b \<longrightarrow> (\<exists>k. pow_nonce (sha e) b k)"
  shows "\<exists>n1 n2 b. handle_message e (app_callbacks e) n s (msg_text MSG_NEW_TX (tx_text t)) = Some n1
    \<and> do_mine e now n1 = Some n2 \<and> blocks (node_chain n2) = blocks (node_chain n) @ [b]
    \<and> transactions b ! 1 = t \<and> tx_count b = 2"
proof -
  let ?n1 = "set_mempool n [t]"
  have msg: "handle_message e (app_callbacks e) n s (msg_text MSG_NEW_TX (tx_text t)) = Some ?n1"
    using handle_new_tx_message [of e t n s] assms(1,5,6)
    by (simp add: reliable_malloc mempool_push_def MEMPOOL_SIZE_def)
  have ok: "tx_ok t" using assms(5) by (simp add: tx_wire_def)
  then have inv: "world_inv e ?n1"
    using assms(2) by (simp add: node_inv_def app_ok_def MEMPOOL_SIZE_def)
  have bal: "\<forall>t' \<in> set (mempool (app ?n1)). \<exists>v. chain_get_balance (node_chain ?n1) (sender t') = Some v"
    using assms(7) by (auto simp: affordable_def)
  obtain n2 where n2: "do_mine e now ?n1 = Some n2"
    using do_mine_returns [OF assms(1) inv _ assms(4) bal assms(8)] assms(3) by auto
  obtain b fds where b: "only_sends ((set_mempool ?n1 [])\<lparr>node_chain := \<lparr>blocks = blocks (node_chain ?n1) @ [b]\<rparr>\<rparr>) fds n2"
    "block_txs b = mined_txs e ?n1" "block_ok b"
    using do_mine_chain [OF inv _ assms(4) n2] assms(3) by auto
  have "taken_txs ?n1 = [t]" using assms(7) by (simp add: taken_txs_def)
  then have txs: "block_txs b = [coinbase_with_fees (sha e) (address (wallet (app n))) (fees_of [t]), t]"
    using b(2) by (simp add: mined_txs_def)
  have two: "length (block_txs b) = 2" "block_txs b ! 1 = t" using txs by simp_all
  moreover have "length (transactions b) = 10" using b(3) by (simp add: block_okD block_shapeD)
  ultimately have "tx_count b = 2" using block_okD(2) [OF b(3)] by (simp add: block_txs_def)
  then have "transactions b ! 1 = t" using two(2) by (simp add: block_txs_def)
  with msg n2 \<open>tx_count b = 2\<close> show ?thesis by (auto simp: only_sendsD [OF b(1)])
qed

theorem forged_payment_mined_witness:
  "wallet_verify_tx demo_crypto demo_payment = - 1
    \<and> (\<exists>n1 n2 b. handle_message demo_env (app_callbacks demo_env) (demo_world []) 4
          (msg_text MSG_NEW_TX (tx_text demo_payment)) = Some n1
        \<and> do_mine demo_env 1800000000 n1 = Some n2 \<and> blocks (node_chain n2) = blocks demo_chain @ [b]
        \<and> transactions b ! 1 = demo_payment)"
proof -
  have "decode_hex 32 ''aa'' = None" by (simp add: numeral_eq_Suc sscanf_2x_def scan_sign_def)
  then have "wallet_verify_tx demo_crypto demo_payment = - 1"
    by (simp add: wallet_verify_tx_def demo_payment_def strcmp_eq_def COINBASE_ADDR_def)
  moreover have "affordable demo_chain demo_payment"
    by (simp add: affordable_def demo_balance demo_payment_def)
  ultimately show ?thesis
    using forged_payment_mined [OF demo_env_facts(1) demo_world_inv [of "[]"] _ _ demo_wire(1), of 1800000000 4]
    by (auto simp: i64_ok_def zero_sha_pow)
qed

text \<open>
  Confirmed transactions stay in the mempool: handling a received block, accepted or not, never
  changes the mempool, so a transaction that the block already contains is mined once more by the
  next \<open>do_mine\<close> as long as its sender can pay.
\<close>

theorem confirmed_tx_stays:
  assumes "handle_new_block e (app_callbacks e) n s payload = Some n'"
  shows "mempool (app n') = mempool (app n) \<and> wallet (app n') = wallet (app n)"
  using handle_new_block_app [OF assms] by simp

theorem confirmed_tx_stays_witness:
  "\<exists>n'. handle_new_block demo_env (app_callbacks demo_env)
      ((demo_world [demo_payment])\<lparr>node_chain := \<lparr>blocks = [demo_genesis]\<rparr>\<rparr>) 4 (block_text demo_block) = Some n'
    \<and> demo_payment \<in> set (transactions (last (blocks (node_chain n')))) \<and> mempool (app n') = [demo_payment]"
proof -
  let ?n = "(demo_world [demo_payment])\<lparr>node_chain := \<lparr>blocks = [demo_genesis]\<rparr>\<rparr>"
  have step: "handle_new_block demo_env (app_callbacks demo_env) ?n 4 (block_text demo_block) =
      Some (?n\<lparr>node_chain := \<lparr>blocks = [demo_genesis, demo_block]\<rparr>\<rparr>)"
    using handle_new_block_text [of demo_env demo_block ?n "app_callbacks demo_env" 4] demo_chain_inv(2)
    by (simp add: chain_length_def MAX_BLOCKS_def app_callbacks_def broadcast_block_eq demo_world_def)
  moreover have "demo_payment \<in> set (transactions demo_block)" by (simp add: demo_block_def)
  ultimately show ?thesis
    using confirmed_tx_stays [OF step]
    by (intro exI [of _ "?n\<lparr>node_chain := \<lparr>blocks = [demo_genesis, demo_block]\<rparr>\<rparr>"]) simp
qed

end
