(* ===== verification/Console.thy ===== *)
theory Console
  imports CLib
begin

text \<open>
  The terminal: \<open>scanf\<close> with the four conversions that \<open>main.c\<close> uses, on the text that is still to be
  typed, and what \<open>printf\<close> needs beyond the formats of \<open>CLib\<close>: padded fields and the UTF-8 encoding of
  the characters outside ASCII that the program prints.

  A conversion returns the value it stores, \<open>None\<close> where \<open>scanf\<close> does not return 1, and the text that it
  leaves unread. White space in front is skipped also when nothing matches; a sign without a digit
  behind it is consumed (ISO C 7.21.6.2, the input item is the longest prefix of a matching sequence).
\<close>

section \<open>Reading\<close>

text \<open>\<open>%ws\<close>: at most \<open>w\<close> bytes that are no white space, stored with a NUL behind them.\<close>

definition scan_s :: "nat \<Rightarrow> string \<Rightarrow> string option \<times> string" where
  "scan_s w inp =
     (let t = dropWhile is_space inp; word = takeWhile (\<lambda>c. \<not> is_space c) (take w t) in
      if word = [] then (None, t) else (Some (c_string word), drop (length word) t))"

text \<open>The part that \<open>%lu\<close> and \<open>%d\<close> share: whether a number was found, and what is left behind it.\<close>

definition scan_digits :: "string \<Rightarrow> bool \<times> string" where
  "scan_digits inp =
     (case scan_sign (dropWhile is_space inp) of (_, r) \<Rightarrow>
        (r \<noteq> [] \<and> is_digit (hd r), dropWhile is_digit r))"

text \<open>
  The C library converts the matched text as \<open>strtoul\<close> and \<open>strtol\<close> do, with saturation; \<open>%d\<close> then
  keeps the low 32 bits.
\<close>

definition scan_lu :: "string \<Rightarrow> u64 option \<times> string" where
  "scan_lu inp = (case scan_digits inp of (found, r) \<Rightarrow> (if found then Some (strtoull inp) else None, r))"

definition scan_d :: "string \<Rightarrow> int option \<times> string" where
  "scan_d inp = (case scan_digits inp of (found, r) \<Rightarrow> (if found then Some (c_int (strtol inp)) else None, r))"

section \<open>Printing\<close>

text \<open>\<open>%-ns\<close> and \<open>%-nlu\<close>: padding to \<open>n\<close> bytes on the right.\<close>

definition pad_right :: "nat \<Rightarrow> string \<Rightarrow> string" where
  "pad_right n s = s @ replicate (n - length s) (CHR '' '')"

text \<open>The UTF-8 bytes of a code point below \<open>0x10000\<close>.\<close>

definition utf8 :: "nat \<Rightarrow> string" where
  "utf8 c =
     (if c < 128 then [char_of c]
      else if c < 2048 then [char_of (192 + c div 64), char_of (128 + c mod 64)]
      else [char_of (224 + c div 4096), char_of (128 + c div 64 mod 64), char_of (128 + c mod 64)])"

text \<open>
  The columns that a text takes on a UTF-8 terminal, when every character in it is one column wide:
  the number of bytes that do not continue a character.
\<close>

definition columns :: "string \<Rightarrow> nat" where
  "columns s = length (filter (\<lambda>c. char_code c div 64 \<noteq> 2) s)"

section \<open>Facts on reading\<close>

lemma scan_s_consumes: "scan_s w inp = (Some v, rest) \<Longrightarrow> length rest < length inp"
proof -
  assume s: "scan_s w inp = (Some v, rest)"
  let ?t = "dropWhile is_space inp"
  let ?word = "takeWhile (\<lambda>c. \<not> is_space c) (take w ?t)"
  have "?word \<noteq> []" "rest = drop (length ?word) ?t" using s by (auto simp: scan_s_def Let_def split: if_splits)
  moreover have "length ?word \<le> length ?t"
    by (rule le_trans [OF length_takeWhile_le]) simp
  moreover have "length ?t \<le> length inp" by (rule length_dropWhile_le)
  ultimately show ?thesis by (cases ?word) auto
qed

lemma scan_s_rest: "length (snd (scan_s w inp)) \<le> length inp"
  using length_dropWhile_le [of is_space inp] by (auto simp: scan_s_def Let_def)

lemma length_scan_sign: "length (snd (scan_sign s)) \<le> length s"
  by (auto simp: scan_sign_def split: list.split)

lemma scan_digits_rest: "length (snd (scan_digits inp)) \<le> length inp"
proof -
  let ?t = "dropWhile is_space inp"
  have "length (dropWhile is_digit (snd (scan_sign ?t))) \<le> length inp"
    using length_dropWhile_le [of is_digit "snd (scan_sign ?t)"] length_scan_sign [of ?t]
      length_dropWhile_le [of is_space inp] by linarith
  then show ?thesis by (simp add: scan_digits_def split_beta)
qed

lemma scan_lu_rest: "length (snd (scan_lu inp)) \<le> length inp"
  using scan_digits_rest [of inp] by (simp add: scan_lu_def split_beta)

lemma scan_d_rest: "length (snd (scan_d inp)) \<le> length inp"
  using scan_digits_rest [of inp] by (simp add: scan_d_def split_beta)

text \<open>A word that is followed by white space is read as it is, when it fits.\<close>

lemma scan_s_word:
  assumes "\<forall>c \<in> set v. \<not> is_space c" "v \<noteq> []" "length v \<le> w" "CHR 0x00 \<notin> set v"
    "rest = [] \<or> is_space (hd rest)" "\<forall>c \<in> set sp. is_space c"
  shows "scan_s w (sp @ v @ rest) = (Some v, rest)"
proof -
  have t: "dropWhile is_space (sp @ v @ rest) = v @ rest"
    using assms(1,2,6) by (subst dropWhile_append2) (auto simp: dropWhile_hd_False)
  have "takeWhile (\<lambda>c. \<not> is_space c) (take w (v @ rest)) = v"
  proof -
    have "take w (v @ rest) = v @ take (w - length v) rest" using assms(3) by simp
    moreover have "take (w - length v) rest = [] \<or> is_space (hd (take (w - length v) rest))"
      using assms(5) by (cases rest; cases "w - length v") auto
    ultimately show ?thesis
      using takeWhile_append_stop [of v "\<lambda>c. \<not> is_space c" "take (w - length v) rest"] assms(1) by simp
  qed
  moreover have "c_string v = v" using assms(4) by (auto simp: c_string_def takeWhile_eq_all_conv)
  ultimately show ?thesis using assms(2) by (simp add: scan_s_def t)
qed

text \<open>A longer word is cut: the rest of it stays in the input, without any white space in front.\<close>

lemma scan_s_cut:
  assumes "\<forall>c \<in> set v. \<not> is_space c" "length v = w" "0 < w" "CHR 0x00 \<notin> set v"
    "\<forall>c \<in> set sp. is_space c"
  shows "scan_s w (sp @ v @ rest) = (Some v, rest)"
proof -
  have ne: "v \<noteq> []" using assms(2,3) by auto
  have t: "dropWhile is_space (sp @ v @ rest) = v @ rest"
    using assms(1,5) ne by (subst dropWhile_append2) (auto simp: dropWhile_hd_False)
  have v: "takeWhile (\<lambda>c. \<not> is_space c) v = v"
    using assms(1) by (auto simp: takeWhile_eq_all_conv)
  have "c_string v = v" using assms(4) by (auto simp: c_string_def takeWhile_eq_all_conv)
  with ne assms(2) show ?thesis by (simp add: scan_s_def t v)
qed

text \<open>A printed number is read back, whatever white space stands in front of it.\<close>

lemma dropWhile_space: "\<forall>c \<in> set sp. is_space c \<Longrightarrow> dropWhile is_space (sp @ s) = dropWhile is_space s"
  by (induction sp) auto

lemma strtoull_space: "\<forall>c \<in> set sp. is_space c \<Longrightarrow> strtoull (sp @ s) = strtoull s"
  by (simp add: strtoull_def scan_number_def dropWhile_space)

lemma strtol_space: "\<forall>c \<in> set sp. is_space c \<Longrightarrow> strtol (sp @ s) = strtol s"
  by (simp add: strtol_def scan_number_def dropWhile_space)

lemma scan_digits_fmt_u:
  assumes "\<forall>c \<in> set sp. is_space c" "rest = [] \<or> \<not> is_digit (hd rest)"
  shows "scan_digits (sp @ fmt_u n @ rest) = (True, rest)"
proof -
  obtain c r where c: "fmt_u n = c # r" "is_digit c" by (rule fmt_u_Cons)
  then have "dropWhile is_space (fmt_u n @ rest) = fmt_u n @ rest"
    by (simp add: digit_not_space)
  moreover have "scan_sign (fmt_u n @ rest) = (False, fmt_u n @ rest)"
    using c digit_not_sign by (simp add: scan_sign_def)
  moreover have "dropWhile is_digit (fmt_u n @ rest) = rest"
    using fmt_u_digits assms(2) by (rule dropWhile_append_stop)
  ultimately show ?thesis
    using c by (simp add: scan_digits_def dropWhile_space [OF assms(1)])
qed

lemma scan_lu_fmt_u:
  assumes "\<forall>c \<in> set sp. is_space c" "rest = [] \<or> \<not> is_digit (hd rest)"
  shows "scan_lu (sp @ fmt_u (unat v) @ rest) = (Some v, rest)"
  by (simp add: scan_lu_def scan_digits_fmt_u [OF assms] strtoull_space [OF assms(1)]
      strtoull_fmt_u [OF assms(2)])

text \<open>A minus sign is accepted in front of an unsigned number: the value wraps.\<close>

lemma scan_lu_minus:
  assumes "\<forall>c \<in> set sp. is_space c" "rest = [] \<or> \<not> is_digit (hd rest)" "n < 2 ^ 64"
  shows "scan_lu (sp @ CHR ''-'' # fmt_u n @ rest) = (Some (- of_nat n), rest)"
proof -
  obtain c r where c: "fmt_u n = c # r" "is_digit c" by (rule fmt_u_Cons)
  have "dropWhile is_digit (fmt_u n @ rest) = rest"
    using fmt_u_digits assms(2) by (rule dropWhile_append_stop)
  then have "scan_digits (sp @ CHR ''-'' # fmt_u n @ rest) = (True, rest)"
    using c by (simp add: scan_digits_def dropWhile_space [OF assms(1)] scan_sign_def is_space_def)
  moreover have "strtoull (CHR ''-'' # fmt_u n @ rest) = - of_nat n"
    using assms(3) by (simp add: strtoull_def scan_number_minus_fmt_u [OF assms(2)])
  ultimately show ?thesis by (simp add: scan_lu_def strtoull_space [OF assms(1)])
qed

lemma scan_d_fmt_u:
  assumes "\<forall>c \<in> set sp. is_space c" "rest = [] \<or> \<not> is_digit (hd rest)" "n < 2 ^ 31"
  shows "scan_d (sp @ fmt_u n @ rest) = (Some (int n), rest)"
proof -
  have "fmt_u n = fmt_d (int n)" by (simp add: fmt_d_def)
  then have "c_int (strtol (fmt_u n @ rest)) = int n"
    using strtol_fmt_d [OF assms(2), of "int n"] assms(3) by simp
  then show ?thesis
    by (simp add: scan_d_def scan_digits_fmt_u [OF assms(1,2)] strtol_space [OF assms(1)])
qed

section \<open>Facts on printing\<close>

lemma columns_append [simp]: "columns (s @ t) = columns s + columns t"
  by (simp add: columns_def)

lemma columns_Nil [simp]: "columns [] = 0"
  by (simp add: columns_def)

text \<open>On ASCII text columns are bytes.\<close>

definition ascii :: "string \<Rightarrow> bool" where
  "ascii s \<longleftrightarrow> (\<forall>c \<in> set s. char_code c < 128)"

lemma columns_ascii: "ascii s \<Longrightarrow> columns s = length s"
  by (auto simp: ascii_def columns_def intro!: arg_cong [of _ _ length] filter_True)

lemma ascii_append [simp]: "ascii (s @ t) \<longleftrightarrow> ascii s \<and> ascii t"
  by (auto simp: ascii_def)

lemma length_pad_right: "length (pad_right n s) = max n (length s)"
  by (simp add: pad_right_def)

lemma ascii_pad_right [simp]: "ascii (pad_right n s) \<longleftrightarrow> ascii s"
  by (auto simp: pad_right_def ascii_def char_code_def)

lemma char_code_char_of: "n < 256 \<Longrightarrow> char_code (char_of n) = n"
  by (simp add: char_code_def)

lemma columns_utf8: "c < 65536 \<Longrightarrow> columns (utf8 c) = 1"
proof -
  assume c: "c < 65536"
  have "c div 64 < 32" if "c < 2048" using that by (simp add: less_mult_imp_div_less)
  moreover have "c div 4096 < 16" using c by (simp add: less_mult_imp_div_less)
  moreover have "(128 + k mod 64) div 64 = 2" for k :: nat by simp
  moreover have "(192 + k) div 64 = 3" if "k < 32" for k :: nat using that by simp
  moreover have "(224 + k) div 64 = 3" if "k < 16" for k :: nat using that by simp
  moreover have "128 + k mod 64 < 256" for k :: nat by (rule less_trans [of _ "128 + 64"]) simp_all
  ultimately show ?thesis
    by (auto simp: utf8_def columns_def char_code_char_of)
qed

end
