(* ===== verification/Screen.thy ===== *)
theory Screen
  imports App Console Reader
begin

text \<open>
  What the program writes to the terminal: \<open>block_print\<close> (\<open>src/block.c\<close>), \<open>chain_print\<close>
  (\<open>src/chain.c\<close>), the menu, the wallet and network pages and the two animations (\<open>src/main.c\<close>).
  \<open>tx_print\<close> is in \<open>Tx\<close> and \<open>do_mempool\<close> in \<open>App\<close>.

  A page is the text it writes. It is \<open>None\<close> where writing it is undefined: a transaction outside the
  array, an overflow in the balance, or a time that \<open>ctime\<close> cannot convert, for which it returns
  \<open>NULL\<close>. \<open>ctime\<close> and \<open>rand\<close> are parameters.
\<close>

abbreviation LF :: string where "LF \<equiv> [CHR 0x0A]"
abbreviation CR :: string where "CR \<equiv> [CHR 0x0D]"

definition rep :: "nat \<Rightarrow> string \<Rightarrow> string" where
  "rep n s = concat (replicate n s)"

section \<open>Blocks and the chain\<close>

function print_block_txs :: "block_t \<Rightarrow> nat \<Rightarrow> string option" where
  "print_block_txs b i =
     (if int i < tx_count b
      then do {
        t \<leftarrow> arr_get (transactions b) i;
        rest \<leftarrow> print_block_txs b (Suc i);
        Some (utf8 0x2502 @ '' '' @ tx_print t @ rest)
      }
      else Some [])"
  by pat_completeness auto
termination
  by (relation "measure (\<lambda>(b, i). nat (tx_count b - int i))") auto

declare print_block_txs.simps [simp del]

definition block_print :: "(int \<Rightarrow> string option) \<Rightarrow> block_t \<Rightarrow> string option" where
  "block_print ctime b = do {
     time \<leftarrow> ctime (timestamp b);
     txs \<leftarrow> print_block_txs b 0;
     Some (utf8 0x250C @ utf8 0x2500 @ '' Block #'' @ fmt_u (unat (index b)) @ '' '' @ rep 45 (utf8 0x2500) @ LF
       @ utf8 0x2502 @ '' '' @ utf8 0x10C @ ''as:       '' @ time
       @ utf8 0x2502 @ '' Prev hash: '' @ prev_hash b @ LF
       @ utf8 0x2502 @ '' Hash:      '' @ hash b @ LF
       @ utf8 0x2502 @ '' Nonce:     '' @ fmt_u (unat (nonce b)) @ LF
       @ utf8 0x2502 @ '' Transakcie ('' @ fmt_d (tx_count b) @ ''):'' @ LF
       @ txs
       @ utf8 0x2514 @ rep 56 (utf8 0x2500) @ LF)
   }"

fun print_blocks :: "(int \<Rightarrow> string option) \<Rightarrow> block_t list \<Rightarrow> string option" where
  "print_blocks ctime [] = Some []"
| "print_blocks ctime (b # bs) = do {
     s \<leftarrow> block_print ctime b;
     rest \<leftarrow> print_blocks ctime bs;
     Some (s @ LF @ rest)
   }"

definition chain_print :: "(int \<Rightarrow> string option) \<Rightarrow> blockchain_t \<Rightarrow> string option" where
  "chain_print ctime c = do {
     s \<leftarrow> print_blocks ctime (blocks c);
     Some (LF @ ''=== Blockchain ('' @ fmt_d (int (chain_length c)) @ '' blokov) ==='' @ LF @ LF @ s)
   }"

section \<open>The menu\<close>

text \<open>A line with a text of its own goes through the buffer \<open>line\<close> of 80 bytes and the format \<open>%-76s\<close>.\<close>

definition menu_row :: "string \<Rightarrow> string" where
  "menu_row s = utf8 0x2551 @ '' '' @ pad_right 76 (snprintf 80 s) @ utf8 0x2551"

definition menu_item :: "string \<Rightarrow> nat \<Rightarrow> string" where
  "menu_item s k = utf8 0x2551 @ s @ replicate k (CHR '' '') @ utf8 0x2551"

definition menu_lines :: "'k world \<Rightarrow> int \<Rightarrow> string list" where
  "menu_lines n balance =
    [utf8 0x2554 @ rep 77 (utf8 0x2550) @ utf8 0x2557,
     menu_row (''  MiniCoin Node [localhost:'' @ fmt_u (unat (node_port n)) @ '']''),
     menu_row (''  Chain: '' @ fmt_d (int (chain_length (node_chain n))) @ '' blokov | Peers: ''
       @ fmt_d (int (length (peers n))) @ '' | Zostatok: '' @ fmt_d balance @ '' coin''),
     menu_row (''  Adresa: '' @ address (wallet (app n))),
     utf8 0x2560 @ rep 77 (utf8 0x2550) @ utf8 0x2563,
     menu_item (''  [1] '' @ utf8 0x164 @ ''a'' @ utf8 0x17E @ ''i'' @ utf8 0x165 @ '' blok'') 61,
     menu_item (''  [2] Posla'' @ utf8 0x165 @ '' transakciu'') 54,
     menu_item (''  [3] Zobrazi'' @ utf8 0x165 @ '' blockchain'') 52,
     menu_item (''  [4] Zobrazi'' @ utf8 0x165 @ '' pe'' @ utf8 0x148 @ ''a'' @ utf8 0x17E @ ''enku'') 53,
     menu_item (''  [5] Pripoji'' @ utf8 0x165 @ '' peer'') 58,
     menu_item ''  [6] Stav siete'' 61,
     menu_item ''  [7] Mempool'' 64,
     menu_item (''  [q] Ukon'' @ utf8 0x10D @ ''i'' @ utf8 0x165) 64,
     utf8 0x255A @ rep 77 (utf8 0x2550) @ utf8 0x255D]"

definition print_menu :: "'k world \<Rightarrow> string option" where
  "print_menu n = do {
     balance \<leftarrow> chain_get_balance (node_chain n) (address (wallet (app n)));
     Some (LF @ concat (map (\<lambda>l. l @ LF) (menu_lines n balance)) @ ''> '')
   }"

section \<open>The pages of the wallet and the network\<close>

definition do_wallet_info :: "'k world \<Rightarrow> string option" where
  "do_wallet_info n = do {
     balance \<leftarrow> chain_get_balance (node_chain n) (address (wallet (app n)));
     Some (LF @ ''=== Pe'' @ utf8 0x148 @ ''a'' @ utf8 0x17E @ ''enka ==='' @ LF
       @ ''Adresa:   '' @ address (wallet (app n)) @ LF
       @ ''Zostatok: '' @ fmt_d balance @ '' coin'' @ LF
       @ ''S'' @ utf8 0xFA @ ''bor:    '' @ wallet_file @ LF)
   }"

fun print_peers :: "nat \<Rightarrow> peer_t list \<Rightarrow> string" where
  "print_peers i [] = []"
| "print_peers i (p # ps) =
     ''  ['' @ fmt_u i @ ''] '' @ host p @ '':'' @ fmt_u (unat (port p)) @ '' ''
     @ (if active p then ''(akt'' @ utf8 0xED @ ''vny)'' else ''(neakt'' @ utf8 0xED @ ''vny)'') @ LF
     @ print_peers (Suc i) ps"

definition do_network_status :: "'k world \<Rightarrow> string" where
  "do_network_status n =
     LF @ ''=== Stav siete ==='' @ LF
     @ ''Port: '' @ fmt_u (unat (node_port n)) @ LF
     @ ''Peers: '' @ fmt_d (int (length (peers n))) @ LF
     @ print_peers 0 (peers n)
     @ LF @ ''Pre pripojenie cez SSH tunel:'' @ LF
     @ ''  ssh -L <local_port>:localhost:'' @ fmt_u (unat (node_port n)) @ '' user@tento_stroj'' @ LF"

section \<open>The animations\<close>

definition spinner_frames :: "string list" where
  "spinner_frames = map utf8 [0x280B, 0x2819, 0x2839, 0x2838, 0x283C, 0x2834, 0x2826, 0x2827, 0x2807, 0x280F]"

text \<open>The loop of \<open>animate_spinner\<close>; \<open>elapsed\<close> starts at 0, so the division is that of \<open>int\<close> here and in C.\<close>

function spinner_loop :: "string \<Rightarrow> int \<Rightarrow> int \<Rightarrow> string option" where
  "spinner_loop label ms elapsed =
     (if elapsed < ms
      then do {
        frame \<leftarrow> arr_get spinner_frames (nat ((elapsed div 100) mod 10));
        rest \<leftarrow> spinner_loop label ms (elapsed + 100);
        Some (CR @ ''  '' @ frame @ '' '' @ label @ rest)
      }
      else Some (CR @ replicate 68 (CHR '' '') @ CR))"
  by pat_completeness auto
termination
  by (relation "measure (\<lambda>(label, ms, elapsed). nat (ms - elapsed))") auto

declare spinner_loop.simps [simp del]

definition animate_spinner :: "string \<Rightarrow> int \<Rightarrow> string option" where
  "animate_spinner label ms = spinner_loop label ms 0"

text \<open>
  \<open>animate_mining\<close>: \<open>rnd i\<close> is what the \<open>i\<close>-th call of \<open>rand\<close> returns, which is never negative. A round
  calls it 65 times. The hash and the nonce that are shown have nothing to do with the block.
\<close>

definition fake_digit :: "int \<Rightarrow> char" where
  "fake_digit r = (if r < 10 then char_of (48 + nat r) else char_of (97 + nat (r - 10)))"

definition fake_hash :: "(nat \<Rightarrow> int) \<Rightarrow> nat \<Rightarrow> int \<Rightarrow> string" where
  "fake_hash rnd i zeros =
     replicate (nat (min zeros 4)) (CHR ''0'')
     @ drop (nat (min zeros 4)) (map (\<lambda>k. fake_digit (rnd (i + k) mod 16)) [0 ..< 64])"

function mining_loop :: "(nat \<Rightarrow> int) \<Rightarrow> int \<Rightarrow> int \<Rightarrow> u64 \<Rightarrow> nat \<Rightarrow> string" where
  "mining_loop rnd duration_ms elapsed fake_nonce i =
     (if elapsed < duration_ms
      then CR @ ''  Nonce: '' @ pad_right 8 (fmt_u (unat fake_nonce)) @ '' | Hash: ''
        @ take 32 (fake_hash rnd i ((elapsed * 4) div duration_ms)) @ ''...''
        @ mining_loop rnd duration_ms (elapsed + 150)
            (fake_nonce + of_int (rnd (i + 64) mod 500 + 100)) (i + 65)
      else CR @ replicate 78 (CHR '' '') @ CR)"
  by pat_completeness auto
termination
  by (relation "measure (\<lambda>(rnd, duration_ms, elapsed, fake_nonce, i). nat (duration_ms - elapsed))") auto

declare mining_loop.simps [simp del]

definition animate_mining :: "(nat \<Rightarrow> int) \<Rightarrow> int \<Rightarrow> string" where
  "animate_mining rnd duration_ms = mining_loop rnd duration_ms 0 0 0"

section \<open>When a page can be written\<close>

lemma print_block_txs_defined:
  assumes "length (transactions b) = 10" "i \<le> 10"
  shows "print_block_txs b i = None \<longleftrightarrow> 10 < tx_count b"
  using assms(2)
proof (induction "10 - i" arbitrary: i)
  case 0
  with assms(1) show ?case by (subst print_block_txs.simps) auto
next
  case (Suc k)
  then have i: "i < 10" and IH: "print_block_txs b (Suc i) = None \<longleftrightarrow> 10 < tx_count b" by auto
  with assms(1) show ?case
    by (cases "print_block_txs b (Suc i)") (auto simp: print_block_txs.simps [of b i])
qed

lemma block_print_defined:
  assumes "block_shape b"
  shows "block_print ctime b = None \<longleftrightarrow> ctime (timestamp b) = None \<or> 10 < tx_count b"
  using print_block_txs_defined [OF block_shapeD(2) [OF assms], of 0]
  by (cases "ctime (timestamp b)"; cases "print_block_txs b 0") (auto simp: block_print_def)

lemma print_blocks_defined:
  "print_blocks ctime bs = None \<longleftrightarrow> (\<exists>b \<in> set bs. block_print ctime b = None)"
proof (induction bs)
  case (Cons b bs)
  then show ?case by (cases "block_print ctime b"; cases "print_blocks ctime bs") auto
qed simp

lemma chain_print_defined:
  assumes "chain_shape c"
  shows "chain_print ctime c = None \<longleftrightarrow>
    (\<exists>b \<in> set (blocks c). ctime (timestamp b) = None \<or> 10 < tx_count b)"
proof -
  have "chain_print ctime c = None \<longleftrightarrow> print_blocks ctime (blocks c) = None"
    by (cases "print_blocks ctime (blocks c)") (simp_all add: chain_print_def)
  then show ?thesis
    using assms block_print_defined [of _ ctime] by (auto simp: print_blocks_defined chain_shape_def)
qed

lemma spinner_loop_defined: "0 \<le> elapsed \<Longrightarrow> \<exists>s. spinner_loop label ms elapsed = Some s"
proof (induction label ms elapsed rule: spinner_loop.induct)
  case (1 label ms elapsed)
  have "nat (elapsed div 100 mod 10) < 10" by simp
  then have "nat (elapsed div 100 mod 10) < length spinner_frames" by (simp add: spinner_frames_def)
  with 1 show ?case by (auto simp: spinner_loop.simps [of label ms elapsed])
qed

lemma animate_spinner_defined: "\<exists>s. animate_spinner label ms = Some s"
  by (simp add: animate_spinner_def spinner_loop_defined)

text \<open>The comment in the code promises at most three zeros; no frame shows a fourth.\<close>

lemma fake_hash_zeros:
  assumes "0 \<le> elapsed" "elapsed < duration_ms"
  shows "(elapsed * 4) div duration_ms \<le> 3" "length (fake_hash rnd i ((elapsed * 4) div duration_ms)) = 64"
proof -
  have "(elapsed * 4) div duration_ms * duration_ms < 4 * duration_ms"
    using assms div_mult_mod_eq [of "elapsed * 4" duration_ms] pos_mod_sign [of duration_ms "elapsed * 4"]
    by linarith
  then have "(elapsed * 4) div duration_ms < 4"
    using assms by (simp add: mult_less_cancel_right)
  then show "(elapsed * 4) div duration_ms \<le> 3" by simp
  moreover have "0 \<le> (elapsed * 4) div duration_ms"
    using assms by (simp add: pos_imp_zdiv_nonneg_iff)
  ultimately show "length (fake_hash rnd i ((elapsed * 4) div duration_ms)) = 64"
    by (simp add: fake_hash_def)
qed

section \<open>The width of the menu\<close>

lemma columns_rep: "columns (rep n s) = n * columns s"
  by (induction n) (simp_all add: rep_def)

lemma columns_spaces [simp]: "columns (replicate n (CHR '' '')) = n"
  by (subst columns_ascii) (auto simp: ascii_def char_code_def)

lemma ascii_simps [simp]: "ascii []" "ascii (c # s) \<longleftrightarrow> char_code c < 128 \<and> ascii s"
  by (simp_all add: ascii_def)

lemma ascii_digits: "\<forall>c \<in> set s. is_digit c \<Longrightarrow> ascii s"
  by (auto simp: ascii_def is_digit_def)

lemma ascii_fmt [simp]: "ascii (fmt_u k)" "ascii (fmt_d i)"
proof -
  show u: "ascii (fmt_u k)" for k by (rule ascii_digits [OF fmt_u_digits])
  show "ascii (fmt_d i)" by (simp add: fmt_d_def u)
qed

lemma columns_Cons [simp]: "char_code c < 128 \<Longrightarrow> columns (c # s) = Suc (columns s)"
proof -
  assume "char_code c < 128"
  then have "char_code c div 64 < 2" by (simp add: less_mult_imp_div_less)
  then show ?thesis by (simp add: columns_def)
qed

lemma ascii_hex_bytes [simp]: "ascii (hex_bytes bs)"
proof -
  have "char_code c < 128" if "is_hex c" for c
    using that by (auto simp: is_hex_def hex_val_def Let_def split: if_splits)
  with hex_bytes_is_hex [of bs] show ?thesis by (auto simp: ascii_def)
qed

lemma menu_row_columns:
  assumes "ascii s" "length s \<le> 76"
  shows "columns (menu_row s) = 79"
proof -
  have "columns (pad_right 76 s) = 76"
    using assms by (simp add: columns_ascii length_pad_right)
  moreover have "snprintf 80 s = s" using assms(2) by (simp add: snprintf_def)
  ultimately show ?thesis by (simp add: menu_row_def columns_utf8 char_code_def)
qed

lemma menu_item_columns: "columns (menu_item s k) = columns s + k + 2"
  by (simp add: menu_item_def columns_utf8)

lemma balance_tx_range: "balance_tx a t bal = Some v \<Longrightarrow> i64_ok bal \<Longrightarrow> i64_ok v"
  by (auto simp: balance_tx_def i64_add_eq_Some_iff i64_sub_eq_Some_iff split: if_splits)

lemma balance_block_range: "balance_block a b j bal = Some v \<Longrightarrow> i64_ok bal \<Longrightarrow> i64_ok v"
proof (induction a b j bal rule: balance_block.induct)
  case (1 a b j bal)
  then show ?case
    by (subst (asm) (2) balance_block.simps) (auto split: if_splits dest: balance_tx_range)
qed

lemma chain_get_balance_range:
  assumes "chain_get_balance c a = Some v"
  shows "i64_ok v"
proof -
  have "balance_blocks a bs bal = Some v \<Longrightarrow> i64_ok bal \<Longrightarrow> i64_ok v" for bs bal
    by (induction bs arbitrary: bal) (auto dest: balance_block_range)
  moreover have "i64_ok 0" by (simp add: i64_ok_def)
  ultimately show ?thesis using assms by (simp add: chain_get_balance_def)
qed

lemma menu_chain_row:
  assumes "c \<le> MAX_BLOCKS" "p \<le> MAX_PEERS" "i64_ok v"
  shows "length (''  Chain: '' @ fmt_d (int c) @ '' blokov | Peers: '' @ fmt_d (int p)
    @ '' | Zostatok: '' @ fmt_d v @ '' coin'') \<le> 71"
proof -
  have "length (fmt_d (int c)) \<le> 5" "length (fmt_d (int p)) \<le> 2"
    using assms(1,2) length_fmt_u [of c 5] length_fmt_u [of p 2]
    by (simp_all add: fmt_d_def MAX_BLOCKS_def MAX_PEERS_def)
  with length_fmt_d64 [OF assms(3)] show ?thesis by simp
qed

section \<open>Properties\<close>

text \<open>
  The frame of the menu closes: in every state that keeps the invariant, whenever the menu can be
  written at all, it is 14 lines between a newline and the prompt, and each of them is exactly 79
  columns wide on the terminal; none of the texts of variable length overflows its field of 76 bytes
  or is cut by the buffer of 80.
\<close>

theorem menu_aligned:
  assumes "world_inv e n" "ascii (address (wallet (app n)))" "print_menu n = Some s"
  shows "\<exists>ls. s = LF @ concat (map (\<lambda>l. l @ LF) ls) @ ''> '' \<and> length ls = 14 \<and> (\<forall>l \<in> set ls. columns l = 79)"
proof -
  obtain bal where bal: "chain_get_balance (node_chain n) (address (wallet (app n))) = Some bal"
    and s: "s = LF @ concat (map (\<lambda>l. l @ LF) (menu_lines n bal)) @ ''> ''"
    using assms(3) by (auto simp: print_menu_def)
  have "length (fmt_u (unat (node_port n))) \<le> 5"
    using unat_word_less [of "node_port n"] by (intro length_fmt_u) simp_all
  moreover have "length (address (wallet (app n))) < 65"
    using assms(1) by (simp add: node_inv_def app_ok_def cstr_fits_def ADDR_LEN_def)
  moreover have "chain_length (node_chain n) \<le> MAX_BLOCKS" "length (peers n) \<le> MAX_PEERS"
    using assms(1) by (simp_all add: node_inv_def chain_inv_def chain_shape_def)
  note menu_chain_row [OF this chain_get_balance_range [OF bal]]
  ultimately have "\<forall>l \<in> set (menu_lines n bal). columns l = 79"
    using assms(2)
    by (simp add: menu_lines_def menu_row_columns menu_item_columns columns_rep columns_utf8 char_code_def)
  moreover have "length (menu_lines n bal) = 14" by (simp add: menu_lines_def)
  ultimately show ?thesis using s by blast
qed

theorem menu_aligned_witness:
  "\<exists>s ls. print_menu (demo_world []) = Some s \<and> s = LF @ concat (map (\<lambda>l. l @ LF) ls) @ ''> ''
    \<and> length ls = 14 \<and> (\<forall>l \<in> set ls. columns l = 79)"
proof -
  have neq: "address demo_wallet \<noteq> a" if "length a < 10" for a :: string
    using that by (auto simp: demo_wallet_def)
  then have "chain_get_balance demo_chain (address demo_wallet) = Some 0"
    by (simp add: demo_balance)
  then obtain s where s: "print_menu (demo_world []) = Some s" by (auto simp: print_menu_def)
  have "ascii (address demo_wallet)" by (simp add: demo_wallet_def)
  with menu_aligned [OF demo_world_inv [of "[]"] _ s] s show ?thesis by simp
qed

text \<open>
  C37. One message makes the chain unprintable: the time of a block is never checked, so a mined block
  with a time that \<open>ctime\<close> cannot convert is accepted like any other, and from then on
  \<open>chain_print\<close> passes the null pointer of \<open>ctime\<close> to \<open>printf\<close>.
\<close>

theorem undisplayable_block:
  assumes "malloc e = alloc_ok" "chain_inv (sha e) (node_chain n)"
    "chain_length (node_chain n) < MAX_BLOCKS" "plain (hash (last (blocks (node_chain n))))"
    "i64_ok time" "ctime time = None" "\<forall>b. block_ok b \<longrightarrow> (\<exists>k. pow_nonce (sha e) b k)" "on_new_block cb = None"
  shows "\<exists>raw n'. length raw < MAX_MSG_SIZE - 1 \<and> CHR 0x0A \<notin> set raw \<and> CHR 0x00 \<notin> set raw
    \<and> handle_message e cb n s raw = Some n' \<and> chain_print ctime (node_chain n') = None"
proof -
  let ?tip = "last (blocks (node_chain n))"
  let ?b = "block_zero\<lparr>index := index ?tip + 1, timestamp := time, prev_hash := hash ?tip\<rparr>"
  have ne: "blocks (node_chain n) \<noteq> []" using assms(2) by (simp add: chain_inv_def)
  then have fits: "cstr_fits HASH_HEX_LEN (hash ?tip)"
    using assms(2) by (simp add: chain_inv_def chain_shape_def block_shape_def)
  have ok: "block_ok ?b"
    using fits assms(5) by (auto simp: block_ok_def block_shape_def block_zero_def block_consts cstr_fits_def)
  obtain k b where m: "block_mine (sha e) ?b = Some (k, b)"
    using assms(7) ok block_mine_returns by fastforce
  obtain v where b: "b = ?b\<lparr>nonce := v, hash := mined_hash (sha e) ?b v\<rparr>"
    using m ok by (elim block_mine_sound)
  have "plain (hash b)" by (simp add: b mined_hash_def)
  then have wire: "block_wire b"
    using mined_block_ok [OF m ok] assms(4)
    by (simp add: b block_wire_def block_txs_def block_zero_def block_consts)
  let ?n = "n\<lparr>node_chain := \<lparr>blocks = blocks (node_chain n) @ [b]\<rparr>\<rparr>"
  have "link_ok (sha e) ?tip b" using block_mine_sealed [OF m ok] by (simp add: link_ok_def b)
  then have handled: "handle_new_block e cb n s (block_text b) = broadcast_block_except e ?n b s"
    using wire assms(1-3,8) by (intro handle_new_block_text) (simp_all add: b)
  obtain n' where n': "broadcast_block_except e ?n b s = Some n'"
    using broadcast_block_defined [OF mined_block_ok [OF m ok]] by blast
  from broadcast_excludes [OF n'] have "node_chain n' = \<lparr>blocks = blocks (node_chain n) @ [b]\<rparr>"
    by (auto dest: only_sendsD(1))
  moreover have "chain_shape \<lparr>blocks = blocks (node_chain n) @ [b]\<rparr>"
    using assms(2,3) wire by (auto simp: chain_inv_def chain_shape_def chain_length_def block_wireD)
  ultimately have "chain_print ctime (node_chain n') = None"
    using assms(6) by (simp add: chain_print_defined) (simp add: b)
  moreover have "length (msg_text MSG_NEW_BLOCK (block_text b)) < MAX_MSG_SIZE - 1"
    using block_stream.frame_line [OF wire] by blast
  ultimately show ?thesis
    using handled n' msg_text_one_line [OF block_wire_text(1) [OF wire]]
    by (intro exI [of _ "msg_text MSG_NEW_BLOCK (block_text b)"] exI [of _ n'])
      (simp add: handle_message_new_block [OF assms(1) block_wire_text(1) [OF wire]])
qed

theorem undisplayable_block_witness:
  "\<exists>raw n'. handle_message demo_env no_callbacks (demo_node [demo_genesis]) 4 raw = Some n'
    \<and> chain_print (\<lambda>t. if t < 2 ^ 56 then Some ''Sat Jan  3 18:15:05 2009'' else None) (node_chain n') = None"
proof -
  have "plain zero_hash" by (simp add: zero_hash_def plain_def plain_char_def)
  then show ?thesis
    using undisplayable_block [of demo_env "demo_node [demo_genesis]" "2 ^ 60"
        "\<lambda>t. if t < 2 ^ 56 then Some ''Sat Jan  3 18:15:05 2009'' else None" no_callbacks 4] demo_chain_inv(2)
    by (auto simp: demo_node_def chain_length_def MAX_BLOCKS_def no_callbacks_def i64_ok_def zero_sha_pow)
qed

end
