(* ===== verification/Report.thy ===== *)
theory Report
  imports Screen "HOL-Library.Sublist"
begin

text \<open>
  What the operations of the menu tell the user while they run: the texts of \<open>do_mine\<close>, \<open>do_send\<close> and
  \<open>do_connect_peer\<close> (\<open>src/main.c\<close>) from the first to the last line, animations included. Each report
  follows the branches of its operation; the effects are in \<open>App\<close> and \<open>Net\<close>.
\<close>

section \<open>Mining\<close>

definition mine_opening :: "block_t \<Rightarrow> string" where
  "mine_opening b =
     LF @ ''  '' @ utf8 0x250C @ utf8 0x2500 @ '' '' @ utf8 0x164 @ ''a'' @ utf8 0x17E @ ''enie bloku #''
     @ fmt_u (unat (index b)) @ '' ('' @ fmt_d (tx_count b) @ '' transakci'' @ utf8 0xED @ '') ''
     @ rep 21 (utf8 0x2500) @ LF @ ''  '' @ utf8 0x2502 @ LF"

definition mine_searching :: string where
  "mine_searching =
     ''  '' @ utf8 0x2502 @ '' Transakcie overen'' @ utf8 0xE9 @ ''.'' @ LF @ ''  '' @ utf8 0x2502 @ LF
     @ ''  '' @ utf8 0x2502 @ '' H'' @ utf8 0x13E @ ''ad'' @ utf8 0xE1 @ ''m platn'' @ utf8 0xFD
     @ '' nonce (difficulty: '' @ fmt_d (int MINING_DIFFICULTY) @ '' nuly)...'' @ LF @ ''  '' @ utf8 0x2502 @ LF"

definition mine_found :: string where
  "mine_found = ''  '' @ utf8 0x2502 @ '' Nonce n'' @ utf8 0xE1 @ ''jden'' @ utf8 0xFD @ ''!'' @ LF @ ''  '' @ utf8 0x2502 @ LF"

definition mine_facts :: "block_t \<Rightarrow> u64 \<Rightarrow> tx_t \<Rightarrow> string" where
  "mine_facts b attempts coin =
     ''  '' @ utf8 0x2502 @ '' Proof-of-work platn'' @ utf8 0xFD @ ''.'' @ LF @ ''  '' @ utf8 0x2502 @ LF
     @ ''  '' @ utf8 0x2502 @ '' Nonce:     '' @ fmt_u (unat (nonce b)) @ '' ('' @ fmt_u (unat attempts) @ '' pokusov)'' @ LF
     @ ''  '' @ utf8 0x2502 @ '' Hash:      '' @ hash b @ LF
     @ ''  '' @ utf8 0x2502 @ '' Prev hash: '' @ prev_hash b @ LF
     @ ''  '' @ utf8 0x2502 @ '' Odmena:    '' @ fmt_u (unat (amount coin)) @ '' coin'' @ LF
     @ ''  '' @ utf8 0x2502 @ LF"

definition mine_sent :: "nat \<Rightarrow> string" where
  "mine_sent k = ''  '' @ utf8 0x2502 @ '' Blok odoslan'' @ utf8 0xFD @ '' '' @ fmt_d (int k) @ '' peerom.'' @ LF"

definition mine_success :: "block_t \<Rightarrow> string" where
  "mine_success b =
     ''  '' @ utf8 0x2502 @ LF @ ''  '' @ utf8 0x2514 @ utf8 0x2500 @ '' Blok #'' @ fmt_u (unat (index b)) @ '' ''
     @ utf8 0xFA @ ''spe'' @ utf8 0x161 @ ''ne pridan'' @ utf8 0xFD @ '' do chainu. '' @ rep 13 (utf8 0x2500) @ LF"

definition mine_failure :: string where
  "mine_failure =
     ''  '' @ utf8 0x2514 @ utf8 0x2500 @ '' Chyba: blok nebol pridan'' @ utf8 0xFD @ '' (chain sa medzi'' @ utf8 0x10D
     @ ''asom zmenil?)'' @ LF"

text \<open>\<open>k\<close> is \<open>peer_count\<close>, which counts the peers that have left as well.\<close>

definition mine_outcome :: "bool \<Rightarrow> nat \<Rightarrow> block_t \<Rightarrow> string option" where
  "mine_outcome added k b =
     (if added then do {
        sent \<leftarrow> (if 0 < k then do {
                   spin \<leftarrow> animate_spinner ''Broadcastujem blok peerom...'' 1500;
                   Some (spin @ mine_sent k)
                 }
                 else Some []);
        Some (sent @ mine_success b)
      }
      else Some mine_failure)"

text \<open>\<open>r\<close> is what \<open>rand\<close> returns for the duration of the animation, \<open>rnd\<close> what it returns in it.\<close>

definition do_mine_report :: "env \<Rightarrow> int \<Rightarrow> int \<Rightarrow> (nat \<Rightarrow> int) \<Rightarrow> 'k world \<Rightarrow> string option" where
  "do_mine_report e now r rnd n = do {
     b \<leftarrow> mine_header now n;
     (b, n) \<leftarrow> mine_collect e b n;
     preparing \<leftarrow> animate_spinner ''Pripravujem blok, overujem transakcie...'' 2000;
     (attempts, mined) \<leftarrow> block_mine (sha e) b;
     checking \<leftarrow> animate_spinner ''Overujem proof-of-work...'' 1000;
     coin \<leftarrow> arr_get (transactions mined) 0;
     (v, _) \<leftarrow> chain_add_block (sha e) (node_chain n) mined;
     outcome \<leftarrow> mine_outcome (v = 0) (length (peers n)) mined;
     Some (mine_opening b @ preparing @ mine_searching @ animate_mining rnd (5000 + r mod 3000) @ mine_found
       @ checking @ mine_facts mined attempts coin @ outcome)
   }"

section \<open>Sending\<close>

definition ask_receiver :: string where
  "ask_receiver = ''Adresa pr'' @ utf8 0xED @ ''jemcu: ''"

definition ask_amount :: string where
  "ask_amount = ''Suma: ''"

definition ask_fee :: string where
  "ask_fee = ''Poplatok (min. '' @ fmt_d (uint MIN_TX_FEE) @ ''): ''"

definition receipt :: "tx_t \<Rightarrow> u64 \<Rightarrow> u64 \<Rightarrow> string" where
  "receipt t amt f =
     LF @ tx_print t
     @ LF @ ''  Celkov'' @ utf8 0xE1 @ '' cena: '' @ fmt_u (unat amt) @ '' coin (suma) + '' @ fmt_u (unat f)
     @ '' coin (fee) = '' @ fmt_u (unat (amt + f)) @ '' coin'' @ LF
     @ LF @ ''  >>> Pre potvrdenie transakcie vy'' @ utf8 0x165 @ ''a'' @ utf8 0x17E @ '' blok [1]. <<<'' @ LF"

definition send_sent :: "nat \<Rightarrow> string" where
  "send_sent k = ''  Transakcia odoslan'' @ utf8 0xE1 @ '' '' @ fmt_d (int k) @ '' peerom.'' @ LF"

text \<open>From the check of the balance on; \<open>n\<close> does not change in a way that is shown.\<close>

definition send_report :: "env \<Rightarrow> 'k crypto \<Rightarrow> bool \<Rightarrow> string \<Rightarrow> u64 \<Rightarrow> u64 \<Rightarrow> 'k world \<Rightarrow> string option" where
  "send_report e cr md_ctx rcv amt f n = do {
     balance \<leftarrow> chain_get_balance (node_chain n) (address (wallet (app n)));
     let total_cost = amt + f;
     if balance < sint total_cost
     then Some (''Nedostato'' @ utf8 0x10D @ ''n'' @ utf8 0xFD @ '' zostatok ('' @ fmt_d balance @ '' < ''
            @ fmt_u (unat total_cost) @ '').'' @ LF)
     else do {
       creating \<leftarrow> animate_spinner (''Vytv'' @ utf8 0xE1 @ ''ram transakciu...'') 1000;
       signing \<leftarrow> animate_spinner (''Podpisujem transakciu priv'' @ utf8 0xE1 @ ''tnym k'' @ utf8 0x13E @ utf8 0xFA
         @ utf8 0x10D @ ''om (Ed25519)...'') 2000;
       case wallet_sign_tx cr md_ctx (wallet (app n)) (tx_create (sha e) (address (wallet (app n))) (take 64 rcv) amt f) of
         (r, t) \<Rightarrow>
           if r \<noteq> 0 then Some (LF @ creating @ signing @ ''Chyba pri podpisovan'' @ utf8 0xED @ '' transakcie.'' @ LF)
           else do {
             queueing \<leftarrow> animate_spinner (''Prid'' @ utf8 0xE1 @ ''vam do mempoolu...'') 1000;
             sent \<leftarrow> (if peers n \<noteq> [] then do {
                        spin \<leftarrow> animate_spinner (''Broadcastujem transakciu na sie'' @ utf8 0x165 @ ''...'') 2000;
                        Some (spin @ send_sent (length (peers n)))
                      }
                      else Some []);
             Some (LF @ creating @ signing @ ''  Transakcia podp'' @ utf8 0xED @ ''san'' @ utf8 0xE1 @ ''.'' @ LF
               @ queueing @ sent @ receipt t amt f)
           }
     }
   }"

definition do_send_report :: "env \<Rightarrow> 'k crypto \<Rightarrow> bool \<Rightarrow> send_input \<Rightarrow> 'k world \<Rightarrow> string option" where
  "do_send_report e cr md_ctx inp n =
     (case in_receiver inp of None \<Rightarrow> Some ask_receiver | Some rcv \<Rightarrow>
      (case in_amount inp of None \<Rightarrow> Some (ask_receiver @ ask_amount) | Some amt \<Rightarrow>
       (case in_fee inp of None \<Rightarrow> Some (ask_receiver @ ask_amount @ ask_fee) | Some f \<Rightarrow>
         map_option (\<lambda>s. ask_receiver @ ask_amount @ ask_fee @ s)
           (if f < MIN_TX_FEE
            then Some (''Poplatok mus'' @ utf8 0xED @ '' by'' @ utf8 0x165 @ '' aspo'' @ utf8 0x148 @ '' ''
                   @ fmt_d (uint MIN_TX_FEE) @ '' coin.'' @ LF)
            else send_report e cr md_ctx rcv amt f n))))"

section \<open>Connecting\<close>

definition do_connect_report :: "env \<Rightarrow> (string \<Rightarrow> u16 \<Rightarrow> dial_result) \<Rightarrow> string \<Rightarrow> 'k world \<Rightarrow> string option" where
  "do_connect_report e dial inp n =
     (let ask_host = ''Host (napr. localhost): ''; ask_port = ''Port (napr. 9334): '' in
      case scan_s 255 inp of
        (None, _) \<Rightarrow> Some ask_host
      | (Some h, inp) \<Rightarrow>
     (case scan_d inp of
        (None, _) \<Rightarrow> Some (ask_host @ ask_port)
      | (Some p, _) \<Rightarrow> do {
          dialling \<leftarrow> animate_spinner (''Prip'' @ utf8 0xE1 @ ''jam sa k peerovi...'') 2000;
          (r, _) \<leftarrow> node_connect_peer e (app_callbacks e) (dial h (of_int p)) n h (of_int p);
          syncing \<leftarrow> animate_spinner ''Synchronizujem blockchain...'' 3000;
          Some (ask_host @ ask_port @ LF @ dialling
            @ (if r = 0
               then ''  Pripojen'' @ utf8 0xFD @ '' k '' @ h @ '':'' @ fmt_d p @ ''.'' @ LF @ syncing
                 @ ''  Synchroniz'' @ utf8 0xE1 @ ''cia dokon'' @ utf8 0x10D @ ''en'' @ utf8 0xE1 @ ''.'' @ LF
               else ''  Chyba pri prip'' @ utf8 0xE1 @ ''jan'' @ utf8 0xED @ '' k '' @ h @ '':'' @ fmt_d p @ ''.'' @ LF))
        }))"

section \<open>Facts\<close>

lemma spinner_Some: obtains s where "animate_spinner label ms = Some s"
  using animate_spinner_defined by blast

lemma mine_outcome_eq:
  "\<exists>sent. mine_outcome added k b = Some (sent @ (if added then mine_success b else mine_failure))
    \<and> (added \<and> 0 < k \<longrightarrow> suffix (mine_sent k) sent)"
proof (cases "added \<and> 0 < k")
  case True
  obtain s where "animate_spinner ''Broadcastujem blok peerom...'' 1500 = Some s" by (rule spinner_Some)
  with True show ?thesis by (intro exI [of _ "s @ mine_sent k"]) (simp add: mine_outcome_def suffix_def)
next
  case False
  then show ?thesis by (intro exI [of _ "[]"]) (auto simp: mine_outcome_def)
qed

lemma send_report_accepts:
  assumes "chain_get_balance (node_chain n) (address (wallet (app n))) = Some bal" "sint (amt + f) \<le> bal"
    "wallet_sign_tx cr md (wallet (app n)) (tx_create (sha e) (address (wallet (app n))) (take 64 rcv) amt f) = (0, t)"
  shows "\<exists>front. send_report e cr md rcv amt f n = Some (front @ receipt t amt f)"
proof -
  obtain s1 where s1: "animate_spinner (''Vytv'' @ utf8 0xE1 @ ''ram transakciu...'') 1000 = Some s1" by (rule spinner_Some)
  obtain s2 where s2: "animate_spinner (''Podpisujem transakciu priv'' @ utf8 0xE1 @ ''tnym k'' @ utf8 0x13E @ utf8 0xFA
      @ utf8 0x10D @ ''om (Ed25519)...'') 2000 = Some s2" by (rule spinner_Some)
  obtain s3 where s3: "animate_spinner (''Prid'' @ utf8 0xE1 @ ''vam do mempoolu...'') 1000 = Some s3" by (rule spinner_Some)
  obtain s4 where s4: "animate_spinner (''Broadcastujem transakciu na sie'' @ utf8 0x165 @ ''...'') 2000 = Some s4"
    by (rule spinner_Some)
  note spinners = s1 s2 s3 s4
  let ?sent = "if peers n \<noteq> [] then s4 @ send_sent (length (peers n)) else []"
  let ?front = "LF @ s1 @ s2 @ ''  Transakcia podp'' @ utf8 0xED @ ''san'' @ utf8 0xE1 @ ''.'' @ LF @ s3 @ ?sent"
  have "send_report e cr md rcv amt f n = Some (?front @ receipt t amt f)"
    unfolding send_report_def spinners using assms by (simp add: Let_def not_less)
  then show ?thesis by blast
qed

section \<open>Properties\<close>

text \<open>
  What mining reports: when nothing interferes and the search returns, the report ends with the line
  that the block has been added, which is true, but in front of it stands the number of all peers that
  ever connected as the number of those that got the block, while it was sent to the active ones only.
\<close>

theorem mine_report:
  assumes "reliable e" "world_inv e n" "chain_length (node_chain n) < MAX_BLOCKS" "i64_ok now"
    "\<forall>t \<in> set (mempool (app n)). \<exists>v. chain_get_balance (node_chain n) (sender t) = Some v"
    "\<forall>b. block_ok b \<longrightarrow> (\<exists>k. pow_nonce (sha e) b k)" "peers n \<noteq> []"
  shows "\<exists>n' b txt. do_mine e now n = Some n' \<and> do_mine_report e now r rnd n = Some txt
    \<and> blocks (node_chain n') = blocks (node_chain n) @ [b]
    \<and> suffix (mine_sent (length (peers n)) @ mine_success b) txt
    \<and> map fst (outbox n') = map fst (outbox n) @ map fd (filter (\<lambda>p. active p \<and> fd p \<noteq> - 1) (peers n))"
proof -
  obtain h b n1 k b' where m: "mine_header now n = Some h" "mine_collect e h n = Some (b, n1)"
    "block_mine (sha e) b = Some (k, b')" "n1 = set_mempool n []" "block_ok b'"
    "chain_add_block (sha e) (node_chain n) b' = Some (0, \<lparr>blocks = blocks (node_chain n) @ [b']\<rparr>)"
    by (rule mining_stages [OF assms(2-6)])
  let ?n = "n1\<lparr>node_chain := \<lparr>blocks = blocks (node_chain n) @ [b']\<rparr>\<rparr>"
  have bc: "node_broadcast_block e ?n b' = Some (?n\<lparr>outbox := outbox ?n @ map (\<lambda>p. (fd p, msg_text MSG_NEW_BLOCK (block_text b') @ [CHR 0x0A]))
      (filter (\<lambda>p. active p \<and> fd p \<noteq> - 1) (peers ?n))\<rparr>)"
    by (simp add: node_broadcast_block_def broadcast_block_eq [OF assms(1) m(5)])
  have mine: "do_mine e now n = node_broadcast_block e ?n b'"
    using m by (simp add: do_mine_def mine_publish_def)
  obtain sent where sent: "mine_outcome True (length (peers n)) b' = Some (sent @ mine_success b')"
    "suffix (mine_sent (length (peers n))) sent"
    using mine_outcome_eq [of True "length (peers n)" b'] assms(7) by auto
  obtain s1 where s1: "animate_spinner ''Pripravujem blok, overujem transakcie...'' 2000 = Some s1" by (rule spinner_Some)
  obtain s2 where s2: "animate_spinner ''Overujem proof-of-work...'' 1000 = Some s2" by (rule spinner_Some)
  have "0 < length (transactions b')" using m(5) by (simp add: block_ok_def block_shape_def block_consts)
  then obtain coin where "arr_get (transactions b') 0 = Some coin" by simp
  then have report: "do_mine_report e now r rnd n = Some ((mine_opening b @ s1 @ mine_searching
      @ animate_mining rnd (5000 + r mod 3000) @ mine_found @ s2 @ mine_facts b' k coin) @ sent @ mine_success b')"
    using m sent(1) unfolding do_mine_report_def s1 s2 by simp
  moreover have "suffix (mine_sent (length (peers n)) @ mine_success b') (u @ sent @ mine_success b')" for u
    using sent(2) by (auto simp: suffix_def)
  ultimately show ?thesis
    using mine bc m(4)
    by (intro exI [of _ "the (node_broadcast_block e ?n b')"] exI [of _ b']
        exI [of _ "the (do_mine_report e now r rnd n)"]) (simp add: comp_def del: append_assoc)
qed

theorem mine_report_witness:
  "\<exists>n' txt. do_mine demo_env 1800000000 (demo_world []) = Some n'
    \<and> do_mine_report demo_env 1800000000 7 (\<lambda>_. 3) (demo_world []) = Some txt
    \<and> map fst (outbox n') = [4]"
proof -
  have "world_inv demo_env (demo_world [])" by (intro demo_world_inv) simp_all
  from mine_report [OF demo_env_facts(1) this, of 1800000000 7 "\<lambda>_. 3"] show ?thesis
    by (fastforce simp: i64_ok_def zero_sha_pow demo_world_def)
qed

text \<open>
  A receipt for a payment that is gone: with a full mempool and no active peer, \<open>do_send\<close> accepts a
  payment that the balance covers and leaves the state as it was, so the payment is nowhere; the report
  still says that it was signed and queued, and ends with its receipt and the advice to mine a block.
\<close>

theorem lost_payment:
  assumes "reliable e" "ed25519 cr k" "keypair (wallet (app n)) = Some k" "wallet_ok cr (wallet (app n))"
    "cstr_fits ADDR_LEN rcv" "chain_get_balance (node_chain n) (address (wallet (app n))) = Some bal"
    "MIN_TX_FEE \<le> f" "sint (amt + f) \<le> bal" "MEMPOOL_SIZE \<le> length (mempool (app n))"
    "\<forall>p \<in> set (peers n). \<not> active p"
  shows "\<exists>t txt. do_send e cr True \<lparr>in_receiver = Some rcv, in_amount = Some amt, in_fee = Some f\<rparr> n = Some n
    \<and> do_send_report e cr True \<lparr>in_receiver = Some rcv, in_amount = Some amt, in_fee = Some f\<rparr> n = Some txt
    \<and> suffix (receipt t amt f) txt \<and> receiver t = rcv \<and> amount t = amt \<and> wallet_verify_tx cr t = 0"
proof -
  let ?w = "wallet (app n)"
  let ?t = "tx_create (sha e) (address ?w) rcv amt f"
  have rcv: "take 64 rcv = rcv" using assms(5) by (simp add: cstr_fits_def ADDR_LEN_def)
  have fits: "cstr_fits ADDR_LEN (address ?w)"
    using sign_verify [OF assms(2-4), of "tx_zero\<lparr>sender := address ?w\<rparr>"] by auto
  note sel = tx_create_sel [OF fits assms(5), of "sha e" amt f]
  obtain sig where sig: "wallet_sign_tx cr True ?w ?t = (0, ?t\<lparr>signature := hex_bytes sig\<rparr>)"
    "cstr_fits SIG_LEN (hex_bytes sig)" "wallet_verify_tx cr (?t\<lparr>signature := hex_bytes sig\<rparr>) = 0"
    using sign_verify [OF assms(2-4) sel(1)] by blast
  let ?s = "?t\<lparr>signature := hex_bytes sig\<rparr>"
  have ok: "tx_ok ?s"
    using fits assms(5) sig(2) tx_create_ok [of "address ?w" rcv "sha e" amt f]
    by (simp add: cstr_fits_def tx_ok_def)
  have "mempool_push n ?s = n" using assms(9) by (simp add: mempool_push_def)
  moreover have "filter active (peers n) = []" using assms(10) by (simp add: filter_False)
  ultimately have lost: "node_broadcast_tx e (mempool_push n ?s) ?s = n"
    by (simp add: broadcast_tx_eq [OF assms(1) ok])
  have "do_send e cr True \<lparr>in_receiver = Some rcv, in_amount = Some amt, in_fee = Some f\<rparr> n
      = Some (node_broadcast_tx e (mempool_push n ?s) ?s)"
    using assms(6-8) sig(1) rcv by (simp add: do_send_def Let_def not_less)
  then have send: "do_send e cr True \<lparr>in_receiver = Some rcv, in_amount = Some amt, in_fee = Some f\<rparr> n = Some n"
    unfolding lost .
  obtain front where "send_report e cr True rcv amt f n = Some (front @ receipt ?s amt f)"
    using send_report_accepts [OF assms(6,8)] sig(1) rcv by metis
  then have report: "do_send_report e cr True \<lparr>in_receiver = Some rcv, in_amount = Some amt, in_fee = Some f\<rparr> n
      = Some ((ask_receiver @ ask_amount @ ask_fee @ front) @ receipt ?s amt f)"
    using assms(7) by (simp add: do_send_report_def leD)
  have "suffix (receipt ?s amt f) ((ask_receiver @ ask_amount @ ask_fee @ front) @ receipt ?s amt f)"
    unfolding suffix_def by blast
  moreover have "receiver ?s = rcv" "amount ?s = amt" using sel by simp_all
  ultimately show ?thesis using send report sig(3) by blast
qed

theorem lost_payment_witness:
  "\<exists>n t txt. length (mempool (app n)) = 100
    \<and> do_send demo_env demo_crypto True \<lparr>in_receiver = Some ''bb'', in_amount = Some 7, in_fee = Some 1\<rparr> n = Some n
    \<and> do_send_report demo_env demo_crypto True \<lparr>in_receiver = Some ''bb'', in_amount = Some 7, in_fee = Some 1\<rparr> n = Some txt
    \<and> suffix (receipt t 7 1) txt"
proof -
  let ?b = "block_zero\<lparr>tx_count := 1, transactions := replicate 10 (tx_zero\<lparr>receiver := address demo_wallet, amount := 50\<rparr>)\<rparr>"
  let ?n = "(demo_world (replicate 100 demo_payment))\<lparr>peers := [], node_chain := \<lparr>blocks = [?b]\<rparr>\<rparr>"
  have "address demo_wallet \<noteq> []" by (simp add: demo_wallet_def flip: length_0_conv)
  then have "chain_get_balance (node_chain ?n) (address (wallet (app ?n))) = Some 50"
    by (simp add: chain_get_balance_def balance_block.simps balance_tx_def strcmp_eq_def tx_zero_def
        i64_add_def i64_ok_def)
  moreover have "cstr_fits ADDR_LEN ''bb''" by (simp add: cstr_fits_def ADDR_LEN_def)
  ultimately have "\<exists>t txt. do_send demo_env demo_crypto True \<lparr>in_receiver = Some ''bb'', in_amount = Some 7, in_fee = Some 1\<rparr> ?n = Some ?n
    \<and> do_send_report demo_env demo_crypto True \<lparr>in_receiver = Some ''bb'', in_amount = Some 7, in_fee = Some 1\<rparr> ?n = Some txt
    \<and> suffix (receipt t 7 1) txt"
    using lost_payment [OF demo_env_facts(1) demo_crypto_facts(1), of ?n _ "''bb''" 50 1 7] demo_crypto_facts(2,3)
    by (simp add: MIN_TX_FEE_def MEMPOOL_SIZE_def demo_world_def) blast
  moreover have "length (mempool (app ?n)) = 100" by (simp add: demo_world_def)
  ultimately show ?thesis by blast
qed

end
