(* ===== verification/Sync.thy ===== *)
theory Sync
  imports App
begin

text \<open>
  The program's callbacks and the threads of the network layer together: what a new connection carries
  over, what the accept thread leaves in the peer table, and which streams a reader thread survives.
\<close>

section \<open>What a new connection sends\<close>

lemma node_send_tx_eq:
  assumes "reliable e" "tx_ok t"
  shows "node_send_tx e n s t = n\<lparr>outbox := outbox n @ [(s, msg_text MSG_NEW_TX (tx_text t) @ [CHR 0x0A])]\<rparr>"
proof -
  have al: "\<forall>k. malloc e k" using assms(1) by (simp add: reliable_def alloc_ok_def)
  then show ?thesis
    by (simp add: node_send_tx_def protocol_serialize_tx_eq [OF assms(2)] protocol_serialize_msg_eq
        send_message_reliable [OF assms(1)])
qed

lemma send_txs_eq:
  assumes "reliable e" "\<forall>t \<in> set ts. tx_ok t"
  shows "send_txs e s ts n =
    n\<lparr>outbox := outbox n @ map (\<lambda>t. (s, msg_text MSG_NEW_TX (tx_text t) @ [CHR 0x0A])) ts\<rparr>"
  using assms(2) by (induction ts arbitrary: n) (simp_all add: node_send_tx_eq [OF assms(1)])

text \<open>The lines that a node sends to a new peer: a request for its chain, then the mempool.\<close>

definition hello_lines :: "tx_t list \<Rightarrow> string list" where
  "hello_lines ts = (msg_text MSG_REQUEST_CHAIN ''{}'' @ [CHR 0x0A])
     # map (\<lambda>t. msg_text MSG_NEW_TX (tx_text t) @ [CHR 0x0A]) ts"

lemma add_peer_reliable:
  assumes "reliable e" "\<forall>t \<in> set (mempool (app n)). tx_ok t" "length (peers n) < MAX_PEERS"
  shows "add_peer e (app_callbacks e) n s h p =
    Some (0, n\<lparr>peers := peers n @ [\<lparr>fd = s, host = strncpy_to h 255, port = p, active = True\<rparr>],
      outbox := outbox n @ map (\<lambda>l. (s, l)) (hello_lines (mempool (app n)))\<rparr>)"
proof -
  have al: "\<forall>k. malloc e k" using assms(1) by (simp add: reliable_def alloc_ok_def)
  let ?n = "n\<lparr>peers := peers n @ [\<lparr>fd = s, host = strncpy_to h 255, port = p, active = True\<rparr>]\<rparr>"
  have "node_request_chain e ?n (int (length (peers n))) =
      ?n\<lparr>outbox := outbox n @ [(s, msg_text MSG_REQUEST_CHAIN ''{}'' @ [CHR 0x0A])]\<rparr>"
    using al by (simp add: node_request_chain_def protocol_serialize_msg_eq send_message_reliable [OF assms(1)])
  then show ?thesis
    using assms(2,3) al
    by (simp add: add_peer_def Let_def app_callbacks_def on_peer_connected_cb_def
        send_txs_eq [OF assms(1)] hello_lines_def comp_def)
qed

section \<open>What the peer reads\<close>

text \<open>The messages behind a list of complete lines.\<close>

lemma frames_lines:
  assumes "\<forall>m \<in> set ms. CHR 0x0A \<notin> set m \<and> CHR 0x00 \<notin> set m \<and> length m < MAX_MSG_SIZE - 1"
  shows "frames (concat (map (\<lambda>m. m @ [CHR 0x0A]) ms)) = ms"
  using assms by (induction ms) (simp_all add: frames_line c_string_id)

lemma request_line:
  "CHR 0x0A \<notin> set (msg_text MSG_REQUEST_CHAIN ''{}'') \<and> CHR 0x00 \<notin> set (msg_text MSG_REQUEST_CHAIN ''{}'')
    \<and> length (msg_text MSG_REQUEST_CHAIN ''{}'') < MAX_MSG_SIZE - 1"
  using msg_text_one_line [OF wire_object_empty, of MSG_REQUEST_CHAIN]
  by (simp add: length_msg_text MAX_MSG_SIZE_def)

lemma frames_hello:
  assumes "\<forall>t \<in> set ts. tx_wire t"
  shows "frames (concat (hello_lines ts)) =
    msg_text MSG_REQUEST_CHAIN ''{}'' # map (\<lambda>t. msg_text MSG_NEW_TX (tx_text t)) ts"
proof -
  let ?ms = "msg_text MSG_REQUEST_CHAIN ''{}'' # map (\<lambda>t. msg_text MSG_NEW_TX (tx_text t)) ts"
  have lines: "concat (hello_lines ts) = concat (map (\<lambda>m. m @ [CHR 0x0A]) ?ms)"
    by (simp add: hello_lines_def comp_def)
  show ?thesis
    unfolding lines using request_line assms tx_stream.frame_line by (intro frames_lines) auto
qed

lemma handle_request_message:
  assumes "malloc e = alloc_ok"
  shows "handle_message e cb n s (msg_text MSG_REQUEST_CHAIN ''{}'') = handle_request_chain e n s"
  using protocol_parse_msg_eq [OF wire_object_empty, of alloc_ok MSG_REQUEST_CHAIN] assms
  by (simp add: handle_message_def alloc_ok_def)

lemma handle_tx_messages:
  assumes "malloc e = alloc_ok" "\<forall>t \<in> set ts. tx_wire t"
  shows "foldM (\<lambda>n m. handle_message e (app_callbacks e) n (fd (peers n ! i)) m) n
      (map (\<lambda>t. msg_text MSG_NEW_TX (tx_text t)) ts)
    = foldM (\<lambda>n t. Some (mempool_push n t)) n ts"
  using assms(2)
  by (induction ts arbitrary: n) (simp_all add: handle_new_tx_message [OF assms(1)])

lemma mempool_pushes:
  "\<exists>n'. foldM (\<lambda>n t. Some (mempool_push n t)) n ts = Some n' \<and> same_node n n' \<and> outbox n' = outbox n"
proof (induction ts arbitrary: n)
  case (Cons t ts)
  have "same_node n (mempool_push n t) \<and> outbox (mempool_push n t) = outbox n"
    by (simp add: mempool_push_def)
  with Cons [of "mempool_push n t"] show ?case by (auto simp: same_node_def)
qed simp

section \<open>Properties\<close>

text \<open>
  A new connection synchronises the mempool: what a node writes to the socket of a new peer, read by
  that peer's reader thread until the connection ends, appends the node's mempool to the peer's, in
  order and as far as there is room, and leaves the peer's chain as it is.
\<close>

theorem mempool_sync:
  assumes "reliable e" "malloc e' = alloc_ok" "\<forall>t \<in> set (mempool (app a)). tx_wire t"
    "length (peers a) < MAX_PEERS" "world_inv e' b" "counted (node_chain b)" "running b"
    "i < length (peers b)" "active (peers b ! i)"
  shows "\<exists>a' ls b'. add_peer e (app_callbacks e) a s h p = Some (0, a') \<and> outbox a' = outbox a @ map (\<lambda>l. (s, l)) ls
    \<and> peer_handler e' (app_callbacks e') i b (concat ls) = Some (b', [])
    \<and> mempool (app b') = take MEMPOOL_SIZE (mempool (app b) @ mempool (app a)) \<and> node_chain b' = node_chain b"
proof -
  let ?ts = "mempool (app a)"
  have ok: "\<forall>t \<in> set ?ts. tx_ok t" using assms(3) by (auto simp: tx_wire_def)
  have shape: "chain_shape (node_chain b)" using assms(5) by (simp add: node_inv_def chain_inv_def)
  obtain b1 where b1: "handle_request_chain e' b (fd (peers b ! i)) = Some b1"
    using handle_request_chain_defined [OF shape assms(6)] by blast
  obtain fds where fds: "only_sends b fds b1" using only_sends_chain [OF b1] by blast
  obtain b2 where b2: "foldM (\<lambda>n t. Some (mempool_push n t)) b1 ?ts = Some b2" "same_node b1 b2"
    using mempool_pushes by blast
  have "length (mempool (app b1)) \<le> MEMPOOL_SIZE"
    using assms(5) by (simp add: only_sendsD [OF fds] node_inv_def app_ok_def)
  from mempool_table.ins_all [OF b2(1) TrueI this]
  have pool: "mempool (app b2) = take MEMPOOL_SIZE (mempool (app b) @ ?ts)"
    by (simp add: only_sendsD [OF fds])
  have "peer_handler e' (app_callbacks e') i b (concat (hello_lines ?ts)) = Some (disconnect i b2, [])"
    using b1 b2(1) app_cb.peer_handler_frames [OF assms(5,8,7,9), of e' "concat (hello_lines ?ts)"] assms(2)
    by (simp add: frames_hello [OF assms(3)] handle_request_message handle_tx_messages [OF assms(2,3)]
        alloc_ok_def)
  with pool b2(2) show ?thesis
    by (auto simp: add_peer_reliable [OF assms(1) ok assms(4)] disconnect_def same_node_def only_sendsD [OF fds])
qed

lemma demo_world_peer [simp]:
  "running (demo_world ts)" "0 < length (peers (demo_world ts))" "active (peers (demo_world ts) ! 0)"
  "outbox (demo_world ts) = []" "closed (demo_world ts) = []"
  by (simp_all add: demo_world_def)

lemma demo_counted [simp]: "counted demo_chain"
  by (simp add: counted_def demo_chain_def demo_block_def demo_genesis_def)

theorem mempool_sync_witness:
  "\<exists>ls b'. peer_handler demo_env (app_callbacks demo_env) 0 (demo_world []) (concat ls) = Some (b', [])
    \<and> mempool (app b') = [demo_payment]"
proof -
  have "world_inv demo_env (demo_world [])" by (intro demo_world_inv) simp_all
  from mempool_sync [OF demo_env_facts(1,3) _ _ this, of "demo_world [demo_payment]" 0 20 "''localhost''" 9334]
  show ?thesis by (auto simp: demo_wire MAX_PEERS_def MEMPOOL_SIZE_def)
qed

text \<open>
  C20. The reader thread is a fold over the lines: reading the socket byte by byte, as \<open>peer_handler\<close> and
  \<open>read_message\<close> do, has on every stream whatsoever the same effect as cutting the stream into messages
  first and handling them one after the other; then the peer is marked inactive and its socket closed.
\<close>

theorem reader_thread_frames:
  assumes "world_inv e n" "i < length (peers n)" "running n" "active (peers n ! i)" "malloc e MAX_MSG_SIZE"
  shows "peer_handler e (app_callbacks e) i n s =
    (case foldM (\<lambda>n m. handle_message e (app_callbacks e) n (fd (peers n ! i)) m) n (frames s) of
       None \<Rightarrow> None | Some n' \<Rightarrow> Some (disconnect i n', []))"
  by (simp add: app_cb.peer_handler_frames [OF assms] split: option.split)

theorem reader_thread_frames_witness:
  "peer_handler demo_env (app_callbacks demo_env) 0 (demo_world []) ''garbage''
    = Some (disconnect 0 (demo_world []), [])"
proof -
  have inv: "world_inv demo_env (demo_world [])" by (intro demo_world_inv) simp_all
  have "frames ''garbage'' = []"
    by (subst frames.simps) (simp add: next_frame_def MAX_MSG_SIZE_def)
  then show ?thesis
    using reader_thread_frames [OF inv, of 0 "''garbage''"] by (simp add: alloc_ok_def)
qed

text \<open>
  C21. Which streams are safe: when every block in the messages of a stream has a transaction count of at
  most 10, the reader thread runs into no undefined behaviour. It returns with everything read, keeps
  the invariant, and has closed the connection. Together with \<open>remote_undefined_read\<close> this makes the
  unchecked transaction count the only way for a peer to crash the node.
\<close>

theorem reader_thread_safe:
  assumes "world_inv e n" "i < length (peers n)" "running n" "active (peers n ! i)" "malloc e MAX_MSG_SIZE"
    "tx_count (hd (blocks (node_chain n))) \<le> 10" "\<forall>m \<in> set (frames s). counts_ok (malloc e) m"
  shows "\<exists>n'. peer_handler e (app_callbacks e) i n s = Some (n', []) \<and> world_inv e n'
    \<and> \<not> active (peers n' ! i) \<and> fd (peers n ! i) \<in> set (closed n')"
proof -
  have "counted (node_chain n)"
    using chain_inv_counted [of "sha e" "node_chain n"] assms(1,6) by (simp add: node_inv_def)
  from app_cb.peer_handler_defined [OF assms(1-5) this assms(7)] show ?thesis by blast
qed

theorem reader_thread_safe_witness:
  "\<exists>n'. peer_handler demo_env (app_callbacks demo_env) 0 (demo_world []) ''{\"type\":5}\<newline>xyz\<newline>'' = Some (n', [])
    \<and> world_inv demo_env n'"
proof -
  have inv: "world_inv demo_env (demo_world [])" by (intro demo_world_inv) simp_all
  have "frames ''{\"type\":5}\<newline>xyz\<newline>'' = [''{\"type\":5}'', ''xyz'']"
    using frames_lines [of "[''{\"type\":5}'', ''xyz'']"] by (simp add: MAX_MSG_SIZE_def)
  moreover have "counts_ok alloc_ok ''{\"type\":5}''" "counts_ok alloc_ok ''xyz''"
    by code_simp+
  ultimately show ?thesis
    using reader_thread_safe [OF inv, of 0 "''{\"type\":5}\<newline>xyz\<newline>''"]
    by (auto simp: alloc_ok_def demo_chain_def demo_genesis_def)
qed

text \<open>
  The table of peers: whatever sequence of results \<open>accept\<close> delivers, failures among them, the accept
  thread keeps the first connections in their order up to 16 in all, and closes exactly the sockets of
  those behind; the mempool, the wallet and the chain are not touched.
\<close>

theorem accept_thread_table:
  assumes "world_inv e n" "running n" "accept_thread e (app_callbacks e) n as = Some n'"
  shows "peers n' = take MAX_PEERS (peers n @ map new_peer (filter (\<lambda>a. 0 \<le> fst a) as))
    \<and> closed n' = closed n @ map fst (drop (MAX_PEERS - length (peers n)) (filter (\<lambda>a. 0 \<le> fst a) as))
    \<and> app n' = app n \<and> node_chain n' = node_chain n"
proof -
  have "foldM (insert_peer e) n (filter (\<lambda>a. 0 \<le> fst a) as) = Some n'"
    using app_cb.accept_thread_eq [OF assms(1,2), of e as] assms(3)
    by (simp add: insert_peer_def [abs_def])
  moreover have "length (peers n) \<le> MAX_PEERS" using assms(1) by (simp add: node_inv_def)
  ultimately show ?thesis
    using peer_table.ins_all [OF _ assms(1)] insert_peers_rest [OF _ assms(1)] by blast
qed

theorem accept_thread_table_witness:
  "\<exists>n'. accept_thread demo_env (app_callbacks demo_env) (demo_world []) [(- 1, [], 0), (9, ''10.0.0.1'', 4000)] = Some n'
    \<and> map fd (peers n') = [4, 9] \<and> closed n' = []"
proof -
  have inv: "world_inv demo_env (demo_world [])" by (intro demo_world_inv) simp_all
  obtain n' where n': "accept_thread demo_env (app_callbacks demo_env) (demo_world [])
      [(- 1, [], 0), (9, ''10.0.0.1'', 4000)] = Some n'"
    by (simp add: accept_step_def add_peer_reliable MAX_PEERS_def)
  note table = accept_thread_table [OF inv demo_world_peer(1) n']
  have "map fd (peers n') = [4, 9]"
    using conjunct1 [OF table] by (simp add: new_peer_def MAX_PEERS_def demo_world_def)
  moreover have "closed n' = []"
    using conjunct1 [OF conjunct2 [OF table]] by (simp add: MAX_PEERS_def)
  ultimately show ?thesis by (intro exI [of _ n'] conjI n')
qed

end
