(* ===== verification/Menu.thy ===== *)
theory Menu
  imports Report Sync
begin

text \<open>
  The main thread (\<open>main\<close> in \<open>src/main.c\<close>): the menu loop on the text that the user types, with the
  questions of \<open>do_send\<close> and \<open>do_connect_peer\<close>, and the whole program from its arguments to its exit
  code when no other thread comes in between. \<open>System\<close> runs the same operations interleaved
  with the threads of the network.

  All questions read from one stream, and \<open>scanf\<close> takes a word or a number at a time, not a line: what
  one question leaves is the answer to the next.
\<close>

section \<open>Operations\<close>

text \<open>The three questions of \<open>do_send\<close>, up to the first that is not answered.\<close>

definition read_payment :: "string \<Rightarrow> send_input \<times> string" where
  "read_payment inp =
     (case scan_s 64 inp of
        (None, inp) \<Rightarrow> (\<lparr>in_receiver = None, in_amount = None, in_fee = None\<rparr>, inp)
      | (Some rcv, inp) \<Rightarrow>
     (case scan_lu inp of
        (None, inp) \<Rightarrow> (\<lparr>in_receiver = Some rcv, in_amount = None, in_fee = None\<rparr>, inp)
      | (Some amt, inp) \<Rightarrow>
     (case scan_lu inp of (f, inp) \<Rightarrow>
        (\<lparr>in_receiver = Some rcv, in_amount = Some amt, in_fee = f\<rparr>, inp))))"

text \<open>\<open>dial h p\<close> is what resolving, \<open>socket\<close> and \<open>connect\<close> do for this host and port.\<close>

definition do_connect_peer :: "env \<Rightarrow> (string \<Rightarrow> u16 \<Rightarrow> dial_result) \<Rightarrow> string \<Rightarrow> 'k world \<Rightarrow> (string \<times> 'k world) option" where
  "do_connect_peer e dial inp n =
     (case scan_s 255 inp of
        (None, inp) \<Rightarrow> Some (inp, n)
      | (Some h, inp) \<Rightarrow>
     (case scan_d inp of
        (None, inp) \<Rightarrow> Some (inp, n)
      | (Some p, inp) \<Rightarrow> do {
          (_, n) \<leftarrow> node_connect_peer e (app_callbacks e) (dial h (of_int p)) n h (of_int p);
          Some (inp, n)
        }))"

text \<open>What the choices that only show something write.\<close>

definition page :: "(int \<Rightarrow> string option) \<Rightarrow> choice \<Rightarrow> 'k world \<Rightarrow> string option" where
  "page ctime c n =
     (case c of
        ShowChain \<Rightarrow> chain_print ctime (node_chain n)
      | WalletInfo \<Rightarrow> do_wallet_info n
      | NetworkStatus \<Rightarrow> Some (do_network_status n)
      | ShowMempool \<Rightarrow> Some (do_mempool n)
      | _ \<Rightarrow> Some (''Nezn'' @ utf8 0xE1 @ ''ma vo'' @ utf8 0x13E @ ''ba.'' @ LF))"

text \<open>What the outside gives to one turn of the menu: the clock, OpenSSL's context, the network.\<close>

record turn =
  clock :: int
  sign_ctx :: bool
  dialled :: "string \<Rightarrow> u16 \<Rightarrow> dial_result"

text \<open>
  One turn of the loop of \<open>main\<close>: whether the loop goes on, the input that is left, and the state. A
  page that cannot be written makes the turn undefined.
\<close>

definition main_turn ::
  "env \<Rightarrow> 'k crypto \<Rightarrow> (int \<Rightarrow> string option) \<Rightarrow> turn \<Rightarrow> string \<Rightarrow> 'k world \<Rightarrow> (bool \<times> string \<times> 'k world) option" where
  "main_turn e cr ctime w inp n = do {
     _ \<leftarrow> print_menu n;
     case scan_s 15 inp of
       (None, inp) \<Rightarrow> Some (False, inp, n)
     | (Some choice, inp) \<Rightarrow>
         (case menu_choice choice of
            Mine \<Rightarrow> do { n \<leftarrow> do_mine e (clock w) n; Some (True, inp, n) }
          | Send \<Rightarrow>
              (case read_payment inp of (payment, inp) \<Rightarrow>
                 do { n \<leftarrow> do_send e cr (sign_ctx w) payment n; Some (True, inp, n) })
          | ConnectPeer \<Rightarrow> do { (inp, n) \<leftarrow> do_connect_peer e (dialled w) inp n; Some (True, inp, n) }
          | Quit \<Rightarrow> Some (False, inp, n)
          | c \<Rightarrow> do { _ \<leftarrow> page ctime c n; Some (True, inp, n) })
   }"

lemma read_payment_rest: "length (snd (read_payment inp)) \<le> length inp"
  using scan_s_rest [of 64 inp] scan_lu_rest [of "snd (scan_s 64 inp)"]
    scan_lu_rest [of "snd (scan_lu (snd (scan_s 64 inp)))"]
  by (auto simp: read_payment_def split: prod.split option.split)

lemma do_connect_peer_rest: "do_connect_peer e d inp n = Some (inp', n') \<Longrightarrow> length inp' \<le> length inp"
  using scan_s_rest [of 255 inp] scan_d_rest [of "snd (scan_s 255 inp)"]
  by (auto simp: do_connect_peer_def split: prod.splits option.splits)

lemma main_turn_consumes:
  assumes "main_turn e cr ctime w inp n = Some (True, inp', n')"
  shows "length inp' < length inp"
proof -
  obtain v inp1 where s: "scan_s 15 inp = (Some v, inp1)"
    using assms by (cases "scan_s 15 inp"; cases "fst (scan_s 15 inp)") (auto simp: main_turn_def)
  have "length inp' \<le> length inp1"
    using assms read_payment_rest [of inp1] do_connect_peer_rest [of e "dialled w" inp1 n inp' n']
    by (cases "menu_choice v") (auto simp: main_turn_def s split: prod.splits)
  with scan_s_consumes [OF s] show ?thesis by simp
qed

text \<open>
  The loop; \<open>ws k\<close> belongs to turn \<open>k\<close>. Every turn that goes on has read at least one character, so the
  loop ends on every input.
\<close>

function main_loop ::
  "env \<Rightarrow> 'k crypto \<Rightarrow> (int \<Rightarrow> string option) \<Rightarrow> (nat \<Rightarrow> turn) \<Rightarrow> nat \<Rightarrow> string \<Rightarrow> 'k world \<Rightarrow> (string \<times> 'k world) option" where
  "main_loop e cr ctime ws k inp n =
     (if quit_flag (app n) then Some (inp, n)
      else do {
        (continue, inp, n) \<leftarrow> main_turn e cr ctime (ws k) inp n;
        if continue then main_loop e cr ctime ws (Suc k) inp n else Some (inp, n)
      })"
  by pat_completeness auto
termination
  by (relation "measure (\<lambda>(e, cr, ctime, ws, k, inp, n). length inp)") (auto dest: main_turn_consumes)

declare main_loop.simps [simp del]

text \<open>\<open>port = (uint16_t) atoi (argv[1])\<close>.\<close>

definition main_port :: "string option \<Rightarrow> u16" where
  "main_port arg = (case arg of None \<Rightarrow> DEFAULT_PORT | Some a \<Rightarrow> of_int (c_int (strtol a)))"

text \<open>The exit code of \<open>main\<close>, and the state at the end when the program has started.\<close>

definition main_run ::
  "env \<Rightarrow> 'k crypto \<Rightarrow> (int \<Rightarrow> string option) \<Rightarrow> 'k keygen \<Rightarrow> (string \<Rightarrow> bool) \<Rightarrow> files \<Rightarrow> listen_result
    \<Rightarrow> string option \<Rightarrow> (nat \<Rightarrow> turn) \<Rightarrow> string \<Rightarrow> (int \<times> 'k world option) option" where
  "main_run e cr ctime gen can_write fs lr arg ws inp = do {
     started \<leftarrow> main_start (sha e) cr gen can_write fs lr (main_port arg);
     case started of
       Inl code \<Rightarrow> Some (code, None)
     | Inr n \<Rightarrow> do {
         (_, n) \<leftarrow> main_loop e cr ctime ws 0 inp n;
         Some (0, Some (main_stop n))
       }
   }"

text \<open>\<open>sigint_handler\<close>; the loop looks at the flag before it shows the menu.\<close>

definition sigint_handler :: "'k world \<Rightarrow> 'k world" where
  "sigint_handler n = n\<lparr>app := (app n)\<lparr>quit_flag := True\<rparr>\<rparr>"

section \<open>Typed text\<close>

lemma LF_space [simp]: "is_space (CHR 0x0A)" "\<not> is_digit (CHR 0x0A)"
  by (simp_all add: is_space_def is_digit_def char_code_def)

lemma choice_line:
  assumes "length c = 1" "\<not> is_space (hd c)" "hd c \<noteq> CHR 0x00"
  shows "scan_s 15 (c @ LF @ rest) = (Some c, LF @ rest)"
  using scan_s_word [of c 15 "LF @ rest" "[]"] assms by (cases c) auto

text \<open>
  \<open>main_turns k\<close>: the loop has made \<open>k\<close> turns, each of which went on.
\<close>

fun main_turns ::
  "env \<Rightarrow> 'k crypto \<Rightarrow> (int \<Rightarrow> string option) \<Rightarrow> (nat \<Rightarrow> turn) \<Rightarrow> nat \<Rightarrow> nat \<Rightarrow> string \<Rightarrow> 'k world \<Rightarrow> string \<Rightarrow> 'k world \<Rightarrow> bool" where
  "main_turns e cr ctime ws i 0 inp n inp' n' \<longleftrightarrow> inp' = inp \<and> n' = n"
| "main_turns e cr ctime ws i (Suc k) inp n inp' n' \<longleftrightarrow> \<not> quit_flag (app n) \<and>
     (\<exists>inp1 n1. main_turn e cr ctime (ws i) inp n = Some (True, inp1, n1)
       \<and> main_turns e cr ctime ws (Suc i) k inp1 n1 inp' n')"

lemma main_turns_length: "main_turns e cr ctime ws i k inp n inp' n' \<Longrightarrow> length inp' + k \<le> length inp"
  by (induction k arbitrary: i inp n) (fastforce dest: main_turn_consumes)+

lemma main_turns_loop:
  "main_turns e cr ctime ws i k inp n inp' n' \<Longrightarrow>
    main_loop e cr ctime ws i inp n = main_loop e cr ctime ws (i + k) inp' n'"
proof (induction k arbitrary: i inp n)
  case (Suc k)
  then obtain inp1 n1 where t: "\<not> quit_flag (app n)" "main_turn e cr ctime (ws i) inp n = Some (True, inp1, n1)"
    "main_turns e cr ctime ws (Suc i) k inp1 n1 inp' n'" by auto
  with Suc.IH [OF t(3)] show ?case by (simp add: main_loop.simps [of e cr ctime ws i inp n])
qed simp

text \<open>The last state of the loop: it stops there, or its next turn is undefined.\<close>

definition loop_end ::
  "env \<Rightarrow> 'k crypto \<Rightarrow> (int \<Rightarrow> string option) \<Rightarrow> turn \<Rightarrow> string \<Rightarrow> 'k world \<Rightarrow> (string \<times> 'k world) option \<Rightarrow> bool" where
  "loop_end e cr ctime w inp n r \<longleftrightarrow>
     (if quit_flag (app n) then r = Some (inp, n)
      else case main_turn e cr ctime w inp n of
        None \<Rightarrow> r = None
      | Some (continue, inp', n') \<Rightarrow> \<not> continue \<and> r = Some (inp', n'))"

lemma main_loop_trace:
  "\<exists>k inp' n'. main_turns e cr ctime ws i k inp n inp' n'
    \<and> loop_end e cr ctime (ws (i + k)) inp' n' (main_loop e cr ctime ws i inp n)"
proof (induction "length inp" arbitrary: i inp n rule: less_induct)
  case less
  note unfold = main_loop.simps [of e cr ctime ws i inp n]
  show ?case
  proof (cases "\<not> quit_flag (app n) \<and> (\<exists>inp1 n1. main_turn e cr ctime (ws i) inp n = Some (True, inp1, n1))")
    case False
    then have "loop_end e cr ctime (ws i) inp n (main_loop e cr ctime ws i inp n)"
      by (cases "main_turn e cr ctime (ws i) inp n") (auto simp: loop_end_def unfold split: if_splits)
    then show ?thesis by (intro exI [of _ 0] exI [of _ inp] exI [of _ n]) simp
  next
    case True
    then obtain inp1 n1 where t: "\<not> quit_flag (app n)" "main_turn e cr ctime (ws i) inp n = Some (True, inp1, n1)"
      by blast
    from less [OF main_turn_consumes [OF t(2)], of "Suc i" n1] obtain k inp' n' where
      k: "main_turns e cr ctime ws (Suc i) k inp1 n1 inp' n'"
        "loop_end e cr ctime (ws (Suc i + k)) inp' n' (main_loop e cr ctime ws (Suc i) inp1 n1)" by blast
    then show ?thesis
      using t by (intro exI [of _ "Suc k"] exI [of _ inp'] exI [of _ n']) (simp add: unfold)
  qed
qed

section \<open>Properties\<close>


text \<open>
  What is typed is what is sent: after the choice \<open>2\<close>, a receiver of at most 64 characters, an amount
  and a fee, each on a line of its own, \<open>do_send\<close> gets exactly these three values, and the next question
  starts behind them.
\<close>

theorem typed_payment:
  assumes "\<forall>c \<in> set rcv. \<not> is_space c" "rcv \<noteq> []" "length rcv \<le> 64" "CHR 0x00 \<notin> set rcv"
  shows "main_turn e cr ctime w
      (''2'' @ LF @ rcv @ LF @ fmt_u (unat amt) @ LF @ fmt_u (unat f) @ LF @ rest) n =
    (case print_menu n of None \<Rightarrow> None | Some _ \<Rightarrow>
       map_option (\<lambda>n'. (True, LF @ rest, n'))
         (do_send e cr (sign_ctx w) \<lparr>in_receiver = Some rcv, in_amount = Some amt, in_fee = Some f\<rparr> n))"
proof -
  let ?r3 = "LF @ rest" and ?r2 = "LF @ fmt_u (unat f) @ LF @ rest"
  let ?r1 = "LF @ fmt_u (unat amt) @ ?r2" and ?in = "LF @ rcv @ LF @ fmt_u (unat amt) @ LF @ fmt_u (unat f) @ LF @ rest"
  have "scan_s 64 ?in = (Some rcv, ?r1)" using scan_s_word [of rcv 64 ?r1 LF] assms by simp
  moreover have "scan_lu ?r1 = (Some amt, ?r2)" using scan_lu_fmt_u [of LF ?r2 amt] by simp
  moreover have "scan_lu ?r2 = (Some f, ?r3)" using scan_lu_fmt_u [of LF ?r3 f] by simp
  ultimately have pay: "read_payment ?in = (\<lparr>in_receiver = Some rcv, in_amount = Some amt, in_fee = Some f\<rparr>, ?r3)"
    by (simp add: read_payment_def)
  have "scan_s 15 (''2'' @ ?in) = (Some ''2'', ?in)"
    by (rule choice_line) (simp_all add: is_space_def char_code_def)
  then show ?thesis
    using pay by (simp add: main_turn_def menu_choice_def strcmp_eq_def map_conv_bind_option comp_def split: option.split)
qed

theorem typed_payment_witness:
  "main_turn demo_env demo_crypto (\<lambda>_. Some LF) \<lparr>clock = 0, sign_ctx = True, dialled = (\<lambda>_ _. \<lparr>resolve_rc = 1, dial_fd = 0, connect_rc = 0\<rparr>)\<rparr>
      (''2'' @ LF @ ''bb'' @ LF @ fmt_u (unat (7 :: u64)) @ LF @ fmt_u (unat (0 :: u64)) @ LF @ ''q'') (demo_world [])
    = Some (True, LF @ ''q'', demo_world [])"
proof -
  have neq: "address demo_wallet \<noteq> a" if "length a < 10" for a :: string
    using that by (auto simp: demo_wallet_def)
  then have "chain_get_balance demo_chain (address demo_wallet) = Some 0" by (simp add: demo_balance)
  then obtain m where "print_menu (demo_world []) = Some m" by (auto simp: print_menu_def)
  then show ?thesis
    using typed_payment [of "''bb''" demo_env demo_crypto "\<lambda>_. Some LF"
        "\<lparr>clock = 0, sign_ctx = True, dialled = (\<lambda>_ _. \<lparr>resolve_rc = 1, dial_fd = 0, connect_rc = 0\<rparr>)\<rparr>"
        7 0 "''q''" "demo_world []"]
    by (simp add: do_send_def MIN_TX_FEE_def is_space_def char_code_def)
qed

text \<open>
  An address that is too long shifts the answers: \<open>%64s\<close> leaves what is beyond 64 characters in the
  input, where \<open>%lu\<close> takes it for the amount. The amount that is typed next becomes the fee, and the fee
  of 1 that is typed last is taken for the choice \<open>[1]\<close> of the menu, which mines a block.
\<close>

theorem overlong_receiver:
  assumes "\<forall>c \<in> set rcv. \<not> is_space c" "length rcv = 64" "CHR 0x00 \<notin> set rcv"
  shows "\<exists>rest. read_payment (LF @ rcv @ fmt_u (unat extra) @ LF @ fmt_u (unat amt) @ LF @ ''1'' @ LF @ later) =
      (\<lparr>in_receiver = Some rcv, in_amount = Some extra, in_fee = Some amt\<rparr>, rest)
    \<and> scan_s 15 rest = (Some ''1'', LF @ later) \<and> menu_choice ''1'' = Mine"
proof -
  let ?r2 = "LF @ ''1'' @ LF @ later" and ?r1 = "LF @ fmt_u (unat amt) @ LF @ ''1'' @ LF @ later"
  have "scan_s 64 (LF @ rcv @ fmt_u (unat extra) @ ?r1) = (Some rcv, fmt_u (unat extra) @ ?r1)"
    using scan_s_cut [of rcv 64 LF "fmt_u (unat extra) @ ?r1"] assms by simp
  moreover have "scan_lu (fmt_u (unat extra) @ ?r1) = (Some extra, ?r1)"
    using scan_lu_fmt_u [of "[]" ?r1 extra] by simp
  moreover have "scan_lu ?r1 = (Some amt, ?r2)" using scan_lu_fmt_u [of LF ?r2 amt] by simp
  moreover have "scan_s 15 ?r2 = (Some ''1'', LF @ later)"
    using scan_s_word [of "''1''" 15 "LF @ later" LF] by (simp add: is_space_def char_code_def)
  ultimately show ?thesis
    by (simp add: read_payment_def menu_choice_def strcmp_eq_def)
qed

theorem overlong_receiver_witness:
  "\<exists>rest. read_payment (LF @ replicate 64 (CHR ''a'') @ fmt_u (unat (5 :: u64)) @ LF @ fmt_u (unat (10 :: u64)) @ LF @ ''1'' @ LF @ ''q'') =
      (\<lparr>in_receiver = Some (replicate 64 (CHR ''a'')), in_amount = Some 5, in_fee = Some 10\<rparr>, rest)
    \<and> scan_s 15 rest = (Some ''1'', LF @ ''q'')"
  using overlong_receiver [of "replicate 64 (CHR ''a'')" 5 10 "''q''"]
  by (auto simp: is_space_def char_code_def)

end
