(* ===== verification/System.thy ===== *)
theory System
  imports Menu "HOL-Library.Multiset"
begin

text \<open>
  The whole program: the main thread of \<open>Menu\<close>, cut at its locks, interleaved with the reader threads,
  the accept thread and the signal handler. \<open>main_step\<close> has one rule for each section of the main thread,
  \<open>net_step\<close> one for each other thread, and \<open>sys_step\<close> is any step of the program.
\<close>

section \<open>The step relation\<close>

text \<open>
  Where the main thread is: in front of the test of \<open>quit_flag\<close>; behind the menu, waiting for a choice;
  inside \<open>do_send\<close>, with the signed transaction; inside \<open>do_mine\<close>, with the block it works on; or behind
  the loop.
\<close>

datatype main_pc =
    AtMenu
  | Prompt
  | Queueing tx_t
  | Announcing tx_t
  | Collecting block_t
  | Searching block_t
  | Publishing block_t
  | Stopped

text \<open>
  \<open>typed\<close> is what the user will still type, and \<open>incoming i\<close> what the peer in slot \<open>i\<close> will still send
  before it closes the connection. \<open>waiting\<close> holds the slots whose reader thread has passed the test of its
  loop and waits in \<open>recv\<close>; \<open>arriving\<close> is the connection that \<open>accept\<close> has returned and that \<open>add_peer\<close>
  has not entered yet. \<open>opened\<close> records the descriptors that the program got from the system.
\<close>

record 'k system =
  world :: "'k world"
  pc :: main_pc
  typed :: string
  incoming :: "nat \<Rightarrow> string"
  waiting :: "nat set"
  arriving :: "accepted option"
  opened :: "int list"

abbreviation flag :: "'k system \<Rightarrow> bool" where
  "flag s \<equiv> quit_flag (app (world s))"

text \<open>The descriptors that \<open>accept\<close> and the dialling of a peer deliver.\<close>

definition accept_opens :: "accepted \<Rightarrow> int list" where
  "accept_opens a = (if fst a < 0 then [] else [fst a])"

definition dial_opens :: "dial_result \<Rightarrow> int list" where
  "dial_opens dr = (if resolve_rc dr = 0 \<and> 0 \<le> dial_fd dr then [dial_fd dr] else [])"

definition connect_opens :: "(string \<Rightarrow> u16 \<Rightarrow> dial_result) \<Rightarrow> string \<Rightarrow> int list" where
  "connect_opens dial inp =
     (case scan_s 255 inp of
        (Some h, inp) \<Rightarrow> (case scan_d inp of (Some p, _) \<Rightarrow> dial_opens (dial h (of_int p)) | _ \<Rightarrow> [])
      | _ \<Rightarrow> [])"

text \<open>The choices that only show a page.\<close>

definition page_choice :: "choice \<Rightarrow> bool" where
  "page_choice c \<longleftrightarrow> c \<in> {ShowChain, WalletInfo, NetworkStatus, ShowMempool, Unknown}"

text \<open>
  A step of the main thread. What the outside decides (the clock, the context of OpenSSL, the dialling)
  is chosen by the step. A section that is undefined in C has no step.
\<close>

inductive main_step :: "env \<Rightarrow> 'k crypto \<Rightarrow> (int \<Rightarrow> string option) \<Rightarrow> 'k system \<Rightarrow> 'k system \<Rightarrow> bool"
  for e :: env and cr :: "'k crypto" and ctime :: "int \<Rightarrow> string option" where
  leave: "pc s = AtMenu \<Longrightarrow> quit_flag (app (world s)) \<Longrightarrow>
    main_step e cr ctime s (s\<lparr>world := main_stop (world s), pc := Stopped\<rparr>)"
| show_menu: "pc s = AtMenu \<Longrightarrow> \<not> quit_flag (app (world s)) \<Longrightarrow> print_menu (world s) = Some m \<Longrightarrow>
    main_step e cr ctime s (s\<lparr>pc := Prompt\<rparr>)"
| end_of_input: "pc s = Prompt \<Longrightarrow> scan_s 15 (typed s) = (None, inp) \<Longrightarrow>
    main_step e cr ctime s (s\<lparr>world := main_stop (world s), pc := Stopped, typed := inp\<rparr>)"
| quit: "pc s = Prompt \<Longrightarrow> scan_s 15 (typed s) = (Some c, inp) \<Longrightarrow> menu_choice c = Quit \<Longrightarrow>
    main_step e cr ctime s (s\<lparr>world := main_stop (world s), pc := Stopped, typed := inp\<rparr>)"
| look: "pc s = Prompt \<Longrightarrow> scan_s 15 (typed s) = (Some c, inp) \<Longrightarrow> page_choice (menu_choice c) \<Longrightarrow>
    page ctime (menu_choice c) (world s) = Some m \<Longrightarrow>
    main_step e cr ctime s (s\<lparr>pc := AtMenu, typed := inp\<rparr>)"
| connect: "pc s = Prompt \<Longrightarrow> scan_s 15 (typed s) = (Some c, inp) \<Longrightarrow> menu_choice c = ConnectPeer \<Longrightarrow>
    do_connect_peer e dial inp (world s) = Some (inp', n) \<Longrightarrow>
    main_step e cr ctime s (s\<lparr>world := n, pc := AtMenu, typed := inp', opened := opened s @ connect_opens dial inp\<rparr>)"
| send_refused: "pc s = Prompt \<Longrightarrow> scan_s 15 (typed s) = (Some c, inp) \<Longrightarrow> menu_choice c = Send \<Longrightarrow>
    read_payment inp = (payment, inp') \<Longrightarrow> send_prepare e cr md payment (world s) = Some None \<Longrightarrow>
    main_step e cr ctime s (s\<lparr>pc := AtMenu, typed := inp'\<rparr>)"
| send_signed: "pc s = Prompt \<Longrightarrow> scan_s 15 (typed s) = (Some c, inp) \<Longrightarrow> menu_choice c = Send \<Longrightarrow>
    read_payment inp = (payment, inp') \<Longrightarrow> send_prepare e cr md payment (world s) = Some (Some t) \<Longrightarrow>
    main_step e cr ctime s (s\<lparr>pc := Queueing t, typed := inp'\<rparr>)"
| queue: "pc s = Queueing t \<Longrightarrow>
    main_step e cr ctime s (s\<lparr>world := mempool_push (world s) t, pc := Announcing t\<rparr>)"
| announce: "pc s = Announcing t \<Longrightarrow>
    main_step e cr ctime s (s\<lparr>world := node_broadcast_tx e (world s) t, pc := AtMenu\<rparr>)"
| start_mining: "pc s = Prompt \<Longrightarrow> scan_s 15 (typed s) = (Some c, inp) \<Longrightarrow> menu_choice c = Mine \<Longrightarrow>
    i64_ok now \<Longrightarrow> mine_header now (world s) = Some b \<Longrightarrow>
    main_step e cr ctime s (s\<lparr>pc := Collecting b, typed := inp\<rparr>)"
| collect: "pc s = Collecting b \<Longrightarrow> mine_collect e b (world s) = Some (b', n) \<Longrightarrow>
    main_step e cr ctime s (s\<lparr>world := n, pc := Searching b'\<rparr>)"
| search: "pc s = Searching b \<Longrightarrow> block_mine (sha e) b = Some (k, b') \<Longrightarrow>
    main_step e cr ctime s (s\<lparr>pc := Publishing b'\<rparr>)"
| publish: "pc s = Publishing b \<Longrightarrow> mine_publish e b (world s) = Some n \<Longrightarrow>
    main_step e cr ctime s (s\<lparr>world := n, pc := AtMenu\<rparr>)"

text \<open>
  A step of another thread. A reader thread tests \<open>running\<close> and \<open>active\<close> and then waits, and what \<open>recv\<close>
  brings it later it handles whatever has become of the flags. The accept thread gets a connection while
  the listening socket is open, and enters it into the table in a second step.
\<close>

inductive net_step :: "env \<Rightarrow> 'k system \<Rightarrow> 'k system \<Rightarrow> bool" for e :: env where
  reader_waits: "i < length (peers (world s)) \<Longrightarrow> running (world s) \<Longrightarrow> active (peers (world s) ! i) \<Longrightarrow>
    i \<notin> waiting s \<Longrightarrow> net_step e s (s\<lparr>waiting := insert i (waiting s)\<rparr>)"
| reader_receives: "i \<in> waiting s \<Longrightarrow>
    peer_recv e (app_callbacks e) i (world s) (incoming s i) = Some (n, rest, cont) \<Longrightarrow>
    net_step e s (s\<lparr>world := n, incoming := (incoming s)(i := rest), waiting := waiting s - {i}\<rparr>)"
| peer_arrives: "running (world s) \<Longrightarrow> arriving s = None \<Longrightarrow>
    net_step e s (s\<lparr>arriving := Some a, opened := opened s @ accept_opens a\<rparr>)"
| peer_enters: "arriving s = Some a \<Longrightarrow> accept_step e (app_callbacks e) (world s) a = Some n \<Longrightarrow>
    net_step e s (s\<lparr>world := n, arriving := None\<rparr>)"

inductive sys_step :: "env \<Rightarrow> 'k crypto \<Rightarrow> (int \<Rightarrow> string option) \<Rightarrow> 'k system \<Rightarrow> 'k system \<Rightarrow> bool"
  for e :: env and cr :: "'k crypto" and ctime :: "int \<Rightarrow> string option" where
  main: "main_step e cr ctime s s' \<Longrightarrow> sys_step e cr ctime s s'"
| net: "net_step e s s' \<Longrightarrow> sys_step e cr ctime s s'"
| interrupt: "sys_step e cr ctime s (s\<lparr>world := sigint_handler (world s)\<rparr>)"

inductive_cases main_stepE: "main_step e cr ctime s s'"
inductive_cases net_stepE: "net_step e s s'"
inductive_cases sys_stepE: "sys_step e cr ctime s s'"

text \<open>The program after a successful start.\<close>

definition boot :: "'k world \<Rightarrow> string \<Rightarrow> (nat \<Rightarrow> string) \<Rightarrow> 'k system" where
  "boot n inp bytes = \<lparr>world = n, pc = AtMenu, typed = inp, incoming = bytes, waiting = {}, arriving = None,
     opened = [server_fd n]\<rparr>"

section \<open>The invariant\<close>

text \<open>What holds of the data that the main thread holds between two sections.\<close>

definition pc_ok :: "env \<Rightarrow> main_pc \<Rightarrow> bool" where
  "pc_ok e p = (case p of
      Queueing t \<Rightarrow> tx_ok t
    | Announcing t \<Rightarrow> tx_ok t
    | Collecting b \<Rightarrow> (\<exists>i now q. b = block_zero\<lparr>index := i, timestamp := now, prev_hash := q\<rparr>
        \<and> i64_ok now \<and> cstr_fits HASH_HEX_LEN q)
    | Searching b \<Rightarrow> block_ok b
    | Publishing b \<Rightarrow> block_ok b \<and> sealed (sha e) b
    | _ \<Rightarrow> True)"

text \<open>
  The account of the descriptors: as long as the node runs, every one that was opened is closed, or
  belongs to an active peer, or is the listening socket, or has just arrived, and is counted once. When
  the node has stopped, none is missing, but late threads may close one again.
\<close>

definition held :: "'k world \<Rightarrow> int multiset" where
  "held n = mset (closed n) + mset (map fd (filter active (peers n)))
     + (if running n then {#server_fd n#} else {#})"

definition arrived :: "'k system \<Rightarrow> int multiset" where
  "arrived s = (case arriving s of None \<Rightarrow> {#} | Some a \<Rightarrow> mset (accept_opens a))"

definition slots_ok :: "'k world \<Rightarrow> nat set \<Rightarrow> bool" where
  "slots_ok n w \<longleftrightarrow> (\<forall>i \<in> w. i < length (peers n) \<and> (running n \<longrightarrow> active (peers n ! i)))
     \<and> (\<forall>p \<in> set (peers n). \<not> active p \<longrightarrow> fd p \<in> set (closed n))"

definition sys_inv :: "env \<Rightarrow> 'k system \<Rightarrow> bool" where
  "sys_inv e s \<longleftrightarrow> world_inv e (world s) \<and> pc_ok e (pc s) \<and> slots_ok (world s) (waiting s)
     \<and> 0 \<le> server_fd (world s) \<and> (running (world s) \<longleftrightarrow> pc s \<noteq> Stopped)
     \<and> (pc s = Stopped \<longrightarrow> keypair (wallet (app (world s))) = None \<and> mset (opened s) \<subseteq># held (world s) + arrived s)
     \<and> (pc s \<noteq> Stopped \<longrightarrow> mset (opened s) = held (world s) + arrived s)"

lemma sys_inv_typed [simp]: "sys_inv e (s\<lparr>typed := inp\<rparr>) = sys_inv e s"
  by (simp add: sys_inv_def arrived_def)

lemma arrived_upd [simp]: "arrived (s\<lparr>world := n\<rparr>) = arrived s" "arrived (s\<lparr>pc := p\<rparr>) = arrived s"
  by (simp_all add: arrived_def)

lemma held_sockets: "same_sockets n n' \<Longrightarrow> held n' = held n"
  by (simp add: held_def same_sockets_def)

lemma same_sockets_slots: "same_sockets n n' \<Longrightarrow> slots_ok n' w = slots_ok n w"
  by (simp add: slots_ok_def same_sockets_def)

lemma app_keep_inv:
  "node_inv e (\<lambda>a. app_ok a \<and> quit_flag a = q \<and> wallet a = w) n \<longleftrightarrow>
    world_inv e n \<and> quit_flag (app n) = q \<and> wallet (app n) = w"
  by (auto simp: node_inv_def)

lemma main_stop_sockets:
  assumes "running n" "0 \<le> server_fd n" "slots_ok n w"
  shows "held (main_stop n) = held n" "\<not> running (main_stop n)" "server_fd (main_stop n) = server_fd n"
    "\<forall>p \<in> set (peers (main_stop n)). \<not> active p" "keypair (wallet (app (main_stop n))) = None"
    "slots_ok (main_stop n) w"
proof -
  have "filter active (map (\<lambda>p. p\<lparr>active := False\<rparr>) ps) = []" for ps
    by (induction ps) simp_all
  with assms show "held (main_stop n) = held n"
    by (simp add: held_def main_stop_def node_stop_def Let_def)
  show "slots_ok (main_stop n) w"
    using assms by (auto simp: slots_ok_def main_stop_def node_stop_def Let_def)
qed (use assms in \<open>auto simp: main_stop_def node_stop_def Let_def wallet_destroy_def split: option.split\<close>)

text \<open>\<open>gains n n'\<close>: the table may have got new active peers at its end, and descriptors may have been closed.\<close>

definition gains :: "'k world \<Rightarrow> 'k world \<Rightarrow> bool" where
  "gains n n' \<longleftrightarrow> (\<exists>ps. peers n' = peers n @ ps \<and> (\<forall>p \<in> set ps. active p)) \<and> set (closed n) \<subseteq> set (closed n')
     \<and> running n' = running n \<and> server_fd n' = server_fd n"

lemma gains_refl [simp]: "gains n n"
  by (simp add: gains_def)

lemma gains_sockets: "gains n m \<Longrightarrow> same_sockets m n' \<Longrightarrow> gains n n'"
  by (auto simp: gains_def same_sockets_def)

lemma gains_slots: "gains n n' \<Longrightarrow> slots_ok n w \<Longrightarrow> slots_ok n' w"
  by (fastforce simp: gains_def slots_ok_def nth_append)

lemma held_add_peer:
  assumes "world_inv e n" "add_peer e (app_callbacks e) n s h p = Some (r, n')"
  shows "held n' = add_mset s (held n) \<and> gains n n' \<and> app n' = app n"
  using app_cb.add_peer_effect [OF assms] insert_peer_rest [of e n "(s, h, p)" n'] assms(2)
  by (auto simp: held_def insert_peer_def gains_def)

lemma held_connect:
  assumes "world_inv e n" "node_connect_peer e (app_callbacks e) dr n h p = Some (r, n')"
  shows "held n' = held n + mset (dial_opens dr) \<and> gains n n'"
proof -
  consider "dial_opens dr = []" "n' = n" | "dial_opens dr = [dial_fd dr]" "n' = n\<lparr>closed := closed n @ [dial_fd dr]\<rparr>"
    | v m where "dial_opens dr = [dial_fd dr]" "add_peer e (app_callbacks e) n (dial_fd dr) h p = Some (v, m)"
        "n' = node_request_chain e m (int (length (peers m)) - 1)"
    using assms(2) by (auto simp: node_connect_peer_def dial_opens_def split: if_splits)
  then show ?thesis
  proof cases
    case (3 v m)
    obtain fds where "only_sends m fds n'" using only_sends_request_chain 3(3) by blast
    then have "same_sockets m n'" using only_sends_same same_node_sockets by blast
    with held_add_peer [OF assms(1) 3(2)] held_sockets [of m n'] gains_sockets [of n m n'] 3(1) show ?thesis
      by simp
  qed (auto simp: held_def gains_def)
qed

lemma do_connect_peer_inv:
  assumes "world_inv e n" "do_connect_peer e dial inp n = Some (inp', n')"
  shows "world_inv e n' \<and> node_chain n' = node_chain n \<and> held n' = held n + mset (connect_opens dial inp)
    \<and> gains n n'"
proof -
  consider "n' = n" "connect_opens dial inp = []"
    | h p r where "node_connect_peer e (app_callbacks e) (dial h (of_int p)) n h (of_int p) = Some (r, n')"
        "connect_opens dial inp = dial_opens (dial h (of_int p))"
    using assms(2) by (auto simp: do_connect_peer_def connect_opens_def split: prod.splits option.splits)
  then show ?thesis
  proof cases
    case (2 h p r)
    from app_cb.connect_inv [OF assms(1) 2(1)] held_connect [OF assms(1) 2(1)] 2(2) show ?thesis by simp
  qed (use assms(1) in simp)
qed

lemma accept_step_inv:
  assumes "world_inv e n" "accept_step e (app_callbacks e) n a = Some n'"
  shows "world_inv e n' \<and> node_chain n' = node_chain n \<and> held n' = held n + mset (accept_opens a)
    \<and> gains n n' \<and> app n' = app n"
proof -
  obtain s h p where a: "a = (s, h, p)" by (cases a) auto
  consider "n' = n" "accept_opens a = []"
    | r where "add_peer e (app_callbacks e) n s h p = Some (r, n')" "accept_opens a = [s]"
    using assms(2) by (auto simp: a accept_step_def accept_opens_def split: if_splits)
  then show ?thesis
  proof cases
    case (2 r)
    from app_cb.add_peer_inv [OF assms(1) 2(1)] held_add_peer [OF assms(1) 2(1)] 2(2) show ?thesis by simp
  qed (use assms(1) in simp)
qed

text \<open>
  The reader thread that closes its connection moves the descriptor from the active peers to the closed;
  when the peer is not active any more, it closes it again.
\<close>

lemma held_disconnect:
  assumes "i < length (peers n)"
  shows "held (disconnect i n) = (if active (peers n ! i) then held n else add_mset (fd (peers n ! i)) (held n))"
proof -
  let ?ps = "peers n" and ?p = "peers n ! i"
  have "filter active (?ps[i := ?p\<lparr>active := False\<rparr>]) = filter active (take i ?ps) @ filter active (drop (Suc i) ?ps)"
    using assms(1) by (simp add: upd_conv_take_nth_drop)
  moreover have "filter active ?ps = filter active (take i ?ps) @ filter active [?p] @ filter active (drop (Suc i) ?ps)"
    by (subst id_take_nth_drop [OF assms(1)]) simp
  ultimately show ?thesis by (simp add: held_def disconnect_def)
qed

lemma disconnect_slots:
  assumes "slots_ok n w" "i < length (peers n)"
  shows "slots_ok (disconnect i n) (w - {i})"
  using assms set_update_subset_insert [of "peers n" i "(peers n ! i)\<lparr>active := False\<rparr>"]
  by (fastforce simp: slots_ok_def disconnect_def)

lemma peer_recv_inv:
  assumes "world_inv e n" "peer_recv e (app_callbacks e) i n s = Some (n', rest, cont)"
  shows "world_inv e n'" "grows (node_chain n) (node_chain n')" "quit_flag (app n') = quit_flag (app n)"
    "wallet (app n') = wallet (app n)" "same_sockets n n' \<or> i < length (peers n) \<and> n' = disconnect i n"
proof -
  obtain r rest' where r: "read_message (malloc e) s = (r, rest')" by fastforce
  have "world_inv e n' \<and> grows (node_chain n) (node_chain n') \<and> quit_flag (app n') = quit_flag (app n)
      \<and> wallet (app n') = wallet (app n) \<and> (same_sockets n n' \<or> i < length (peers n) \<and> n' = disconnect i n)"
  proof (cases r)
    case None
    with assms r show ?thesis
      by (auto simp: peer_recv_def arr_get_eq_Some_iff disconnect_def node_inv_def)
  next
    case (Some m)
    with assms(2) r have "handle_message e (app_callbacks e) n (fd (peers n ! i)) m = Some n'"
      by (auto simp: peer_recv_def arr_get_eq_Some_iff)
    from app_keep.handle_message_inv [OF _ read_message_no_NUL [OF r [unfolded Some]] this,
        of "quit_flag (app n)" "wallet (app n)"] assms(1)
    show ?thesis by (simp add: app_keep_inv)
  qed
  then show "world_inv e n'" "grows (node_chain n) (node_chain n')" "quit_flag (app n') = quit_flag (app n)"
    "wallet (app n') = wallet (app n)" "same_sockets n n' \<or> i < length (peers n) \<and> n' = disconnect i n"
    by simp_all
qed

text \<open>Steps of the main thread that leave the sockets alone.\<close>

lemma sys_inv_same:
  assumes "sys_inv e s" "world_inv e n" "same_sockets (world s) n" "pc_ok e p" "pc s \<noteq> Stopped" "p \<noteq> Stopped"
  shows "sys_inv e (s\<lparr>world := n, pc := p\<rparr>)"
  using assms held_sockets [OF assms(3)] same_sockets_slots [OF assms(3)]
  by (simp add: sys_inv_def) (simp add: same_sockets_def)

lemma sys_inv_pc:
  assumes "sys_inv e s" "pc_ok e p" "pc s \<noteq> Stopped" "p \<noteq> Stopped"
  shows "sys_inv e (s\<lparr>pc := p\<rparr>)"
  using assms by (simp add: sys_inv_def)

lemma sys_inv_stop:
  assumes "sys_inv e s" "pc s \<noteq> Stopped"
  shows "sys_inv e (s\<lparr>world := main_stop (world s), pc := Stopped\<rparr>)"
  using assms main_stop_inv [of e "world s"] main_stop_sockets [of "world s" "waiting s"]
  by (simp add: sys_inv_def pc_ok_def)

lemma read_payment_no_NUL: "in_receiver (fst (read_payment inp)) = Some rcv \<Longrightarrow> CHR 0x00 \<notin> set rcv"
  by (auto simp: read_payment_def scan_s_def Let_def c_string_no_NUL split: prod.splits option.splits if_splits)

lemma main_start_sockets:
  assumes "main_start h cr gen can_write fs lr p = Some (Inr n)"
  shows "running n \<and> closed n = [] \<and> 0 \<le> server_fd n \<and> \<not> quit_flag (app n) \<and> peers n = []"
  using assms by (auto simp: main_start_def node_init_def Let_def split: prod.splits if_splits bind_splits)

lemma main_step_inv:
  assumes "main_step e cr ctime s s'" "sys_inv e s" "crypto_bounds cr"
  shows "sys_inv e s' \<and> grows (node_chain (world s)) (node_chain (world s'))"
proof -
  have inv: "world_inv e (world s)" using assms(2) by (simp add: sys_inv_def)
  note stop = sys_inv_stop [OF assms(2)] main_stop_inv [OF inv]
  from assms(1) show ?thesis
  proof (cases rule: main_step.cases)
    case leave
    with stop show ?thesis by simp
  next
    case (end_of_input inp)
    with stop show ?thesis by simp
  next
    case (quit c inp)
    with stop show ?thesis by simp
  next
    case (connect c inp dial inp' n)
    with assms(2) do_connect_peer_inv [of e "world s" dial inp inp' n] gains_slots [of "world s" n "waiting s"]
    show ?thesis by (simp add: sys_inv_def pc_ok_def gains_def arrived_def)
  next
    case (send_signed c inp payment inp' md t)
    have "\<forall>rcv. in_receiver payment = Some rcv \<longrightarrow> CHR 0x00 \<notin> set rcv"
      using read_payment_no_NUL [of inp] send_signed(5) by simp
    with send_signed send_prepare_ok [OF inv assms(3), of md payment t] have "tx_ok t" by simp
    with send_signed sys_inv_pc [OF assms(2), of "Queueing t"] show ?thesis by (simp add: pc_ok_def)
  next
    case (queue t)
    then have "tx_ok t" "world_inv e (world s)" using assms(2) by (simp_all add: sys_inv_def pc_ok_def)
    with mempool_push_inv [of e "world s" t] queue sys_inv_same [OF assms(2), of "mempool_push (world s) t"]
    show ?thesis by (simp add: same_node_sockets pc_ok_def) (simp add: same_node_def)
  next
    case (announce t)
    then have "world_inv e (world s)" using assms(2) by (simp add: sys_inv_def)
    with broadcast_tx_inv [of e "world s" t] announce sys_inv_same [OF assms(2), of "node_broadcast_tx e (world s) t"]
    show ?thesis by (simp add: same_node_sockets pc_ok_def) (simp add: same_node_def)
  next
    case (start_mining c inp now b)
    let ?tip = "last (blocks (node_chain (world s)))"
    have chain: "chain_inv (sha e) (node_chain (world s))" using inv by (simp add: node_inv_def)
    then have "cstr_fits HASH_HEX_LEN (hash ?tip)"
      by (simp add: chain_inv_def chain_shape_def block_shape_def)
    with start_mining mine_header_eq [OF chain] have "pc_ok e (Collecting b)"
      by (auto simp: pc_ok_def)
    with start_mining sys_inv_pc [OF assms(2), of "Collecting b"] show ?thesis by simp
  next
    case (collect b b' n)
    obtain i now q where b: "b = block_zero\<lparr>index := i, timestamp := now, prev_hash := q\<rparr>"
      "i64_ok now" "cstr_fits HASH_HEX_LEN q"
      using assms(2) collect(2) by (auto simp: sys_inv_def pc_ok_def)
    have app: "app_ok (app (world s))" "world_inv e (world s)"
      using assms(2) by (simp_all add: sys_inv_def node_inv_def)
    have n: "n = set_mempool (world s) []" "block_ok b'"
      using mine_collect_spec [OF app(1) b(2,3) collect(3) [unfolded b(1)]] by auto
    with collect world_inv_set_mempool [OF app(2)] sys_inv_same [OF assms(2), of n "Searching b'"] show ?thesis
      by (simp add: same_node_sockets pc_ok_def)
  next
    case (search b k b')
    then have "block_ok b" using assms(2) by (simp add: sys_inv_def pc_ok_def)
    with search mined_block_ok block_mine_sealed sys_inv_pc [OF assms(2), of "Publishing b'"] show ?thesis
      by (auto simp: pc_ok_def)
  next
    case (publish b n)
    then have "block_ok b" "world_inv e (world s)" using assms(2) by (simp_all add: sys_inv_def pc_ok_def)
    with publish mine_publish_inv [of e "world s" b n] sys_inv_same [OF assms(2), of n AtMenu] show ?thesis
      by (simp add: pc_ok_def)
  qed (use sys_inv_pc [OF assms(2)] in \<open>simp_all add: pc_ok_def\<close>)
qed

lemma net_step_inv:
  assumes "net_step e s s'" "sys_inv e s"
  shows "sys_inv e s' \<and> grows (node_chain (world s)) (node_chain (world s'))"
  using assms(1)
proof (cases rule: net_step.cases)
  case (reader_waits i)
  with assms(2) show ?thesis by (simp add: sys_inv_def slots_ok_def arrived_def)
next
  case (reader_receives i n rest cont)
  have inv: "world_inv e (world s)" "slots_ok (world s) (waiting s)" using assms(2) by (simp_all add: sys_inv_def)
  note recv = peer_recv_inv [OF inv(1) reader_receives(3)]
  have i: "i < length (peers (world s))" "running (world s) \<longrightarrow> active (peers (world s) ! i)"
    using inv(2) reader_receives(2) by (auto simp: slots_ok_def)
  from recv(5) show ?thesis
  proof
    assume same: "same_sockets (world s) n"
    then have "slots_ok n (waiting s - {i})"
      using inv(2) by (auto simp: slots_ok_def same_sockets_def)
    with held_sockets [OF same] same recv(1,2,4) reader_receives(1) assms(2) show ?thesis
      by (simp add: sys_inv_def arrived_def) (simp add: same_sockets_def)
  next
    assume "i < length (peers (world s)) \<and> n = disconnect i (world s)"
    then have n: "n = disconnect i (world s)" by simp
    have "running n = running (world s)" "server_fd n = server_fd (world s)" by (simp_all add: n disconnect_def)
    moreover have "mset (opened s) \<subseteq># held n + arrived s" if "mset (opened s) \<subseteq># held (world s) + arrived s"
      using that by (simp add: n held_disconnect [OF i(1)] subset_mset.trans)
    moreover have "held n = held (world s)" if "running (world s)"
      using that i(2) by (simp add: n held_disconnect [OF i(1)])
    moreover have "slots_ok n (waiting s - {i})" unfolding n by (rule disconnect_slots [OF inv(2) i(1)])
    ultimately show ?thesis
      using recv(1,2,4) reader_receives(1) assms(2) by (simp add: sys_inv_def arrived_def)
  qed
next
  case (peer_arrives a)
  with assms(2) show ?thesis by (auto simp: sys_inv_def arrived_def)
next
  case (peer_enters a n)
  have inv: "world_inv e (world s)" "slots_ok (world s) (waiting s)" using assms(2) by (simp_all add: sys_inv_def)
  note acc = accept_step_inv [OF inv(1) peer_enters(3)]
  with peer_enters(1,2) gains_slots [OF _ inv(2), of n] assms(2) show ?thesis
    by (simp add: sys_inv_def arrived_def gains_def add.assoc)
qed

lemma sigint_inv:
  "world_inv e (sigint_handler n) \<longleftrightarrow> world_inv e n" "held (sigint_handler n) = held n"
  "node_chain (sigint_handler n) = node_chain n" "server_fd (sigint_handler n) = server_fd n"
  "running (sigint_handler n) = running n" "peers (sigint_handler n) = peers n"
  "wallet (app (sigint_handler n)) = wallet (app n)"
  "slots_ok (sigint_handler n) w = slots_ok n w"
  by (simp_all add: sigint_handler_def node_inv_def app_ok_def held_def slots_ok_def)

lemma sys_step_inv:
  assumes "sys_step e cr ctime s s'" "sys_inv e s" "crypto_bounds cr"
  shows "sys_inv e s' \<and> grows (node_chain (world s)) (node_chain (world s'))"
  using assms(1)
proof (cases rule: sys_step.cases)
  case main
  with main_step_inv assms(2,3) show ?thesis by blast
next
  case net
  with net_step_inv assms(2) show ?thesis by blast
next
  case interrupt
  with assms(2) show ?thesis by (simp add: sys_inv_def sigint_inv)
qed

lemma sys_steps_inv:
  assumes "(sys_step e cr ctime)\<^sup>*\<^sup>* s s'" "sys_inv e s" "crypto_bounds cr"
  shows "sys_inv e s' \<and> grows (node_chain (world s)) (node_chain (world s'))"
  using assms(1)
proof (induction rule: rtranclp_induct)
  case base
  with assms(2) show ?case by simp
next
  case (step y z)
  with sys_step_inv [OF step.hyps(2) _ assms(3)] show ?case by (blast intro: grows_trans)
qed

lemma boot_inv:
  assumes "main_start (sha e) cr gen can_write fs lr p = Some (Inr n)" "crypto_bounds cr"
  shows "sys_inv e (boot n inp bytes)"
  using main_start_inv [OF assms] main_start_sockets [OF assms(1)]
  by (simp add: sys_inv_def boot_def pc_ok_def held_def slots_ok_def arrived_def)

section \<open>The menu loop as a run of the system\<close>

lemma send_path:
  assumes "pc s = Prompt" "scan_s 15 (typed s) = (Some c, inp)" "menu_choice c = Send"
    "read_payment inp = (payment, inp')" "do_send e cr md payment (world s) = Some n"
  shows "(main_step e cr ctime)\<^sup>*\<^sup>* s (s\<lparr>world := n, pc := AtMenu, typed := inp'\<rparr>)"
proof -
  obtain r where r: "send_prepare e cr md payment (world s) = Some r"
    and n: "n = (case r of None \<Rightarrow> world s | Some t \<Rightarrow> node_broadcast_tx e (mempool_push (world s) t) t)"
    using assms(5) by (auto simp: do_send_stages)
  show ?thesis
  proof (cases r)
    case None
    with send_refused [OF assms(1-4) r [unfolded None]] n show ?thesis by auto
  next
    case (Some t)
    let ?q = "s\<lparr>pc := Queueing t, typed := inp'\<rparr>"
    let ?a = "?q\<lparr>world := mempool_push (world ?q) t, pc := Announcing t\<rparr>"
    have "main_step e cr ctime s ?q" by (rule send_signed [OF assms(1-4) r [unfolded Some]])
    moreover have "main_step e cr ctime ?q ?a" by (rule queue) simp
    moreover have "main_step e cr ctime ?a (?a\<lparr>world := node_broadcast_tx e (world ?a) t, pc := AtMenu\<rparr>)"
      by (rule announce) simp
    ultimately have "(main_step e cr ctime)\<^sup>*\<^sup>* s (?a\<lparr>world := node_broadcast_tx e (world ?a) t, pc := AtMenu\<rparr>)"
      by (meson converse_rtranclp_into_rtranclp rtranclp.rtrancl_refl)
    with n Some show ?thesis by (cases s) simp
  qed
qed

lemma mine_path:
  assumes "pc s = Prompt" "scan_s 15 (typed s) = (Some c, inp)" "menu_choice c = Mine" "i64_ok now"
    "do_mine e now (world s) = Some n"
  shows "(main_step e cr ctime)\<^sup>*\<^sup>* s (s\<lparr>world := n, pc := AtMenu, typed := inp\<rparr>)"
proof -
  obtain h b n1 k b' where m: "mine_header now (world s) = Some h" "mine_collect e h (world s) = Some (b, n1)"
    "block_mine (sha e) b = Some (k, b')" "mine_publish e b' n1 = Some n"
    using assms(5) by (auto simp: do_mine_def)
  let ?c = "s\<lparr>pc := Collecting h, typed := inp\<rparr>"
  let ?s = "?c\<lparr>world := n1, pc := Searching b\<rparr>"
  let ?p = "?s\<lparr>pc := Publishing b'\<rparr>"
  have "main_step e cr ctime s ?c" by (rule start_mining [OF assms(1-4) m(1)])
  moreover have "main_step e cr ctime ?c ?s" by (rule collect [where b = h]) (simp_all add: m)
  moreover have "main_step e cr ctime ?s ?p" by (rule search [where b = b and k = k]) (simp_all add: m)
  moreover have "main_step e cr ctime ?p (?p\<lparr>world := n, pc := AtMenu\<rparr>)" by (rule publish [where b = b']) (simp_all add: m)
  ultimately have "(main_step e cr ctime)\<^sup>*\<^sup>* s (?p\<lparr>world := n, pc := AtMenu\<rparr>)"
    by (meson converse_rtranclp_into_rtranclp rtranclp.rtrancl_refl)
  then show ?thesis by (cases s) simp
qed

text \<open>One turn of the loop; a turn that ends the loop is followed by the end of \<open>main\<close>.\<close>

lemma turn_path:
  assumes "main_turn e cr ctime w (typed s) (world s) = Some (continue, inp, n)" "pc s = AtMenu" "\<not> flag s"
    "i64_ok (clock w)"
  shows "\<exists>fds. (main_step e cr ctime)\<^sup>*\<^sup>* s
    (s\<lparr>world := if continue then n else main_stop n, pc := if continue then AtMenu else Stopped, typed := inp,
       opened := opened s @ fds\<rparr>)"
proof -
  let ?s = "s\<lparr>pc := Prompt\<rparr>"
  let ?fin = "\<lambda>fds. s\<lparr>world := if continue then n else main_stop n, pc := if continue then AtMenu else Stopped,
    typed := inp, opened := opened s @ fds\<rparr>"
  obtain m where "print_menu (world s) = Some m" using assms(1) by (auto simp: main_turn_def)
  then have first: "main_step e cr ctime s ?s" using show_menu [OF assms(2,3)] by blast
  have at: "pc ?s = Prompt" "typed ?s = typed s" "world ?s = world s" by simp_all
  have "\<exists>fds. (main_step e cr ctime)\<^sup>*\<^sup>* ?s (?fin fds)"
  proof (cases "scan_s 15 (typed s)")
    case (Pair r inp1)
    show ?thesis
    proof (cases r)
      case None
      with assms(1) Pair have "\<not> continue" "inp = inp1" "n = world s" by (auto simp: main_turn_def)
      with end_of_input [OF at(1), of inp1] Pair None show ?thesis
        by (intro exI [of _ "[]"]) (auto intro!: r_into_rtranclp)
    next
      case (Some c)
      note sc = Pair [unfolded Some, folded at(2)]
      consider (page) "page_choice (menu_choice c)" "continue" "inp = inp1" "n = world s"
          "\<exists>m. page ctime (menu_choice c) (world s) = Some m"
        | (mine) "menu_choice c = Mine" "continue" "inp = inp1" "do_mine e (clock w) (world s) = Some n"
        | (send) payment where "menu_choice c = Send" "continue" "read_payment inp1 = (payment, inp)"
            "do_send e cr (sign_ctx w) payment (world s) = Some n"
        | (connect) "menu_choice c = ConnectPeer" "continue" "do_connect_peer e (dialled w) inp1 (world s) = Some (inp, n)"
        | (quit) "menu_choice c = Quit" "\<not> continue" "inp = inp1" "n = world s"
        using assms(1) Pair Some
        by (cases "menu_choice c") (auto simp: main_turn_def page_choice_def split: prod.splits)
      then show ?thesis
      proof cases
        case page
        then obtain m where "page ctime (menu_choice c) (world ?s) = Some m" by auto
        from look [OF at(1) sc page(1) this] page show ?thesis
          by (intro exI [of _ "[]"]) (auto intro!: r_into_rtranclp)
      next
        case mine
        from mine_path [OF at(1) sc mine(1) assms(4)] mine show ?thesis
          by (intro exI [of _ "[]"]) simp
      next
        case send
        from send_path [OF at(1) sc send(1,3)] send show ?thesis
          by (intro exI [of _ "[]"]) simp
      next
        case connect
        from main_step.connect [OF at(1) sc connect(1)] connect show ?thesis
          by (intro exI [of _ "connect_opens (dialled w) inp1"]) (auto intro!: r_into_rtranclp)
      next
        case quit
        from main_step.quit [OF at(1) sc quit(1)] quit show ?thesis
          by (intro exI [of _ "[]"]) (auto intro!: r_into_rtranclp)
      qed
    qed
  qed
  with first show ?thesis by (blast intro: converse_rtranclp_into_rtranclp)
qed

lemma loop_path:
  assumes "main_loop e cr ctime ws k (typed s) (world s) = Some (inp, n)" "pc s = AtMenu"
    "\<forall>k. i64_ok (clock (ws k))"
  shows "\<exists>fds. (main_step e cr ctime)\<^sup>*\<^sup>* s
    (s\<lparr>world := main_stop n, pc := Stopped, typed := inp, opened := opened s @ fds\<rparr>)"
  using assms(1,2)
proof (induction "length (typed s)" arbitrary: s k rule: less_induct)
  case less
  note loop = less.prems(1) [unfolded main_loop.simps [of e cr ctime ws k "typed s"]]
  show ?case
  proof (cases "flag s")
    case True
    with loop have "n = world s" "inp = typed s" by simp_all
    with leave [OF less.prems(2) True, of e cr ctime] show ?thesis
      by (intro exI [of _ "[]"]) (cases s, auto intro!: r_into_rtranclp)
  next
    case False
    with loop obtain continue inp1 n1 where t: "main_turn e cr ctime (ws k) (typed s) (world s) = Some (continue, inp1, n1)"
      and rest: "if continue then main_loop e cr ctime ws (Suc k) inp1 n1 = Some (inp, n) else (inp1, n1) = (inp, n)"
      by (auto split: if_splits)
    obtain fds where path: "(main_step e cr ctime)\<^sup>*\<^sup>* s
        (s\<lparr>world := if continue then n1 else main_stop n1, pc := if continue then AtMenu else Stopped, typed := inp1,
           opened := opened s @ fds\<rparr>)"
      using turn_path [OF t less.prems(2) False] assms(3) by blast
    show ?thesis
    proof (cases continue)
      case False
      with path rest show ?thesis by auto
    next
      case True
      let ?s = "s\<lparr>world := n1, pc := AtMenu, typed := inp1, opened := opened s @ fds\<rparr>"
      have "length (typed ?s) < length (typed s)" using main_turn_consumes [of e cr ctime "ws k"] t True by simp
      from less.hyps [OF this, of "Suc k"] rest True obtain fds' where
        "(main_step e cr ctime)\<^sup>*\<^sup>* ?s (?s\<lparr>world := main_stop n, pc := Stopped, typed := inp, opened := opened ?s @ fds'\<rparr>)"
        by auto
      with path True have "(main_step e cr ctime)\<^sup>*\<^sup>* s
          (?s\<lparr>world := main_stop n, pc := Stopped, typed := inp, opened := opened ?s @ fds'\<rparr>)" by simp
      then show ?thesis by (intro exI [of _ "fds @ fds'"]) (cases s, simp)
    qed
  qed
qed

lemma main_steps_sys: "(main_step e cr ctime)\<^sup>*\<^sup>* s s' \<Longrightarrow> (sys_step e cr ctime)\<^sup>*\<^sup>* s s'"
  by (induction rule: rtranclp_induct) (auto intro: rtranclp.rtrancl_into_rtrancl sys_step.main)

section \<open>The fresh program\<close>

text \<open>After the start the chain is the genesis block, which has no transactions.\<close>

lemma main_start_chain:
  assumes "main_start h cr gen can_write fs lr p = Some (Inr n)"
  shows "\<exists>g. node_chain n = \<lparr>blocks = [g]\<rparr> \<and> tx_count g = 0"
proof -
  obtain c where c: "chain_init h = Some c" "node_chain n = c"
    using assms by (auto simp: main_start_def node_init_def Let_def split: prod.splits if_splits bind_splits)
  then obtain g where g: "block_create_genesis h = Some g" "c = \<lparr>blocks = [g]\<rparr>"
    by (auto simp: chain_init_def)
  with c genesis_sealed [OF g(1)] show ?thesis by auto
qed

lemma fresh_balance:
  assumes "main_start h cr gen can_write fs lr p = Some (Inr n)"
  shows "chain_get_balance (node_chain n) a = Some 0" "counted (node_chain n)"
  using main_start_chain [OF assms]
  by (auto simp: chain_get_balance_def balance_block.simps counted_def)

lemma fresh_menu:
  assumes "main_start h cr gen can_write fs lr p = Some (Inr n)"
  shows "\<exists>m. print_menu n = Some m"
  by (simp add: print_menu_def fresh_balance [OF assms])

text \<open>A program that has started, for the examples.\<close>

definition demo_keygen :: "u8 keygen" where
  "demo_keygen = \<lparr>ctx_new = True, keygen_init = True, keygen_key = Some 9\<rparr>"

definition demo_listen :: listen_result where
  "demo_listen = \<lparr>listen_fd = 3, bind_rc = 0, listen_rc = 0\<rparr>"

definition demo_start :: "u8 world \<Rightarrow> bool" where
  "demo_start n \<longleftrightarrow> main_start (sha demo_env) demo_crypto demo_keygen (\<lambda>_. True) (\<lambda>_. None) demo_listen DEFAULT_PORT = Some (Inr n)"

lemma demo_crypto_bounds: "crypto_bounds demo_crypto"
  by (auto simp: crypto_bounds_def demo_crypto_def)

lemma demo_starts: obtains n where "demo_start n"
proof -
  obtain c where c: "chain_init zero_sha = Some c"
    using block_mine_returns [OF genesis_template_ok zero_sha_pow]
    by (auto simp: chain_init_def block_create_genesis_def)
  obtain w fs' where "open_wallet demo_crypto demo_keygen (\<lambda>_. True) (\<lambda>_. None) = (0, w, fs')"
    by (simp add: open_wallet_def wallet_load_def wallet_create_def extract_address_def wallet_save_def
        demo_crypto_def demo_keygen_def wallet_zero_def Let_def)
  with c that show thesis
    by (simp add: demo_start_def main_start_def node_init_def demo_listen_def)
qed

end
