(* ===== verification/Progress.thy ===== *)
theory Progress
  imports System
begin

text \<open>
  What the threads of \<open>System\<close> can always do. After an interrupt the main thread has a bounded number of
  steps left; it has a next step in every state that is fit to run; and the threads of the network have
  one whenever the messages to come keep their transaction counts within the array. At the end: what
  the other threads do once the main thread has stopped.
\<close>

section \<open>After an interrupt\<close>

text \<open>Nobody but the signal handler changes the quit flag.\<close>

lemma main_step_flag:
  assumes "main_step e cr ctime s s'" "sys_inv e s"
  shows "flag s' = flag s"
  using assms(1)
proof (cases rule: main_step.cases)
  case (connect c inp dial inp' n)
  note keep = app_keep.connect_inv [of e "quit_flag (app (world s))" "wallet (app (world s))" "world s"]
  from connect assms(2) keep show ?thesis
    by (auto simp: do_connect_peer_def app_keep_inv sys_inv_def split: prod.splits option.splits)
next
  case (announce t)
  obtain fds where "only_sends (world s) fds (node_broadcast_tx e (world s) t)"
    using only_sends_broadcast_tx by blast
  with announce show ?thesis by (simp add: only_sendsD)
next
  case (collect b b' n)
  then show ?thesis by (auto simp: mine_collect_def set_mempool_def Let_def)
next
  case (publish b n)
  with mine_publish_inv [of e "world s" b n] assms(2) show ?thesis by (simp add: sys_inv_def pc_ok_def)
qed (simp_all add: main_stop_def node_stop_def Let_def mempool_push_def set_mempool_def)

lemma net_step_flag:
  assumes "net_step e s s'" "sys_inv e s"
  shows "flag s' = flag s \<and> pc s' = pc s"
  using assms(1)
proof (cases rule: net_step.cases)
  case (reader_receives i n rest cont)
  with peer_recv_inv(3) [of e "world s" i "incoming s i" n rest cont] assms(2) show ?thesis
    by (simp add: sys_inv_def)
next
  case (peer_enters a n)
  with accept_step_inv [of e "world s" a n] assms(2) show ?thesis by (simp add: sys_inv_def)
qed simp_all

text \<open>The sections that the main thread still runs, at most, when the quit flag is set.\<close>

fun sections_left :: "main_pc \<Rightarrow> nat" where
  "sections_left Stopped = 0"
| "sections_left AtMenu = 1"
| "sections_left (Announcing t) = 2"
| "sections_left (Queueing t) = 3"
| "sections_left (Publishing b) = 2"
| "sections_left (Searching b) = 3"
| "sections_left (Collecting b) = 4"
| "sections_left Prompt = 5"

lemma main_step_decreases:
  assumes "main_step e cr ctime s s'" "flag s"
  shows "sections_left (pc s') < sections_left (pc s)"
  using assms by (cases rule: main_step.cases) auto

text \<open>\<open>run k s s'\<close>: a run of the program in which the main thread makes \<open>k\<close> steps.\<close>

inductive run :: "env \<Rightarrow> 'k crypto \<Rightarrow> (int \<Rightarrow> string option) \<Rightarrow> nat \<Rightarrow> 'k system \<Rightarrow> 'k system \<Rightarrow> bool"
  for e :: env and cr :: "'k crypto" and ctime :: "int \<Rightarrow> string option" where
  start: "run e cr ctime 0 s s"
| own: "run e cr ctime k s s' \<Longrightarrow> main_step e cr ctime s' s'' \<Longrightarrow> run e cr ctime (Suc k) s s''"
| other: "run e cr ctime k s s' \<Longrightarrow> net_step e s' s'' \<Longrightarrow> run e cr ctime k s s''"
| signal: "run e cr ctime k s s' \<Longrightarrow> run e cr ctime k s (s'\<lparr>world := sigint_handler (world s')\<rparr>)"

lemma run_steps: "run e cr ctime k s s' \<Longrightarrow> (sys_step e cr ctime)\<^sup>*\<^sup>* s s'"
proof (induction rule: run.induct)
  case (own k s s' s'')
  then show ?case by (meson sys_step.main rtranclp.rtrancl_into_rtrancl)
next
  case (other k s s' s'')
  then show ?case by (meson sys_step.net rtranclp.rtrancl_into_rtrancl)
next
  case (signal k s s')
  show ?case by (rule rtranclp.rtrancl_into_rtrancl [OF signal.IH sys_step.interrupt])
qed simp

lemma run_flag:
  assumes "run e cr ctime k s s'" "sys_inv e s" "crypto_bounds cr" "flag s"
  shows "flag s' \<and> k + sections_left (pc s') \<le> sections_left (pc s)"
  using assms(1,2,4)
proof (induction rule: run.induct)
  case (own k s s' s'')
  have inv: "sys_inv e s'" using sys_steps_inv [OF run_steps [OF own.hyps(1)] own.prems(1) assms(3)] by simp
  from own.IH [OF own.prems] main_step_flag [OF own.hyps(2) inv] main_step_decreases [OF own.hyps(2)]
  show ?case by auto
next
  case (other k s s' s'')
  have inv: "sys_inv e s'" using sys_steps_inv [OF run_steps [OF other.hyps(1)] other.prems(1) assms(3)] by simp
  from other.IH [OF other.prems] net_step_flag [OF other.hyps(2) inv] show ?case by simp
qed (simp_all add: sigint_handler_def)

section \<open>The main thread is never stuck\<close>

text \<open>What the next section of the main thread needs in order to be defined.\<close>

definition fit_to_run :: "env \<Rightarrow> (int \<Rightarrow> string option) \<Rightarrow> 'k system \<Rightarrow> bool" where
  "fit_to_run e ctime s \<longleftrightarrow> reliable e \<and> (\<forall>t. ctime t \<noteq> None) \<and> (\<forall>b. block_ok b \<longrightarrow> (\<exists>k. pow_nonce (sha e) b k))
     \<and> counted (node_chain (world s)) \<and> (\<forall>a. chain_get_balance (node_chain (world s)) a \<noteq> None)"

lemma mine_publish_defined:
  assumes "world_inv e n" "block_ok b"
  shows "\<exists>n'. mine_publish e b n = Some n'"
proof -
  have "blocks (node_chain n) \<noteq> []" "tx_count b \<le> 10" "block_shape b"
    using assms by (simp_all add: node_inv_def chain_inv_def block_ok_def block_consts)
  then have "chain_add_block (sha e) (node_chain n) b \<noteq> None"
    by (simp add: chain_add_block_eq)
  then obtain r c where c: "chain_add_block (sha e) (node_chain n) b = Some (r, c)" by auto
  obtain n' where "node_broadcast_block e (n\<lparr>node_chain := c\<rparr>) b = Some n'"
    unfolding node_broadcast_block_def using broadcast_block_defined [OF assms(2)] by blast
  with c show ?thesis by (cases "r = 0") (simp_all add: mine_publish_def)
qed

lemma node_connect_peer_defined:
  "reliable e \<Longrightarrow> \<exists>r. node_connect_peer e cb dr n h p = Some r"
  by (auto simp: node_connect_peer_def add_peer_def Let_def reliable_def alloc_ok_def)

lemma do_connect_peer_defined:
  assumes "reliable e"
  shows "\<exists>r. do_connect_peer e dial inp n = Some r"
  using node_connect_peer_defined [OF assms]
  by (fastforce simp: do_connect_peer_def split: prod.split option.split)

lemma send_prepare_defined:
  assumes "chain_get_balance (node_chain n) (address (wallet (app n))) \<noteq> None"
  shows "\<exists>r. send_prepare e cr md inp n = Some r"
  using assms by (auto simp: send_prepare_def Let_def split: option.split prod.split)

lemma page_defined:
  assumes "chain_shape (node_chain n)" "counted (node_chain n)" "\<forall>t. ctime t \<noteq> None"
    "chain_get_balance (node_chain n) (address (wallet (app n))) \<noteq> None"
  shows "\<exists>m. page ctime c n = Some m"
  using chain_print_defined [OF assms(1), of ctime] assms(2-4)
  by (cases c) (auto simp: page_def do_wallet_info_def counted_def)

lemma prompt_enabled:
  assumes "sys_inv e s" "fit_to_run e ctime s" "pc s = Prompt"
  shows "\<exists>s'. main_step e cr ctime s s'"
proof (cases "fst (scan_s 15 (typed s))")
  case None
  then show ?thesis using end_of_input [OF assms(3)] by (metis prod.collapse)
next
  case (Some c)
  then obtain inp where c: "scan_s 15 (typed s) = (Some c, inp)" by (metis prod.collapse)
  let ?n = "world s"
  have inv: "chain_inv (sha e) (node_chain ?n)" using assms(1) by (simp add: sys_inv_def node_inv_def)
  have bal: "chain_get_balance (node_chain ?n) (address (wallet (app ?n))) \<noteq> None"
    using assms(2) unfolding fit_to_run_def by blast
  consider "menu_choice c = Mine" | "menu_choice c = Send" | "menu_choice c = ConnectPeer" | "menu_choice c = Quit"
    | "page_choice (menu_choice c)"
    by (cases "menu_choice c") (simp_all add: page_choice_def)
  then show ?thesis
  proof cases
    case 1
    show ?thesis
      using start_mining [OF assms(3) c 1 _ mine_header_eq [OF inv], of 0] by (auto simp: i64_ok_def)
  next
    case 2
    obtain payment inp' where p: "read_payment inp = (payment, inp')" by fastforce
    obtain r where "send_prepare e cr True payment ?n = Some r" using send_prepare_defined [OF bal] by blast
    with send_refused [OF assms(3) c 2 p] send_signed [OF assms(3) c 2 p] show ?thesis
      by (cases r) blast+
  next
    case 3
    let ?dial = "\<lambda>_ _. \<lparr>resolve_rc = 1, dial_fd = 0, connect_rc = 0\<rparr>"
    have "reliable e" using assms(2) by (simp add: fit_to_run_def)
    then obtain inp' n where "do_connect_peer e ?dial inp ?n = Some (inp', n)"
      using do_connect_peer_defined [of e ?dial inp ?n] by auto
    from connect [OF assms(3) c 3 this] show ?thesis by blast
  next
    case 4
    from quit [OF assms(3) c 4] show ?thesis by blast
  next
    case 5
    have "\<exists>m. page ctime (menu_choice c) ?n = Some m"
      using inv assms(2) bal by (intro page_defined) (simp_all add: chain_inv_def fit_to_run_def)
    with look [OF assms(3) c 5] show ?thesis by blast
  qed
qed

lemma main_step_enabled:
  assumes "sys_inv e s" "fit_to_run e ctime s" "pc s \<noteq> Stopped"
  shows "\<exists>s'. main_step e cr ctime s s'"
proof (cases "pc s")
  case AtMenu
  have "chain_get_balance (node_chain (world s)) (address (wallet (app (world s)))) \<noteq> None"
    using assms(2) unfolding fit_to_run_def by blast
  then obtain m where "print_menu (world s) = Some m" by (auto simp: print_menu_def)
  with leave [OF AtMenu] show_menu [OF AtMenu] show ?thesis by blast
next
  case (Collecting b)
  obtain i now q where b: "b = block_zero\<lparr>index := i, timestamp := now, prev_hash := q\<rparr>"
    "i64_ok now" "cstr_fits HASH_HEX_LEN q"
    using assms(1) Collecting by (auto simp: sys_inv_def pc_ok_def)
  have app: "app_ok (app (world s))" using assms(1) by (simp add: sys_inv_def node_inv_def)
  have "\<forall>t \<in> set (mempool (app (world s))). \<exists>v. chain_get_balance (node_chain (world s)) (sender t) = Some v"
    using assms(2) by (auto simp: fit_to_run_def)
  then obtain b' n where "mine_collect e b (world s) = Some (b', n)"
    using mine_collect_defined [OF app b(2,3), of e i] b(1) by auto
  from collect [OF Collecting this] show ?thesis by blast
next
  case (Searching b)
  have "block_ok b" using assms(1) Searching by (simp add: sys_inv_def pc_ok_def)
  moreover from this obtain k where "pow_nonce (sha e) b k" using assms(2) unfolding fit_to_run_def by blast
  ultimately obtain k b' where "block_mine (sha e) b = Some (k, b')" using block_mine_returns by fastforce
  from search [OF Searching this] show ?thesis by blast
next
  case (Publishing b)
  then have "world_inv e (world s)" "block_ok b" using assms(1) by (simp_all add: sys_inv_def pc_ok_def)
  with publish [OF Publishing] mine_publish_defined show ?thesis by blast
qed (use assms queue announce prompt_enabled in \<open>blast+\<close>)

section \<open>Streams whose counts stay within the array\<close>

text \<open>Every message that is still to come keeps its transaction counts within the array.\<close>

definition counted_bytes :: "env \<Rightarrow> (nat \<Rightarrow> string) \<Rightarrow> bool" where
  "counted_bytes e bytes \<longleftrightarrow> (\<forall>i. \<forall>m \<in> set (frames (bytes i)). counts_ok (malloc e) m)"

lemma mine_publish_chain:
  assumes "world_inv e n" "block_ok b" "mine_publish e b n = Some n'"
  shows "hd (blocks (node_chain n')) = hd (blocks (node_chain n))"
proof -
  obtain r c where c: "chain_add_block (sha e) (node_chain n) b = Some (r, c)"
    using assms(3) by (auto simp: mine_publish_def)
  have ne: "blocks (node_chain n) \<noteq> []" using assms(1) by (simp add: node_inv_def chain_inv_def)
  have hd: "hd (blocks c) = hd (blocks (node_chain n))"
    by (rule chain_add_block_cases [OF c ne block_okD(1) [OF assms(2)]]) (simp_all add: ne)
  show ?thesis
  proof (cases "r = 0")
    case True
    then have "broadcast_block_except e (n\<lparr>node_chain := c\<rparr>) b (- 1) = Some n'"
      using assms(3) c by (simp add: mine_publish_def node_broadcast_block_def)
    from broadcast_excludes [OF this] hd show ?thesis by (auto simp: only_sendsD)
  qed (use assms(3) c in \<open>simp add: mine_publish_def\<close>)
qed

lemma main_step_counted:
  assumes "main_step e cr ctime s s'" "sys_inv e s" "sys_inv e s'" "counted (node_chain (world s))"
  shows "counted (node_chain (world s')) \<and> incoming s' = incoming s"
  using assms(1)
proof (cases rule: main_step.cases)
  case (connect c inp dial inp' n)
  with do_connect_peer_inv [of e "world s" dial inp inp' n] assms(2,4) show ?thesis by (simp add: sys_inv_def)
next
  case (announce t)
  with broadcast_tx_inv [of e "world s" t] assms(2,4) show ?thesis by (simp add: sys_inv_def same_node_def)
next
  case (collect b b' n)
  with assms(4) show ?thesis by (auto simp: mine_collect_def Let_def)
next
  case (publish b n)
  then have hd: "hd (blocks (node_chain n)) = hd (blocks (node_chain (world s)))"
    using assms(2) by (intro mine_publish_chain [of e]) (simp_all add: sys_inv_def pc_ok_def)
  have inv: "chain_inv (sha e) (node_chain n)" "chain_inv (sha e) (node_chain (world s))"
    using publish(1) assms(2,3) by (simp_all add: sys_inv_def node_inv_def)
  then have "hd (blocks (node_chain (world s))) \<in> set (blocks (node_chain (world s)))"
    by (simp add: chain_inv_def)
  then have "tx_count (hd (blocks (node_chain n))) \<le> 10" using assms(4) hd by (simp add: counted_def)
  with chain_inv_counted [OF inv(1)] publish(1) show ?thesis by simp
qed (use assms(2,4) main_stop_inv [of e "world s"] mempool_push_same [of "world s"] in
    \<open>simp_all add: sys_inv_def same_node_def\<close>)

lemma net_step_counted:
  assumes "net_step e s s'" "sys_inv e s" "counted (node_chain (world s))" "counted_bytes e (incoming s)"
  shows "counted (node_chain (world s')) \<and> counted_bytes e (incoming s')"
  using assms(1)
proof (cases rule: net_step.cases)
  case (reader_receives i n rest cont)
  let ?n = "world s" and ?s = "incoming s i"
  have inv: "world_inv e ?n" using assms(2) by (simp add: sys_inv_def)
  have "counted (node_chain n) \<and> set (frames rest) \<subseteq> set (frames ?s)"
  proof (cases "read_message (malloc e) ?s")
    case (Pair r rest')
    show ?thesis
    proof (cases r)
      case None
      with Pair reader_receives(3) assms(3) show ?thesis
        by (auto simp: peer_recv_def read_message_eq disconnect_def split: if_splits option.splits)
    next
      case (Some m)
      with Pair have f: "next_frame ?s = Some (m, rest')"
        by (auto simp: read_message_eq split: if_splits option.splits)
      then have fr: "frames ?s = m # frames rest'" by (simp add: frames.simps [of ?s])
      then have "counts_ok (malloc e) m" using assms(4) by (auto simp: counted_bytes_def dest: spec [of _ i])
      then obtain n1 where n1: "handle_message e (app_callbacks e) ?n (fd (peers ?n ! i)) m = Some n1" "counted (node_chain n1)"
        using app_cb.handle_message_defined [OF inv next_frame_no_NUL [OF f] assms(3)] by blast
      with reader_receives(3) Pair Some have "n = n1" "rest = rest'"
        by (auto simp: peer_recv_def arr_get_eq_Some_iff)
      with n1(2) fr show ?thesis by auto
    qed
  qed
  with reader_receives(1) assms(4) show ?thesis by (auto simp: counted_bytes_def)
next
  case (peer_enters a n)
  with accept_step_inv [of e "world s" a n] assms(2-4) show ?thesis by (simp add: sys_inv_def)
qed (use assms(3,4) in simp_all)

lemma sys_steps_counted:
  assumes "(sys_step e cr ctime)\<^sup>*\<^sup>* s s'" "sys_inv e s" "crypto_bounds cr" "counted (node_chain (world s))"
    "counted_bytes e (incoming s)"
  shows "counted (node_chain (world s')) \<and> counted_bytes e (incoming s')"
  using assms(1)
proof (induction rule: rtranclp_induct)
  case (step y z)
  have y: "sys_inv e y" "sys_inv e z"
    using sys_steps_inv [OF step.hyps(1) assms(2,3)] sys_step_inv [OF step.hyps(2) _ assms(3)] by simp_all
  from step.hyps(2) show ?case
  proof (cases rule: sys_step.cases)
    case main
    with main_step_counted [OF main y] step.IH show ?thesis by simp
  next
    case net
    with net_step_counted [OF net y(1)] step.IH show ?thesis by simp
  next
    case interrupt
    with step.IH show ?thesis by (simp add: sigint_inv)
  qed
qed (use assms(4,5) in simp)

lemma peer_recv_defined:
  assumes "world_inv e n" "counted (node_chain n)" "\<forall>m \<in> set (frames s). counts_ok (malloc e) m"
    "i < length (peers n)"
  shows "\<exists>r. peer_recv e (app_callbacks e) i n s = Some r"
proof (cases "read_message (malloc e) s")
  case (Pair r rest)
  show ?thesis
  proof (cases r)
    case None
    with Pair assms(4) show ?thesis by (auto simp: peer_recv_def)
  next
    case (Some m)
    with Pair have f: "next_frame s = Some (m, rest)"
      by (auto simp: read_message_eq split: if_splits option.splits)
    then have "counts_ok (malloc e) m" using assms(3) by (simp add: frames.simps [of s])
    then obtain n1 where "handle_message e (app_callbacks e) n (fd (peers n ! i)) m = Some n1"
      using app_cb.handle_message_defined [OF assms(1) next_frame_no_NUL [OF f] assms(2)] by blast
    with Pair Some assms(4) show ?thesis by (auto simp: peer_recv_def)
  qed
qed

lemma accept_step_defined: "reliable e \<Longrightarrow> \<exists>n'. accept_step e (app_callbacks e) n a = Some n'"
  by (cases a) (auto simp: accept_step_def add_peer_def Let_def reliable_def alloc_ok_def)

section \<open>After the end of the main thread\<close>

text \<open>
  \<open>quiet s\<close>: the node has stopped with every descriptor closed, and nobody can open one any more.
\<close>

definition quiet :: "'k system \<Rightarrow> bool" where
  "quiet s \<longleftrightarrow> pc s = Stopped \<and> \<not> running (world s) \<and> arriving s = None
     \<and> (\<forall>p \<in> set (peers (world s)). \<not> active p) \<and> mset (opened s) \<subseteq># mset (closed (world s))"

lemma main_step_not_stopped: "main_step e cr ctime s s' \<Longrightarrow> pc s \<noteq> Stopped"
  by (cases rule: main_step.cases) auto

lemma sigint_quiet [simp]: "quiet (s\<lparr>world := sigint_handler (world s)\<rparr>) = quiet s"
  by (simp add: quiet_def sigint_handler_def)

lemma net_step_quiet:
  assumes "net_step e s s'" "sys_inv e s" "quiet s"
  shows "quiet s' \<and> (waiting s = {} \<longrightarrow> s' = s)"
  using assms(1)
proof (cases rule: net_step.cases)
  case (reader_receives i n rest cont)
  have inv: "world_inv e (world s)" "i < length (peers (world s))"
    using assms(2) reader_receives(2) by (auto simp: sys_inv_def slots_ok_def)
  have "quiet s'"
    using peer_recv_inv(5) [OF inv(1) reader_receives(3)]
  proof
    assume "same_sockets (world s) n"
    with assms(3) reader_receives(1) show ?thesis by (simp add: quiet_def same_sockets_def)
  next
    assume "i < length (peers (world s)) \<and> n = disconnect i (world s)"
    then have n: "n = disconnect i (world s)" by simp
    have "\<forall>p \<in> set (peers n). \<not> active p"
      using assms(3) set_update_subset_insert [of "peers (world s)" i "(peers (world s) ! i)\<lparr>active := False\<rparr>"]
      by (auto simp: quiet_def n disconnect_def)
    moreover have "mset (closed (world s)) \<subseteq># mset (closed n)" by (simp add: n disconnect_def)
    moreover have "running n = running (world s)" by (simp add: n disconnect_def)
    ultimately show ?thesis
      using assms(3) reader_receives(1) subset_mset.order_trans by (auto simp: quiet_def)
  qed
  with reader_receives(2) show ?thesis by auto
qed (use assms(3) in \<open>simp_all add: quiet_def\<close>)

lemma sys_steps_quiet:
  assumes "(sys_step e cr ctime)\<^sup>*\<^sup>* s s'" "sys_inv e s" "crypto_bounds cr" "quiet s"
  shows "quiet s' \<and> (waiting s = {} \<longrightarrow> closed (world s') = closed (world s) \<and> opened s' = opened s \<and> waiting s' = {})"
  using assms(1)
proof (induction rule: rtranclp_induct)
  case (step y z)
  have y: "sys_inv e y" using sys_steps_inv [OF step.hyps(1) assms(2,3)] by simp
  from step.hyps(2) show ?case
  proof (cases rule: sys_step.cases)
    case main
    with main_step_not_stopped [OF main] step.IH show ?thesis by (simp add: quiet_def)
  next
    case net
    with net_step_quiet [OF net y] step.IH show ?thesis by auto
  next
    case interrupt
    with step.IH show ?thesis by (simp add: sigint_handler_def quiet_def)
  qed
qed (use assms(4) in simp)

lemma stop_quiet:
  assumes "sys_inv e s" "pc s \<noteq> Stopped" "arriving s = None"
  shows "quiet (s\<lparr>world := main_stop (world s), pc := Stopped, typed := inp\<rparr>)"
    "mset (closed (main_stop (world s))) = mset (opened s)"
proof -
  have run: "running (world s)" "0 \<le> server_fd (world s)" "slots_ok (world s) (waiting s)"
    "mset (opened s) = held (world s)"
    using assms by (simp_all add: sys_inv_def arrived_def)
  note stop = main_stop_sockets [OF run(1-3)]
  have "held (main_stop (world s)) = mset (closed (main_stop (world s)))"
    using stop(2,4) by (simp add: held_def filter_False)
  with stop(1) run(4) show closed: "mset (closed (main_stop (world s))) = mset (opened s)" by simp
  show "quiet (s\<lparr>world := main_stop (world s), pc := Stopped, typed := inp\<rparr>)"
    using stop(2,4) assms(3) closed by (simp add: quiet_def)
qed

lemma main_step_stops:
  assumes "main_step e cr ctime s s'" "pc s' = Stopped"
  shows "\<exists>inp. s' = s\<lparr>world := main_stop (world s), pc := Stopped, typed := inp\<rparr>"
  using assms by (cases rule: main_step.cases) (auto intro: exI [of _ "typed s"])

text \<open>What late threads do to the stopped node.\<close>

lemma late_reader:
  assumes "sys_inv e s" "pc s \<noteq> Stopped" "i \<in> waiting s" "next_frame (incoming s i) = None"
  shows "\<exists>s''. net_step e (s\<lparr>world := main_stop (world s), pc := Stopped, typed := inp\<rparr>) s''
    \<and> 2 \<le> count (mset (closed (world s''))) (fd (peers (world s) ! i))"
proof -
  let ?n = "main_stop (world s)" and ?s = "s\<lparr>world := main_stop (world s), pc := Stopped, typed := inp\<rparr>"
  have i: "i < length (peers (world s))" "active (peers (world s) ! i)"
    using assms(1-3) by (auto simp: sys_inv_def slots_ok_def)
  have peers: "length (peers ?n) = length (peers (world s))" "fd (peers ?n ! i) = fd (peers (world s) ! i)"
    using i(1) by (simp_all add: main_stop_def node_stop_def Let_def)
  obtain rest where "read_message (malloc e) (incoming s i) = (None, rest)"
    using assms(4) by (cases "malloc e MAX_MSG_SIZE") (simp_all add: read_message_eq)
  then have "peer_recv e (app_callbacks e) i ?n (incoming s i) = Some (disconnect i ?n, rest, False)"
    using i(1) peers(1) by (simp add: peer_recv_def)
  with reader_receives [of i ?s e "disconnect i ?n" rest False] assms(3)
  have step: "net_step e ?s (?s\<lparr>world := disconnect i ?n, incoming := (incoming s)(i := rest), waiting := waiting s - {i}\<rparr>)"
    by simp
  have "fd (peers (world s) ! i) \<in> set (map fd (filter active (peers (world s))))"
    using i by (auto intro!: imageI)
  then have "fd (peers (world s) ! i) \<in># mset (closed ?n)"
    by (simp add: main_stop_def node_stop_def Let_def)
  then have "2 \<le> count (mset (closed (disconnect i ?n))) (fd (peers (world s) ! i))"
    using peers(2) by (simp add: disconnect_def Suc_le_eq numeral_2_eq_2)
  with step show ?thesis by (intro exI [of _ "?s\<lparr>world := disconnect i ?n, incoming := (incoming s)(i := rest),
      waiting := waiting s - {i}\<rparr>"]) simp
qed

lemma late_peer:
  assumes "sys_inv e s" "reliable e" "pc s = Stopped" "arriving s = Some (c, h, q)" "0 \<le> c"
    "length (peers (world s)) < MAX_PEERS"
  shows "\<exists>s'' pr. net_step e s s'' \<and> pc s'' = Stopped \<and> pr \<in> set (peers (world s'')) \<and> active pr \<and> fd pr = c"
proof -
  let ?a = "(c, h, q)"
  have inv: "world_inv e (world s)" using assms(1) by (simp add: sys_inv_def)
  obtain n' where n': "accept_step e (app_callbacks e) (world s) ?a = Some n'"
    using accept_step_defined [OF assms(2)] by blast
  with assms(5) obtain r where "add_peer e (app_callbacks e) (world s) c h q = Some (r, n')"
    by (auto simp: accept_step_def split: if_splits)
  from app_cb.add_peer_effect [OF inv this] assms(6)
  have "peers n' = peers (world s) @ [\<lparr>fd = c, host = strncpy_to h 255, port = q, active = True\<rparr>]" by simp
  with peer_enters [OF assms(4) n'] assms(3) show ?thesis
    by (intro exI [of _ "s\<lparr>world := n', arriving := None\<rparr>"]
        exI [of _ "\<lparr>fd = c, host = strncpy_to h 255, port = q, active = True\<rparr>"]) simp
qed

lemma demo_fit: "demo_start n \<Longrightarrow> node_chain (world s) = node_chain n \<Longrightarrow> fit_to_run demo_env (\<lambda>_. Some LF) s"
  using fresh_balance [of "sha demo_env" demo_crypto demo_keygen "\<lambda>_. True" "\<lambda>_. None" demo_listen DEFAULT_PORT n]
  by (auto simp: fit_to_run_def demo_start_def intro: zero_sha_pow)

end
