(* ===== verification/Gossip.thy ===== *)
theory Gossip
  imports Chain
begin

text \<open>
  What two nodes do with each other's blocks, without the program around it: each has a chain and appends
  the blocks it mines, and every block it mines is under way to the other node until that one takes it with
  \<open>chain_add_block\<close>. \<open>Duo\<close> shows that two running programs on one connection are an instance.
\<close>

section \<open>The protocol\<close>

record gossip =
  here :: blockchain_t
  there :: blockchain_t
  to_there :: "block_t list"
  to_here :: "block_t list"

text \<open>\<open>both\<close> says whether the second node mines too.\<close>

inductive gossip_step :: "digest_fn \<Rightarrow> bool \<Rightarrow> gossip \<Rightarrow> gossip \<Rightarrow> bool"
  for h :: digest_fn and both :: bool where
  mine_here: "chain_add_block h (here g) b = Some (0, c) \<Longrightarrow>
    gossip_step h both g (g\<lparr>here := c, to_there := to_there g @ [b]\<rparr>)"
| mine_there: "both \<Longrightarrow> chain_add_block h (there g) b = Some (0, c) \<Longrightarrow>
    gossip_step h both g (g\<lparr>there := c, to_here := to_here g @ [b]\<rparr>)"
| hear_here: "to_here g = b # bs \<Longrightarrow> chain_add_block h (here g) b = Some (r, c) \<Longrightarrow>
    gossip_step h both g (g\<lparr>here := c, to_here := bs\<rparr>)"
| hear_there: "to_there g = b # bs \<Longrightarrow> chain_add_block h (there g) b = Some (r, c) \<Longrightarrow>
    gossip_step h both g (g\<lparr>there := c, to_there := bs\<rparr>)"

section \<open>Chains are only appended to\<close>

definition extends :: "blockchain_t \<Rightarrow> blockchain_t \<Rightarrow> bool" where
  "extends c c' \<longleftrightarrow> (\<exists>bs. blocks c' = blocks c @ bs)"

lemma extends_refl [simp]: "extends c c"
  by (simp add: extends_def)

lemma extends_trans: "extends a b \<Longrightarrow> extends b c \<Longrightarrow> extends a c"
  by (auto simp: extends_def)

lemma extends_same: "extends c c' \<Longrightarrow> length (blocks c') = length (blocks c) \<Longrightarrow> c' = c"
  by (cases c; cases c') (auto simp: extends_def)

lemma extends_nth: "extends c c' \<Longrightarrow> i < length (blocks c) \<Longrightarrow> i < length (blocks c') \<and> blocks c' ! i = blocks c ! i"
  by (auto simp: extends_def nth_append)

lemma chain_add_block_extends: "chain_add_block h c b = Some (r, c') \<Longrightarrow> extends c c'"
  by (auto simp: chain_add_block_def extends_def split: if_splits bind_splits)

lemma gossip_step_extends:
  "gossip_step h both g g' \<Longrightarrow> extends (here g) (here g') \<and> extends (there g) (there g')"
  by (induction rule: gossip_step.induct) (auto dest: chain_add_block_extends)

lemma gossip_extends:
  assumes "(gossip_step h both)\<^sup>*\<^sup>* g g'"
  shows "extends (here g) (here g') \<and> extends (there g) (there g')"
  using assms
proof (induction rule: rtranclp_induct)
  case (step y z)
  with gossip_step_extends [OF step.hyps(2)] show ?case by (blast intro: extends_trans)
qed simp

section \<open>One node that mines\<close>

text \<open>The blocks under way bring the second node to where the first one is.\<close>

definition take_block :: "digest_fn \<Rightarrow> blockchain_t \<Rightarrow> block_t \<Rightarrow> blockchain_t option" where
  "take_block h c b = do {
     (r, c') \<leftarrow> chain_add_block h c b;
     if r = 0 then Some c' else None
   }"

abbreviation catch_up :: "digest_fn \<Rightarrow> blockchain_t \<Rightarrow> block_t list \<Rightarrow> blockchain_t option" where
  "catch_up h \<equiv> foldM (take_block h)"

lemma take_block_eq:
  "chain_add_block h c b = Some (r, c') \<Longrightarrow> take_block h c b = (if r = 0 then Some c' else None)"
  by (simp add: take_block_def)

definition behind :: "digest_fn \<Rightarrow> gossip \<Rightarrow> bool" where
  "behind h g \<longleftrightarrow> to_here g = [] \<and> catch_up h (there g) (to_there g) = Some (here g)"

lemma behind_step:
  assumes "gossip_step h False g g'" "behind h g"
  shows "behind h g'"
  using assms
  by (induction rule: gossip_step.induct)
    (auto simp: behind_def foldM_append take_block_def split: if_splits)

lemma behind_steps: "(gossip_step h False)\<^sup>*\<^sup>* g g' \<Longrightarrow> behind h g \<Longrightarrow> behind h g'"
  by (induction rule: rtranclp_induct) (auto intro: behind_step)

end
