(* ===== verification/Duo.thy ===== *)
theory Duo
  imports Progress Gossip
begin

text \<open>
  Two running programs on one connection: what each of them writes to its socket is what the other one
  reads. The steps are those of \<open>System\<close>, so everything between the keys that the users press and the
  bytes on the line is the code's. \<open>Gossip\<close> is what is left of it when only chains and blocks are looked at.
\<close>

section \<open>Two programs\<close>

text \<open>The bytes that reach the socket \<open>s\<close> between two states of a node.\<close>

definition delivered :: "int \<Rightarrow> 'a node_t \<Rightarrow> 'a node_t \<Rightarrow> string" where
  "delivered s n n' = concat (map snd (filter (\<lambda>m. fst m = s) (drop (length (outbox n)) (outbox n'))))"

abbreviation slot_fd :: "nat \<Rightarrow> 'k system \<Rightarrow> int" where
  "slot_fd i s \<equiv> fd (peers (world s) ! i)"

text \<open>
  A step of one program while it is connected through slot \<open>i\<close>: the main thread goes on, without opening a
  connection, or the reader thread of the slot takes a message that has arrived completely.
\<close>

inductive side_step :: "env \<Rightarrow> 'k crypto \<Rightarrow> (int \<Rightarrow> string option) \<Rightarrow> nat \<Rightarrow> 'k system \<Rightarrow> 'k system \<Rightarrow> bool"
  for e :: env and cr :: "'k crypto" and ctime :: "int \<Rightarrow> string option" and i :: nat where
  acts: "main_step e cr ctime s s' \<Longrightarrow> opened s' = opened s \<Longrightarrow> side_step e cr ctime i s s'"
| hears: "i < length (peers (world s)) \<Longrightarrow> running (world s) \<Longrightarrow> active (peers (world s) ! i) \<Longrightarrow>
    next_frame (incoming s i) \<noteq> None \<Longrightarrow>
    peer_recv e (app_callbacks e) i (world s) (incoming s i) = Some (n, rest, cont) \<Longrightarrow>
    side_step e cr ctime i s (s\<lparr>world := n, incoming := (incoming s)(i := rest)\<rparr>)"

definition receive :: "nat \<Rightarrow> string \<Rightarrow> 'k system \<Rightarrow> 'k system" where
  "receive i bs s = s\<lparr>incoming := (incoming s)(i := incoming s i @ bs)\<rparr>"

definition mining :: "'k system \<Rightarrow> bool" where
  "mining s \<longleftrightarrow> (case pc s of Collecting b \<Rightarrow> True | Searching b \<Rightarrow> True | Publishing b \<Rightarrow> True | _ \<Rightarrow> False)"

text \<open>
  The first program has the second in slot \<open>i\<close>, the second has the first in slot \<open>j\<close>. When \<open>both\<close> is
  false the user of the second program does not mine.
\<close>

inductive duo_step :: "env \<Rightarrow> 'k crypto \<Rightarrow> (int \<Rightarrow> string option) \<Rightarrow> nat \<Rightarrow> nat \<Rightarrow> bool
    \<Rightarrow> 'k system \<times> 'k system \<Rightarrow> 'k system \<times> 'k system \<Rightarrow> bool"
  for e :: env and cr :: "'k crypto" and ctime :: "int \<Rightarrow> string option" and i j :: nat and both :: bool where
  first_moves: "side_step e cr ctime i a a' \<Longrightarrow>
    duo_step e cr ctime i j both (a, b) (a', receive j (delivered (slot_fd i a) (world a) (world a')) b)"
| second_moves: "side_step e cr ctime j b b' \<Longrightarrow> both \<or> \<not> mining b' \<Longrightarrow>
    duo_step e cr ctime i j both (a, b) (receive i (delivered (slot_fd j b) (world b) (world b')) a, b')"

text \<open>Each side of it is a run of its program.\<close>

lemma side_step_sys:
  assumes "side_step e cr ctime i s s'" "sys_inv e s" "malloc e MAX_MSG_SIZE"
  shows "(sys_step e cr ctime)\<^sup>*\<^sup>* s s'"
  using assms(1)
proof (cases rule: side_step.cases)
  case acts
  then show ?thesis by (auto intro: sys_step.main)
next
  case (hears n rest cont)
  obtain m where "read_message (malloc e) (incoming s i) = (Some m, rest)"
    using hears(5,6) assms(3) by (auto simp: read_message_eq peer_recv_def split: bind_splits)
  with hears(2,6) have m: "handle_message e (app_callbacks e) (world s) (slot_fd i s) m = Some n" "CHR 0x00 \<notin> set m"
    by (auto simp: peer_recv_def read_message_no_NUL)
  have "world_inv e (world s)" using assms(2) by (simp add: sys_inv_def)
  with app_cb.handle_message_inv [OF _ m(2,1)] have same: "same_sockets (world s) n" by simp
  show ?thesis
  proof (cases "i \<in> waiting s")
    case True
    let ?s = "s\<lparr>world := n, incoming := (incoming s)(i := rest), waiting := waiting s - {i}\<rparr>"
    have "net_step e s ?s" by (rule reader_receives [OF True hears(6)])
    moreover have "net_step e ?s (?s\<lparr>waiting := insert i (waiting ?s)\<rparr>)"
      using same hears(2-4) by (intro reader_waits) (simp_all add: same_sockets_def)
    moreover have "?s\<lparr>waiting := insert i (waiting ?s)\<rparr> = s'" using True hears(1) by (simp add: insert_absorb)
    ultimately show ?thesis by (metis converse_rtranclp_into_rtranclp r_into_rtranclp sys_step.net)
  next
    case False
    let ?s = "s\<lparr>waiting := insert i (waiting s)\<rparr>"
    have "net_step e s ?s" by (rule reader_waits [OF hears(2-4) False])
    moreover have "net_step e ?s (?s\<lparr>world := n, incoming := (incoming s)(i := rest), waiting := waiting ?s - {i}\<rparr>)"
      using reader_receives [of i ?s e n rest cont] hears(6) by simp
    moreover have "?s\<lparr>world := n, incoming := (incoming s)(i := rest), waiting := waiting ?s - {i}\<rparr> = s'"
      using False hears(1) by simp
    ultimately show ?thesis by (metis converse_rtranclp_into_rtranclp r_into_rtranclp sys_step.net)
  qed
qed

section \<open>Lines\<close>

text \<open>The messages that go over an established connection.\<close>

datatype parcel = Announced block_t | Paid tx_t

fun parcel_text :: "parcel \<Rightarrow> string" where
  "parcel_text (Announced b) = msg_text MSG_NEW_BLOCK (block_text b)"
| "parcel_text (Paid t) = msg_text MSG_NEW_TX (tx_text t)"

fun parcel_wire :: "parcel \<Rightarrow> bool" where
  "parcel_wire (Announced b) = block_wire b"
| "parcel_wire (Paid t) = tx_wire t"

definition stream :: "parcel list \<Rightarrow> string" where
  "stream ps = concat (map (\<lambda>p. parcel_text p @ [CHR 0x0A]) ps)"

fun parcel_blocks :: "parcel \<Rightarrow> block_t list" where
  "parcel_blocks (Announced b) = [b]"
| "parcel_blocks (Paid t) = []"

definition announced :: "parcel list \<Rightarrow> block_t list" where
  "announced ps = concat (map parcel_blocks ps)"

lemma stream_simps [simp]:
  "stream [] = []" "stream (p # ps) = parcel_text p @ CHR 0x0A # stream ps" "stream (ps @ qs) = stream ps @ stream qs"
  "announced [] = []" "announced (p # ps) = parcel_blocks p @ announced ps" "announced (ps @ qs) = announced ps @ announced qs"
  by (simp_all add: stream_def announced_def)

lemma next_frame_stream:
  assumes "parcel_wire p"
  shows "next_frame (stream (p # ps)) = Some (parcel_text p, stream ps)"
proof -
  have "CHR 0x0A \<notin> set (parcel_text p) \<and> CHR 0x00 \<notin> set (parcel_text p) \<and> length (parcel_text p) < MAX_MSG_SIZE - 1"
    using assms tx_stream.frame_line block_stream.frame_line by (cases p) simp_all
  with next_frame_line [of "parcel_text p" "stream ps"] show ?thesis by (simp add: c_string_id)
qed

lemma next_frame_Nil [simp]: "next_frame [] = None"
  by (simp add: next_frame_def MAX_MSG_SIZE_def)

lemma delivered_simps [simp]:
  "delivered s n n = []" "outbox n' = outbox n \<Longrightarrow> delivered s n n' = []"
  "outbox n' = outbox n @ out \<Longrightarrow> delivered s n n' = concat (map snd (filter (\<lambda>m. fst m = s) out))"
  by (simp_all add: delivered_def)

text \<open>What the reader thread does with each of them.\<close>

lemma hear_paid:
  assumes "malloc e = alloc_ok" "tx_wire t" "i < length (peers n)"
  shows "peer_recv e (app_callbacks e) i n (stream (Paid t # ps)) = Some (mempool_push n t, stream ps, True)"
proof -
  have "read_message (malloc e) (stream (Paid t # ps)) = (Some (parcel_text (Paid t)), stream ps)"
    using next_frame_stream [of "Paid t" ps] assms(1,2) by (simp add: read_message_eq alloc_ok_def del: stream_simps)
  then show ?thesis
    using handle_new_tx_message [OF assms(1,2)] assms(3) by (simp add: peer_recv_def del: stream_simps)
qed

lemma recv_announced_line:
  assumes "reliable e" "block_wire b" "i < length (peers n)" "chain_add_block (sha e) (node_chain n) b = Some (r, c)"
  shows "peer_recv e (app_callbacks e) i n (parcel_text (Announced b) @ CHR 0x0A # rest) = Some (n\<lparr>node_chain := c,
    outbox := outbox n @ (if r = 0 then map (\<lambda>p. (fd p, stream [Announced b]))
      (filter (\<lambda>p. active p \<and> fd p \<noteq> fd (peers n ! i)) (peers n)) else [])\<rparr>, rest, True)"
proof -
  note al = reliable_malloc(1) [OF assms(1)]
  let ?s = "fd (peers n ! i)" and ?n = "n\<lparr>node_chain := c\<rparr>" and ?m = "parcel_text (Announced b)"
  have "CHR 0x0A \<notin> set ?m" "CHR 0x00 \<notin> set ?m" "length ?m < MAX_MSG_SIZE - 1"
    using assms(2) block_stream.frame_line by simp_all
  then have read: "read_message (malloc e) (?m @ CHR 0x0A # rest) = (Some ?m, rest)"
    using al by (intro read_message_line) (simp_all add: alloc_ok_def)
  have "handle_message e (app_callbacks e) n ?s ?m =
      (if r = 0 then broadcast_block_except e ?n b ?s else Some ?n)"
    using handle_message_new_block [OF al, of "block_text b" "app_callbacks e" n ?s] block_wire_text(1) [OF assms(2)]
      protocol_deserialize_block_text [OF assms(2), of "malloc e"] assms(4) al
    by (simp add: handle_new_block_def app_callbacks_def alloc_ok_def Let_def)
  moreover have "block_ok b" using assms(2) by (simp add: block_wire_def)
  ultimately show ?thesis
    using read assms(3) by (auto simp: peer_recv_def broadcast_block_eq [OF assms(1)])
qed

lemmas recv_announced = recv_announced_line [where rest = "stream ps" for ps, folded stream_simps(2)]

lemma hear_announced:
  assumes "reliable e" "block_wire b" "i < length (peers n)" "chain_add_block (sha e) (node_chain n) b = Some (r, c)"
  shows "\<exists>n'. peer_recv e (app_callbacks e) i n (stream (Announced b # ps)) = Some (n', stream ps, True)
    \<and> node_chain n' = c \<and> app n' = app n \<and> same_sockets n n' \<and> delivered (fd (peers n ! i)) n n' = []"
  using recv_announced [OF assms, of ps]
  by (auto simp: same_sockets_def filter_map comp_def simp del: stream_simps)

section \<open>Plain data\<close>

text \<open>
  The state of a program in which everything that it may send can be sent: nobody types a quote, a
  backslash or a bracket, and the texts of its transactions and blocks hold none either.
\<close>

definition typeable :: "string \<Rightarrow> bool" where
  "typeable inp \<longleftrightarrow> (\<forall>c \<in> set inp. is_space c \<or> plain_char c)"

definition pc_wire :: "main_pc \<Rightarrow> bool" where
  "pc_wire p = (case p of
      Queueing t \<Rightarrow> tx_wire t
    | Announcing t \<Rightarrow> tx_wire t
    | Collecting b \<Rightarrow> plain (prev_hash b)
    | Searching b \<Rightarrow> block_wire b
    | Publishing b \<Rightarrow> block_wire b
    | _ \<Rightarrow> True)"

text \<open>Slot \<open>i\<close> holds the only active connection on its descriptor.\<close>

definition connected :: "nat \<Rightarrow> 'a node_t \<Rightarrow> bool" where
  "connected i n \<longleftrightarrow> i < length (peers n) \<and> active (peers n ! i) \<and> 0 \<le> fd (peers n ! i)
     \<and> filter (\<lambda>p. active p \<and> fd p = fd (peers n ! i)) (peers n) = [peers n ! i]"

definition world_wire :: "'k world \<Rightarrow> bool" where
  "world_wire n \<longleftrightarrow> (\<forall>t \<in> set (mempool (app n)). tx_wire t) \<and> (\<forall>b \<in> set (blocks (node_chain n)). block_wire b)
     \<and> plain (address (wallet (app n)))"

definition clean :: "env \<Rightarrow> nat \<Rightarrow> 'k system \<Rightarrow> bool" where
  "clean e i s \<longleftrightarrow> sys_inv e s \<and> (running (world s) \<longrightarrow> connected i (world s)) \<and> world_wire (world s)
     \<and> pc_wire (pc s) \<and> typeable (typed s)"

lemma connected_same: "same_sockets n n' \<Longrightarrow> connected i n' = connected i n"
  by (simp add: connected_def same_sockets_def)

lemma typeable_subset: "typeable inp \<Longrightarrow> set r \<subseteq> set inp \<Longrightarrow> typeable r"
  by (auto simp: typeable_def)

lemma set_scan_s: "set (snd (scan_s w inp)) \<subseteq> set inp"
  by (auto simp: scan_s_def Let_def dest: in_set_dropD set_dropWhileD)

lemma scan_s_plain:
  assumes "scan_s w inp = (Some v, r)" "typeable inp"
  shows "plain v"
proof -
  let ?word = "takeWhile (\<lambda>c. \<not> is_space c) (take w (dropWhile is_space inp))"
  have "v = c_string ?word" using assms(1) by (auto simp: scan_s_def Let_def split: if_splits)
  then have "set v \<subseteq> set ?word" by (auto simp: c_string_def dest: set_takeWhileD)
  moreover have "c \<in> set inp \<and> \<not> is_space c" if "c \<in> set ?word" for c
    using set_takeWhileD [OF that] by (auto dest: in_set_takeD set_dropWhileD)
  ultimately show ?thesis using assms(2) unfolding plain_def typeable_def by blast
qed

lemma set_scan_digits: "set (snd (scan_digits inp)) \<subseteq> set inp"
proof -
  have "set (snd (scan_sign t)) \<subseteq> set t" for t by (cases t) (auto simp: scan_sign_def)
  then have "set (dropWhile is_digit (snd (scan_sign (dropWhile is_space inp)))) \<subseteq> set inp"
    by (blast dest: set_dropWhileD)
  then show ?thesis by (cases "scan_sign (dropWhile is_space inp)") (simp add: scan_digits_def)
qed

lemma set_scan_lu: "set (snd (scan_lu inp)) \<subseteq> set inp"
  using set_scan_digits [of inp] by (auto simp: scan_lu_def split: prod.split)

lemma set_scan_d: "set (snd (scan_d inp)) \<subseteq> set inp"
  using set_scan_digits [of inp] by (auto simp: scan_d_def split: prod.split)

lemma read_payment_plain:
  assumes "read_payment inp = (payment, r)" "typeable inp"
  shows "typeable r" "\<forall>rcv. in_receiver payment = Some rcv \<longrightarrow> plain rcv"
proof -
  obtain v i1 where 1: "scan_s 64 inp = (v, i1)" by fastforce
  obtain a i2 where 2: "scan_lu i1 = (a, i2)" by fastforce
  obtain f i3 where 3: "scan_lu i2 = (f, i3)" by fastforce
  have "set i1 \<subseteq> set inp" "set i2 \<subseteq> set i1" "set i3 \<subseteq> set i2"
    using set_scan_s [of 64 inp] set_scan_lu [of i1] set_scan_lu [of i2] by (simp_all add: 1 2 3)
  moreover have "r \<in> {i1, i2, i3}"
    using assms(1) by (auto simp: read_payment_def 1 2 3 split: option.splits)
  ultimately have "set r \<subseteq> set inp" by blast
  then show "typeable r" by (rule typeable_subset [OF assms(2)])
  have "in_receiver payment = v"
    using assms(1) by (auto simp: read_payment_def 1 2 3 split: option.splits)
  then show "\<forall>rcv. in_receiver payment = Some rcv \<longrightarrow> plain rcv"
    using scan_s_plain [OF _ assms(2), of 64] 1 by simp
qed

lemma no_connection:
  assumes "do_connect_peer e dial inp n = Some (inp', n')" "connect_opens dial inp = []"
  shows "n' = n \<and> set inp' \<subseteq> set inp"
proof -
  obtain v i1 where 1: "scan_s 255 inp = (v, i1)" by fastforce
  obtain p i2 where 2: "scan_d i1 = (p, i2)" by fastforce
  have sub: "set i1 \<subseteq> set inp" "set i2 \<subseteq> set i1"
    using set_scan_s [of 255 inp] set_scan_d [of i1] by (simp_all add: 1 2)
  show ?thesis
  proof (cases "v = None \<or> p = None")
    case True
    with assms(1) sub show ?thesis by (auto simp: do_connect_peer_def 1 2 split: option.splits)
  next
    case False
    then obtain h q where vp: "v = Some h" "p = Some q" by auto
    have "dial_opens (dial h (of_int q)) = []" using assms(2) by (simp add: connect_opens_def 1 2 vp)
    then have "node_connect_peer e (app_callbacks e) (dial h (of_int q)) n h (of_int q) = Some (- 1, n)"
      by (auto simp: node_connect_peer_def dial_opens_def split: if_splits)
    with assms(1) sub show ?thesis by (auto simp: do_connect_peer_def 1 2 vp)
  qed
qed

section \<open>What the main thread makes is plain\<close>

lemma plain_take: "plain s \<Longrightarrow> plain (take k s)"
  by (auto simp: plain_def dest: in_set_takeD)

lemma send_prepare_wire:
  assumes "world_inv e n" "crypto_bounds cr" "send_prepare e cr md inp n = Some (Some t)"
    "\<forall>rcv. in_receiver inp = Some rcv \<longrightarrow> plain rcv" "plain (address (wallet (app n)))"
  shows "tx_wire t"
proof -
  let ?w = "wallet (app n)"
  have "\<forall>rcv. in_receiver inp = Some rcv \<longrightarrow> CHR 0x00 \<notin> set rcv" using assms(4) plainD(5) by blast
  then have ok: "tx_ok t" using send_prepare_ok [OF assms(1-3)] by blast
  obtain rcv amt f where rcv: "in_receiver inp = Some rcv"
    and t: "wallet_sign_tx cr md ?w (tx_create (sha e) (address ?w) (take 64 rcv) amt f) = (0, t)"
    using assms(3) by (auto simp: send_prepare_def Let_def split: option.splits if_splits prod.splits)
  have "plain rcv" using assms(4) rcv by simp
  then have "plain (sender t) \<and> plain (receiver t) \<and> plain (signature t) \<and> plain (tx_hash t)"
    using t assms(5)
    by (auto simp: wallet_sign_tx_def tx_create_def tx_compute_hash_def strncpy_to_def Let_def plain_take
        split: if_splits option.splits)
  with ok show ?thesis by (simp add: tx_wire_def)
qed

lemma coinbase_wire:
  assumes "cstr_fits ADDR_LEN a" "plain a"
  shows "tx_wire (coinbase_with_fees h a f)"
proof -
  have "plain COINBASE_ADDR" "plain ''COINBASE''" by (simp_all add: COINBASE_ADDR_def plain_char_def)
  with coinbase_with_fees_eq [OF assms(1), of h f] assms(2) show ?thesis by (simp add: tx_wire_def)
qed

lemma collect_txs_hash: "collect_txs c ts b f = Some (b', f') \<Longrightarrow> hash b' = hash b"
  by (induction ts arbitrary: b f) (fastforce split: if_splits bind_splits)+

lemma mine_collect_draft:
  assumes "app_ok (app n)" "i64_ok now" "cstr_fits HASH_HEX_LEN p"
    "mine_collect e (block_zero\<lparr>index := i, timestamp := now, prev_hash := p\<rparr>) n = Some (b, n')"
  shows "draft b \<and> hash b = []"
proof -
  let ?b1 = "block_zero\<lparr>index := i, timestamp := now, prev_hash := p, tx_count := 1\<rparr>"
  obtain b2 f t where b2: "collect_txs (node_chain n) (mempool (app n)) ?b1 0 = Some (b2, f)"
    and b: "b = b2\<lparr>transactions := (transactions b2)[0 := t]\<rparr>"
    using assms(4) by (auto simp: mine_collect_def Let_def arr_set_eq_Some_iff)
  have d: "draft b2"
    using collect_txs_spec [OF b2 header_draft [OF assms(2,3)]] assms(1) by (simp add: app_ok_def)
  moreover have "block_ok b" using mine_collect_spec [OF assms] by simp
  ultimately have "draft b" using draftD(2) [OF d] by (simp add: draft_def b)
  moreover have "hash b = []" using collect_txs_hash [OF b2] by (simp add: b block_zero_def)
  ultimately show ?thesis by simp
qed

lemma mine_collect_wire:
  assumes "app_ok (app n)" "i64_ok now" "cstr_fits HASH_HEX_LEN p" "world_wire n" "plain p"
    "mine_collect e (block_zero\<lparr>index := i, timestamp := now, prev_hash := p\<rparr>) n = Some (b, n')"
  shows "block_wire b"
proof -
  note spec = mine_collect_spec [OF assms(1-3,6)] and d = mine_collect_draft [OF assms(1-3,6)]
  have "tx_wire t" if "t \<in> set (mined_txs e n)" for t
    using that assms(1,4) coinbase_wire [of "address (wallet (app n))"]
    by (auto simp: mined_txs_def taken_txs_def world_wire_def app_ok_def dest: in_set_takeD)
  moreover have "transactions b = block_txs b @ replicate (10 - nat (tx_count b)) tx_zero"
    using d by (metis append_take_drop_id block_txs_def draft_def)
  ultimately show ?thesis using spec d assms(5) by (simp add: block_wire_def)
qed

lemma block_mine_wire:
  assumes "block_mine h b = Some (k, b')" "block_wire b"
  shows "block_wire b'"
proof -
  have ok: "block_ok b" using assms(2) by (simp add: block_wire_def)
  obtain n where "b' = b\<lparr>nonce := n, hash := mined_hash h b n\<rparr>" using block_mine_sound [OF assms(1) ok] by blast
  with mined_block_ok [OF assms(1) ok] assms(2) show ?thesis
    by (simp add: block_wire_def block_txs_def mined_hash_def)
qed

section \<open>What a step does\<close>

lemma clean_same:
  assumes "clean e i s" "sys_inv e s'" "same_sockets (world s) (world s')" "world_wire (world s')"
    "pc_wire (pc s')" "typeable (typed s')"
  shows "clean e i s'"
  using assms connected_same [OF assms(3)] by (simp add: clean_def same_sockets_def)

lemma stop_outbox [simp]: "outbox (main_stop n) = outbox n" "node_chain (main_stop n) = node_chain n"
    "mempool (app (main_stop n)) = mempool (app n)" "address (wallet (app (main_stop n))) = address (wallet (app n))"
    "\<not> running (main_stop n)"
  by (cases "keypair (wallet (app n))"; simp add: main_stop_def node_stop_def wallet_destroy_def Let_def)+

lemma clean_stop:
  assumes "clean e i s" "sys_inv e s'" "world s' = main_stop (world s)" "pc s' = Stopped" "typeable (typed s')"
  shows "clean e i s'"
  using assms by (simp add: clean_def pc_wire_def world_wire_def)

text \<open>A broadcast reaches the slot once.\<close>

lemma connected_send:
  assumes "connected i n" "\<forall>p. sel p \<longleftrightarrow> active p \<and> fd p \<noteq> x" "x < 0"
  shows "concat (map snd (filter (\<lambda>m. fst m = fd (peers n ! i)) (map (\<lambda>p. (fd p, l)) (filter sel (peers n))))) = l"
proof -
  let ?s = "fd (peers n ! i)"
  have "?s \<noteq> x" using assms(1,3) by (simp add: connected_def)
  then have "(sel p \<and> fd p = ?s) = (active p \<and> fd p = ?s)" for p using assms(2) by metis
  then have "filter (\<lambda>p. sel p \<and> fd p = ?s) (peers n) = filter (\<lambda>p. active p \<and> fd p = ?s) (peers n)" by simp
  also have "\<dots> = [peers n ! i]" using assms(1) by (simp add: connected_def)
  finally show ?thesis by (simp add: filter_map comp_def conj_commute)
qed

text \<open>
  What the main thread does, seen from the slot: nothing but payments go out and the chain stays, or it
  appends the block it has mined and announces it.
\<close>

definition quiet_move :: "env \<Rightarrow> nat \<Rightarrow> 'k system \<Rightarrow> 'k system \<Rightarrow> bool" where
  "quiet_move e i s s' \<longleftrightarrow> (\<exists>ps. delivered (slot_fd i s) (world s) (world s') = stream ps
     \<and> (\<forall>p \<in> set ps. parcel_wire p) \<and> announced ps = [] \<and> node_chain (world s') = node_chain (world s))"

definition mined_move :: "env \<Rightarrow> nat \<Rightarrow> 'k system \<Rightarrow> 'k system \<Rightarrow> bool" where
  "mined_move e i s s' \<longleftrightarrow> (\<exists>b. delivered (slot_fd i s) (world s) (world s') = stream [Announced b] \<and> block_wire b
     \<and> mining s \<and> chain_add_block (sha e) (node_chain (world s)) b = Some (0, node_chain (world s')))"

lemma quiet_moveI:
  "outbox (world s') = outbox (world s) \<Longrightarrow> node_chain (world s') = node_chain (world s) \<Longrightarrow> quiet_move e i s s'"
  unfolding quiet_move_def by (intro exI [of _ "[]"]) simp

lemma publish_effect:
  assumes "mine_publish e b n = Some n'" "block_wire b" "reliable e" "world_inv e n" "world_wire n" "connected i n"
  shows "world_wire n' \<and> same_sockets n n' \<and> (delivered (fd (peers n ! i)) n n' = [] \<and> node_chain n' = node_chain n
    \<or> delivered (fd (peers n ! i)) n n' = stream [Announced b] \<and> chain_add_block (sha e) (node_chain n) b = Some (0, node_chain n'))"
proof -
  have b: "block_ok b" "block_shape b" "blocks (node_chain n) \<noteq> []"
    using assms(2,4) block_wireD(1) by (auto simp: block_wire_def node_inv_def chain_inv_def)
  obtain r c where c: "chain_add_block (sha e) (node_chain n) b = Some (r, c)"
    using assms(1) by (auto simp: mine_publish_def)
  show ?thesis
  proof (cases rule: chain_add_block_cases [OF c b(3,2)])
    case 1
    with assms(1,5) c show ?thesis by (auto simp: mine_publish_def)
  next
    case 2
    let ?l = "msg_text MSG_NEW_BLOCK (block_text b) @ [CHR 0x0A]"
    have n': "n' = n\<lparr>node_chain := c, outbox := outbox n @ map (\<lambda>p. (fd p, ?l)) (filter (\<lambda>p. active p \<and> fd p \<noteq> - 1) (peers n))\<rparr>"
      using assms(1) c 2(1) by (simp add: mine_publish_def node_broadcast_block_def broadcast_block_eq [OF assms(3) b(1)])
    have "world_wire n'" using assms(2,5) 2(2) by (simp add: world_wire_def n')
    moreover have "delivered (fd (peers n ! i)) n n' = ?l"
      using connected_send [OF assms(6), of "\<lambda>p. active p \<and> fd p \<noteq> - 1" "- 1" ?l] by (simp add: n')
    ultimately show ?thesis using c 2(1) by (simp add: n' same_sockets_def)
  qed
qed

lemma announce_effect:
  assumes "reliable e" "tx_wire t" "connected i n"
  shows "delivered (fd (peers n ! i)) n (node_broadcast_tx e n t) = stream [Paid t]"
proof -
  have "tx_ok t" using assms(2) by (simp add: tx_wire_def)
  moreover have "filter active (peers n) = filter (\<lambda>p. active p) (peers n)" by simp
  ultimately show ?thesis
    using assms(3)
    by (simp add: broadcast_tx_eq [OF assms(1)] connected_def filter_map comp_def conj_commute)
qed

lemma world_wire_push: "world_wire n \<Longrightarrow> tx_wire t \<Longrightarrow> world_wire (mempool_push n t)"
  by (auto simp: world_wire_def mempool_push_def)

lemma push_rest [simp]:
  "outbox (mempool_push n t) = outbox n" "node_chain (mempool_push n t) = node_chain n"
  "same_sockets n (mempool_push n t)"
  by (simp_all add: mempool_push_def same_sockets_def)

lemma typeable_scan: "typeable inp \<Longrightarrow> scan_s w inp = (v, r) \<Longrightarrow> typeable r"
  using set_scan_s [of w inp] typeable_subset [of inp r] by simp

lemma main_step_effect:
  assumes "main_step e cr ctime s s'" "opened s' = opened s" "clean e i s" "reliable e" "crypto_bounds cr"
  shows "clean e i s' \<and> incoming s' = incoming s \<and> (quiet_move e i s s' \<or> mined_move e i s s')"
proof -
  have c: "sys_inv e s" "world_wire (world s)" "pc_wire (pc s)" "typeable (typed s)"
    using assms(3) by (simp_all add: clean_def)
  have inv: "world_inv e (world s)" "app_ok (app (world s))" "connected i (world s)"
    using c(1) main_step_not_stopped [OF assms(1)] assms(3) by (simp_all add: sys_inv_def node_inv_def clean_def)
  have sys: "sys_inv e s'" using main_step_inv [OF assms(1) c(1) assms(5)] by simp
  note same = clean_same [OF assms(3) sys] and stop = clean_stop [OF assms(3) sys]
  note scan = typeable_scan [OF c(4)]
  from assms(1) show ?thesis
  proof (cases rule: main_step.cases)
    case (connect k inp dial inp' n)
    have "connect_opens dial inp = []" using connect(1) assms(2) by simp
    from no_connection [OF connect(5) this] scan [OF connect(3)] have "n = world s" "typeable inp'"
      using typeable_subset by blast+
    with connect(1) same c show ?thesis by (simp add: quiet_moveI pc_wire_def)
  next
    case (send_refused k inp payment inp' md)
    with read_payment_plain(1) [OF _ scan] same c show ?thesis by (simp add: quiet_moveI pc_wire_def)
  next
    case (send_signed k inp payment inp' md t)
    note typed = scan [OF send_signed(3)]
    have "plain (address (wallet (app (world s))))" using c(2) by (simp add: world_wire_def)
    with send_prepare_wire [OF inv(1) assms(5) send_signed(6) read_payment_plain(2) [OF send_signed(5) typed]]
    have "tx_wire t" by simp
    with send_signed read_payment_plain(1) [OF send_signed(5) typed] same c show ?thesis
      by (simp add: quiet_moveI pc_wire_def)
  next
    case (queue t)
    with world_wire_push [OF c(2), of t] same c show ?thesis by (simp add: quiet_moveI pc_wire_def)
  next
    case (announce t)
    let ?n = "node_broadcast_tx e (world s) t"
    have t: "tx_wire t" using c(3) announce(2) by (simp add: pc_wire_def)
    obtain fds where fds: "only_sends (world s) fds ?n" using only_sends_broadcast_tx by blast
    then have "world_wire ?n" "same_sockets (world s) ?n" "node_chain ?n = node_chain (world s)"
      using c(2) by (simp_all add: world_wire_def same_sockets_def only_sendsD [OF fds])
    moreover from this have "quiet_move e i s s'"
      using announce_effect [OF assms(4) t inv(3)] t announce(1)
      unfolding quiet_move_def by (intro exI [of _ "[Paid t]"]) simp
    ultimately show ?thesis using announce(1) same c by (simp add: pc_wire_def)
  next
    case (start_mining k inp now b)
    have "chain_inv (sha e) (node_chain (world s))" using inv(1) by (simp add: node_inv_def)
    moreover from this have "plain (hash (last (blocks (node_chain (world s)))))"
      using c(2) by (simp add: world_wire_def chain_inv_def block_wire_def)
    ultimately have "plain (prev_hash b)" using mine_header_eq start_mining(6) by fastforce
    with start_mining same c scan [OF start_mining(3)] show ?thesis by (simp add: quiet_moveI pc_wire_def)
  next
    case (collect b b' n)
    obtain j now q where b: "b = block_zero\<lparr>index := j, timestamp := now, prev_hash := q\<rparr>"
      "i64_ok now" "cstr_fits HASH_HEX_LEN q"
      using c(1) collect(2) by (auto simp: sys_inv_def pc_ok_def)
    have "plain q" using c(3) collect(2) b(1) by (simp add: pc_wire_def)
    note spec = mine_collect_spec [OF inv(2) b(2,3) collect(3) [unfolded b(1)]]
      mine_collect_wire [OF inv(2) b(2,3) c(2) this collect(3) [unfolded b(1)]]
    then have "n = set_mempool (world s) []" by simp
    moreover have "world_wire (set_mempool (world s) [])" using c(2) by (simp add: world_wire_def)
    ultimately show ?thesis using collect(1) same c spec(2) by (simp add: quiet_moveI pc_wire_def same_node_sockets)
  next
    case (search b k b')
    with block_mine_wire [OF search(3)] same c show ?thesis by (simp add: quiet_moveI pc_wire_def)
  next
    case (publish b n)
    have b: "block_wire b" using c(3) publish(2) by (simp add: pc_wire_def)
    note eff = publish_effect [OF publish(3) b assms(4) inv(1) c(2) inv(3)]
    have "quiet_move e i s s' \<or> mined_move e i s s'"
      using eff publish(1,2) b
      by (auto simp: quiet_move_def mined_move_def mining_def intro: exI [of _ "[]"])
    with eff publish(1) same c show ?thesis by (simp add: pc_wire_def)
  qed (use same stop c scan in \<open>simp_all add: quiet_moveI pc_wire_def\<close>)
qed

text \<open>What the reader thread does.\<close>

lemma add_wire_block:
  assumes "block_wire b" "world_inv e n" "world_wire n"
  obtains r c where "chain_add_block (sha e) (node_chain n) b = Some (r, c)" "\<forall>x \<in> set (blocks c). block_wire x"
proof -
  have ne: "blocks (node_chain n) \<noteq> []" using assms(2) by (simp add: node_inv_def chain_inv_def)
  obtain r c where c: "chain_add_block (sha e) (node_chain n) b = Some (r, c)"
    using chain_add_block_eq [OF ne block_wireD(1) [OF assms(1)]] block_wireD(4) [OF assms(1)] by fastforce
  have "\<forall>x \<in> set (blocks c). block_wire x"
    by (rule chain_add_block_cases [OF c ne block_wireD(1) [OF assms(1)]])
      (use assms(1,3) in \<open>auto simp: world_wire_def\<close>)
  with c that show thesis by blast
qed

lemma hear_parcel:
  assumes "parcel_wire p" "reliable e" "world_inv e n" "world_wire n" "i < length (peers n)"
  shows "\<exists>n'. peer_recv e (app_callbacks e) i n (stream (p # ps)) = Some (n', stream ps, True)
    \<and> world_wire n' \<and> same_sockets n n' \<and> delivered (fd (peers n ! i)) n n' = []
    \<and> (case p of Paid t \<Rightarrow> node_chain n' = node_chain n
       | Announced b \<Rightarrow> \<exists>r. chain_add_block (sha e) (node_chain n) b = Some (r, node_chain n'))"
proof (cases p)
  case (Paid t)
  then show ?thesis
    using hear_paid [OF reliable_malloc(1) [OF assms(2)], of t i n ps] assms(1,4,5) world_wire_push [of n t] by simp
next
  case (Announced b)
  then have b: "block_wire b" using assms(1) by simp
  obtain r c where c: "chain_add_block (sha e) (node_chain n) b = Some (r, c)" "\<forall>x \<in> set (blocks c). block_wire x"
    by (rule add_wire_block [OF b assms(3,4)])
  from hear_announced [OF assms(2) b assms(5) c(1), of ps] obtain n' where
    n': "peer_recv e (app_callbacks e) i n (stream (p # ps)) = Some (n', stream ps, True)" "node_chain n' = c"
      "app n' = app n" "same_sockets n n'" "delivered (fd (peers n ! i)) n n' = []"
    unfolding Announced by blast
  moreover have "world_wire n'" using n'(2,3) c(2) assms(4) by (simp add: world_wire_def)
  ultimately show ?thesis using c(1) by (auto simp: Announced)
qed

lemma clean_receive [simp]: "clean e i (s\<lparr>incoming := f\<rparr>) = clean e i s" "clean e i (receive j bs s) = clean e i s"
  by (simp_all add: clean_def sys_inv_def arrived_def receive_def)

text \<open>Both together: a step of one side, given the parcels that wait for it.\<close>

lemma side_step_cases:
  assumes "side_step e cr ctime i s s'" "clean e i s" "reliable e" "crypto_bounds cr"
    "incoming s i = stream ps" "\<forall>p \<in> set ps. parcel_wire p"
  obtains (quiet) qs out where "clean e i s'" "incoming s' i = stream qs" "set qs \<subseteq> set ps" "announced qs = announced ps"
      "delivered (slot_fd i s) (world s) (world s') = stream out" "\<forall>p \<in> set out. parcel_wire p" "announced out = []"
      "node_chain (world s') = node_chain (world s)"
  | (mined) b where "clean e i s'" "incoming s' i = stream ps" "mining s" "block_wire b"
      "delivered (slot_fd i s) (world s) (world s') = stream [Announced b]"
      "chain_add_block (sha e) (node_chain (world s)) b = Some (0, node_chain (world s'))"
  | (heard) b r qs where "clean e i s'" "incoming s' i = stream qs" "ps = Announced b # qs"
      "delivered (slot_fd i s) (world s) (world s') = []"
      "chain_add_block (sha e) (node_chain (world s)) b = Some (r, node_chain (world s'))"
  using assms(1)
proof (cases rule: side_step.cases)
  case acts
  from main_step_effect [OF acts assms(2-4)] quiet [of ps] mined assms(5,6) show thesis
    by (auto simp: quiet_move_def mined_move_def)
next
  case (hears n rest cont)
  obtain p qs where p: "ps = p # qs" using hears(5) assms(5) by (cases ps) auto
  have inv: "world_inv e (world s)" "world_wire (world s)" using assms(2) by (simp_all add: clean_def sys_inv_def)
  have wire: "parcel_wire p" using assms(6) p by simp
  from hear_parcel [OF wire assms(3) inv hears(2), of qs] hears(6) assms(5) p
  have n: "rest = stream qs" "world_wire n" "same_sockets (world s) n" "delivered (slot_fd i s) (world s) n = []"
    "case p of Paid t \<Rightarrow> node_chain n = node_chain (world s)
       | Announced b \<Rightarrow> \<exists>r. chain_add_block (sha e) (node_chain (world s)) b = Some (r, node_chain n)"
    by auto
  have "sys_inv e s" "malloc e MAX_MSG_SIZE"
    using assms(2) reliable_malloc(1) [OF assms(3)] by (simp_all add: clean_def alloc_ok_def)
  then have "sys_inv e s'" using sys_steps_inv [OF side_step_sys [OF assms(1)] _ assms(4)] by blast
  then have clean: "clean e i s'"
    using clean_same [OF assms(2), of s'] n(2,3) hears(1) assms(2) by (simp add: clean_def)
  show thesis
  proof (cases p)
    case (Paid t)
    with quiet [of qs "[]"] clean n hears(1) p show thesis by auto
  next
    case (Announced b)
    with heard [of qs b] clean n hears(1) p show thesis by auto
  qed
qed

section \<open>The simulation\<close>

text \<open>The two programs show the protocol: their chains, and the blocks among the parcels under way.\<close>

definition under_way :: "nat \<Rightarrow> 'k system \<Rightarrow> block_t list \<Rightarrow> bool" where
  "under_way i s bs \<longleftrightarrow> (\<exists>ps. incoming s i = stream ps \<and> (\<forall>p \<in> set ps. parcel_wire p) \<and> bs = announced ps)"

definition duo_sim :: "env \<Rightarrow> nat \<Rightarrow> nat \<Rightarrow> bool \<Rightarrow> 'k system \<times> 'k system \<Rightarrow> gossip \<Rightarrow> bool" where
  "duo_sim e i j both x g \<longleftrightarrow> (case x of (a, b) \<Rightarrow> clean e i a \<and> clean e j b \<and> (both \<or> \<not> mining b)
     \<and> here g = node_chain (world a) \<and> there g = node_chain (world b)
     \<and> under_way i a (to_here g) \<and> under_way j b (to_there g))"

lemma side_step_abs:
  assumes "side_step e cr ctime i s s'" "clean e i s" "reliable e" "crypto_bounds cr" "under_way i s bs"
  obtains (quiet) out where "clean e i s'" "under_way i s' bs"
      "delivered (slot_fd i s) (world s) (world s') = stream out" "\<forall>p \<in> set out. parcel_wire p" "announced out = []"
      "node_chain (world s') = node_chain (world s)"
  | (mined) b where "clean e i s'" "under_way i s' bs" "mining s" "block_wire b"
      "delivered (slot_fd i s) (world s) (world s') = stream [Announced b]"
      "chain_add_block (sha e) (node_chain (world s)) b = Some (0, node_chain (world s'))"
  | (heard) b r bs' where "clean e i s'" "under_way i s' bs'" "bs = b # bs'"
      "delivered (slot_fd i s) (world s) (world s') = []"
      "chain_add_block (sha e) (node_chain (world s)) b = Some (r, node_chain (world s'))"
proof -
  obtain ps where ps: "incoming s i = stream ps" "\<forall>p \<in> set ps. parcel_wire p" "bs = announced ps"
    using assms(5) by (auto simp: under_way_def)
  show thesis
  proof (cases rule: side_step_cases [OF assms(1-4) ps(1,2)])
    case (1 qs out)
    then have "under_way i s' bs" using ps unfolding under_way_def by (intro exI [of _ qs]) auto
    with 1 quiet show thesis by blast
  next
    case (2 b)
    then have "under_way i s' bs" using ps unfolding under_way_def by (intro exI [of _ ps]) auto
    with 2 mined show thesis by blast
  next
    case (3 b r qs)
    then have "under_way i s' (announced qs)" using ps(2) unfolding under_way_def by auto
    with 3 ps(3) heard show thesis by simp
  qed
qed

lemma under_way_receive:
  assumes "under_way i s bs" "\<forall>p \<in> set out. parcel_wire p"
  shows "under_way i (receive i (stream out) s) (bs @ announced out)"
proof -
  obtain ps where "incoming s i = stream ps" "\<forall>p \<in> set ps. parcel_wire p" "bs = announced ps"
    using assms(1) by (auto simp: under_way_def)
  with assms(2) show ?thesis by (auto simp: under_way_def receive_def intro!: exI [of _ "ps @ out"])
qed

lemma receive_simps [simp]:
  "world (receive i bs s) = world s" "mining (receive i bs s) = mining s" "receive i [] s = s"
  by (simp_all add: receive_def mining_def)

lemma duo_sim_step:
  assumes "duo_step e cr ctime i j both x x'" "duo_sim e i j both x g" "reliable e" "crypto_bounds cr"
  shows "\<exists>g'. (gossip_step (sha e) both)\<^sup>*\<^sup>* g g' \<and> duo_sim e i j both x' g'"
  using assms(1)
proof (cases rule: duo_step.cases)
  case (first_moves a a' b)
  from assms(2) first_moves(1) have sim: "clean e i a" "clean e j b" "both \<or> \<not> mining b"
    "here g = node_chain (world a)" "there g = node_chain (world b)" "under_way i a (to_here g)" "under_way j b (to_there g)"
    by (simp_all add: duo_sim_def)
  show ?thesis
  proof (cases rule: side_step_abs [OF first_moves(3) sim(1) assms(3,4) sim(6)])
    case (1 out)
    then have "duo_sim e i j both x' g"
      using sim under_way_receive [OF sim(7), of out] first_moves(2) by (auto simp: duo_sim_def)
    then show ?thesis by blast
  next
    case (2 c)
    let ?g = "g\<lparr>here := node_chain (world a'), to_there := to_there g @ [c]\<rparr>"
    have "gossip_step (sha e) both g ?g" using 2(3,6) sim(3-5) by (intro mine_here) simp_all
    moreover have "duo_sim e i j both x' ?g"
      using 2 sim under_way_receive [OF sim(7), of "[Announced c]"] first_moves(2) by (auto simp: duo_sim_def)
    ultimately show ?thesis by blast
  next
    case (3 c r bs)
    let ?g = "g\<lparr>here := node_chain (world a'), to_here := bs\<rparr>"
    have "gossip_step (sha e) both g ?g" using 3 sim(4,5) by (intro hear_here) simp_all
    moreover have "duo_sim e i j both x' ?g" using 3 sim first_moves(2) by (auto simp: duo_sim_def)
    ultimately show ?thesis by blast
  qed
next
  case (second_moves b b' a)
  from assms(2) second_moves(1) have sim: "clean e i a" "clean e j b" "both \<or> \<not> mining b"
    "here g = node_chain (world a)" "there g = node_chain (world b)" "under_way i a (to_here g)" "under_way j b (to_there g)"
    by (simp_all add: duo_sim_def)
  show ?thesis
  proof (cases rule: side_step_abs [OF second_moves(3) sim(2) assms(3,4) sim(7)])
    case (1 out)
    then have "duo_sim e i j both x' g"
      using sim under_way_receive [OF sim(6), of out] second_moves(2,4) by (auto simp: duo_sim_def)
    then show ?thesis by blast
  next
    case (2 c)
    let ?g = "g\<lparr>there := node_chain (world b'), to_here := to_here g @ [c]\<rparr>"
    have "gossip_step (sha e) both g ?g" using 2(3,6) sim(3-5) by (intro mine_there) simp_all
    moreover have "duo_sim e i j both x' ?g"
      using 2 sim under_way_receive [OF sim(6), of "[Announced c]"] second_moves(2,4) by (auto simp: duo_sim_def)
    ultimately show ?thesis by blast
  next
    case (3 c r bs)
    let ?g = "g\<lparr>there := node_chain (world b'), to_there := bs\<rparr>"
    have "gossip_step (sha e) both g ?g" using 3 sim(4,5) by (intro hear_there) simp_all
    moreover have "duo_sim e i j both x' ?g" using 3 sim second_moves(2,4) by (auto simp: duo_sim_def)
    ultimately show ?thesis by blast
  qed
qed

lemma duo_sim_steps:
  assumes "(duo_step e cr ctime i j both)\<^sup>*\<^sup>* x x'" "duo_sim e i j both x g" "reliable e" "crypto_bounds cr"
  shows "\<exists>g'. (gossip_step (sha e) both)\<^sup>*\<^sup>* g g' \<and> duo_sim e i j both x' g'"
  using assms(1)
proof (induction rule: rtranclp_induct)
  case (step y z)
  then obtain g1 where g1: "(gossip_step (sha e) both)\<^sup>*\<^sup>* g g1" "duo_sim e i j both y g1" by blast
  from duo_sim_step [OF step.hyps(2) g1(2) assms(3,4)] g1(1) show ?case by (meson rtranclp_trans)
qed (use assms(2) in blast)

text \<open>The protocol at the start of a connection on which nothing is under way.\<close>

definition fresh_gossip :: "'k system \<Rightarrow> 'k system \<Rightarrow> gossip" where
  "fresh_gossip a b = \<lparr>here = node_chain (world a), there = node_chain (world b), to_there = [], to_here = []\<rparr>"

lemma fresh_sim:
  assumes "clean e i a" "clean e j b" "incoming a i = []" "incoming b j = []" "both \<or> \<not> mining b"
  shows "duo_sim e i j both (a, b) (fresh_gossip a b)"
proof -
  have "under_way i a []" "under_way j b []"
    using assms(3,4) by (auto simp: under_way_def intro!: exI [of _ "[]"])
  with assms show ?thesis by (simp add: duo_sim_def fresh_gossip_def)
qed

text \<open>The second program can take everything that is under way.\<close>

lemma hear_next:
  assumes "clean e j b" "running (world b)" "incoming b j = stream (p # ps)" "parcel_wire p" "reliable e" "crypto_bounds cr"
  shows "\<exists>b'. (\<forall>a. \<not> mining b \<longrightarrow> duo_step e cr ctime i j both (a, b) (a, b')) \<and> clean e j b' \<and> running (world b')
    \<and> mining b' = mining b \<and> incoming b' j = stream ps
    \<and> (case p of Paid t \<Rightarrow> node_chain (world b') = node_chain (world b)
       | Announced c \<Rightarrow> \<exists>r. chain_add_block (sha e) (node_chain (world b)) c = Some (r, node_chain (world b')))"
proof -
  have w: "world_inv e (world b)" "world_wire (world b)" "connected j (world b)" "sys_inv e b"
    using assms(1,2) by (simp_all add: clean_def sys_inv_def)
  then have j: "j < length (peers (world b))" "active (peers (world b) ! j)" by (simp_all add: connected_def)
  obtain n where n: "peer_recv e (app_callbacks e) j (world b) (incoming b j) = Some (n, stream ps, True)"
    "world_wire n" "same_sockets (world b) n" "delivered (slot_fd j b) (world b) n = []"
    "case p of Paid t \<Rightarrow> node_chain n = node_chain (world b)
       | Announced c \<Rightarrow> \<exists>r. chain_add_block (sha e) (node_chain (world b)) c = Some (r, node_chain n)"
    using hear_parcel [OF assms(4,5) w(1,2) j(1), of ps] assms(3) by auto
  let ?b = "b\<lparr>world := n, incoming := (incoming b)(j := stream ps)\<rparr>"
  have step: "side_step e cr ctime j b ?b"
    using next_frame_stream [OF assms(4), of ps] assms(3) by (intro hears [OF j(1) assms(2) j(2) _ n(1)]) simp
  have "malloc e MAX_MSG_SIZE" using reliable_malloc(1) [OF assms(5)] by (simp add: alloc_ok_def)
  then have "sys_inv e ?b" using sys_steps_inv [OF side_step_sys [OF step w(4)] w(4) assms(6)] by simp
  then have "clean e j ?b" using clean_same [OF assms(1), of ?b] n(2,3) assms(1) by (simp add: clean_def)
  moreover have "duo_step e cr ctime i j both (a, b) (a, ?b)" if "\<not> mining b" for a
    using second_moves [OF step, of both i a] that n(4) by (simp add: mining_def)
  ultimately show ?thesis
    using n(3,5) assms(2) by (intro exI [of _ ?b]) (cases p; simp add: mining_def same_sockets_def)
qed

lemma drain:
  assumes "clean e j b" "running (world b)" "\<not> mining b" "under_way j b bs" "reliable e" "crypto_bounds cr"
    "catch_up (sha e) (node_chain (world b)) bs = Some c"
  shows "\<exists>b'. (duo_step e cr ctime i j both)\<^sup>*\<^sup>* (a, b) (a, b') \<and> incoming b' j = [] \<and> node_chain (world b') = c"
proof -
  obtain ps where "incoming b j = stream ps" "\<forall>p \<in> set ps. parcel_wire p" "bs = announced ps"
    using assms(4) by (auto simp: under_way_def)
  with assms(1-3,7) show ?thesis
  proof (induction ps arbitrary: b bs)
    case Nil
    then show ?case by auto
  next
    case (Cons p ps)
    have wire: "parcel_wire p" using Cons.prems by simp
    from hear_next [OF Cons.prems(1,2,5) wire assms(5,6), of ctime i both] obtain b1 where
      b1: "\<forall>a. \<not> mining b \<longrightarrow> duo_step e cr ctime i j both (a, b) (a, b1)" "clean e j b1" "running (world b1)"
        "mining b1 = mining b" "incoming b1 j = stream ps"
        "case p of Paid t \<Rightarrow> node_chain (world b1) = node_chain (world b)
           | Announced x \<Rightarrow> \<exists>r. chain_add_block (sha e) (node_chain (world b)) x = Some (r, node_chain (world b1))"
      by blast
    have "catch_up (sha e) (node_chain (world b1)) (announced ps) = Some c"
      using Cons.prems(4,7) b1(6) by (cases p) (auto simp: take_block_eq split: if_splits)
    from Cons.IH [OF b1(2,3) _ this b1(5)] b1(1,4) Cons.prems(3,6) show ?case
      by (auto intro: converse_rtranclp_into_rtranclp)
  qed
qed

section \<open>A concrete connection\<close>

text \<open>Steps of the main thread are steps of the pair, as long as no connection is opened.\<close>

lemma main_step_opened: "main_step e cr ctime s s' \<Longrightarrow> \<exists>fds. opened s' = opened s @ fds"
  by (cases rule: main_step.cases) auto

lemma main_steps_duo:
  assumes "(main_step e cr ctime)\<^sup>*\<^sup>* a a'" "opened a' = opened a"
  shows "\<exists>b'. (duo_step e cr ctime i j both)\<^sup>*\<^sup>* (a, b) (a', b') \<and> world b' = world b"
proof -
  have "\<exists>fds. opened a' = opened a @ fds \<and> (fds = [] \<longrightarrow>
      (\<exists>b'. (duo_step e cr ctime i j both)\<^sup>*\<^sup>* (a, b) (a', b') \<and> world b' = world b))"
    using assms(1)
  proof (induction rule: rtranclp_induct)
    case (step y z)
    obtain f1 f2 where f: "opened y = opened a @ f1" "opened z = opened y @ f2"
      and IH: "f1 = [] \<Longrightarrow> \<exists>b'. (duo_step e cr ctime i j both)\<^sup>*\<^sup>* (a, b) (y, b') \<and> world b' = world b"
      using step.IH main_step_opened [OF step.hyps(2)] by blast
    have "\<exists>b'. (duo_step e cr ctime i j both)\<^sup>*\<^sup>* (a, b) (z, b') \<and> world b' = world b" if none: "f1 @ f2 = []"
    proof -
      obtain b1 where b1: "(duo_step e cr ctime i j both)\<^sup>*\<^sup>* (a, b) (y, b1)" "world b1 = world b" using IH none by blast
      have "side_step e cr ctime i y z" using f none by (intro acts [OF step.hyps(2)]) simp
      from first_moves [OF this, of j both b1] b1 show ?thesis
        by (intro exI [of _ "receive j (delivered (slot_fd i y) (world y) (world z)) b1"])
          (simp add: rtranclp.rtrancl_into_rtrancl)
    qed
    with f show ?case by (intro exI [of _ "f1 @ f2"]) simp
  qed auto
  with assms(2) show ?thesis by auto
qed

text \<open>A program with one connection, on descriptor 4.\<close>

definition demo_side :: "string \<Rightarrow> blockchain_t \<Rightarrow> u8 system" where
  "demo_side inp c = \<lparr>world = (demo_world [])\<lparr>node_chain := c\<rparr>, pc = AtMenu, typed = inp, incoming = (\<lambda>_. []),
     waiting = {}, arriving = None, opened = [3, 4]\<rparr>"

lemma demo_side_sel [simp]:
  "node_chain (world (demo_side inp c)) = c" "incoming (demo_side inp c) k = []" "\<not> mining (demo_side inp c)"
  "running (world (demo_side inp c))" "pc (demo_side inp c) = AtMenu" "typed (demo_side inp c) = inp"
  by (simp_all add: demo_side_def mining_def)

lemma demo_side_clean:
  assumes "chain_inv zero_sha c" "\<forall>b \<in> set (blocks c). block_wire b" "typeable inp"
  shows "clean demo_env 0 (demo_side inp c)"
proof -
  have "world_inv demo_env (world (demo_side inp c))"
    using demo_world_inv [of "[]"] assms(1) by (simp add: node_inv_def demo_side_def)
  then have "sys_inv demo_env (demo_side inp c)"
    by (simp add: sys_inv_def pc_ok_def slots_ok_def held_def arrived_def) (simp add: demo_side_def demo_world_def)
  moreover have "connected 0 (world (demo_side inp c))" by (simp add: connected_def demo_side_def demo_world_def)
  moreover have "world_wire (world (demo_side inp c))"
    using assms(2) by (simp add: world_wire_def demo_side_def demo_world_def demo_wallet_def)
  ultimately show ?thesis using assms(3) by (simp add: clean_def pc_wire_def)
qed

lemma demo_typeable: "typeable (''1'' @ LF @ [])" "typeable []"
  by (simp_all add: typeable_def plain_char_def is_space_def char_code_def)

text \<open>A user mines a block.\<close>

lemma demo_main_mines:
  assumes "node_chain (world s) = demo_chain" "app (world s) = app (demo_world [])" "length (peers (world s)) \<le> MAX_PEERS"
    "pc s = AtMenu" "typed s = ''1'' @ LF @ []"
  shows "\<exists>n. (main_step demo_env demo_crypto (\<lambda>_. Some LF))\<^sup>*\<^sup>* s (s\<lparr>world := n, pc := AtMenu, typed := LF @ []\<rparr>)
    \<and> chain_length (node_chain n) = 3 \<and> running n = running (world s)"
proof -
  let ?w = "world s" and ?p = "s\<lparr>pc := Prompt\<rparr>"
  have inv: "world_inv demo_env ?w" using demo_world_inv [of "[]"] assms(1-3) by (simp add: node_inv_def)
  have sel: "mempool (app ?w) = []" "wallet (app ?w) = demo_wallet" "\<not> quit_flag (app ?w)"
    by (simp_all add: assms(2)) (simp add: demo_world_def)
  obtain n where n: "do_mine demo_env 1800000000 ?w = Some n"
    using do_mine_returns [OF demo_env_facts(1) inv, of 1800000000] assms(1) sel(1) by (auto simp: i64_ok_def zero_sha_pow)
  obtain x fds where "only_sends ((set_mempool ?w [])\<lparr>node_chain := \<lparr>blocks = blocks demo_chain @ [x]\<rparr>\<rparr>) fds n"
    using do_mine_chain [OF inv _ _ n] assms(1) by (auto simp: i64_ok_def)
  from only_sendsD(1,3) [OF this] have end_state: "chain_length (node_chain n) = 3" "running n = running ?w"
    by (simp_all add: chain_length_def demo_chain_def)
  obtain m where m: "print_menu ?w = Some m" by (simp add: print_menu_def demo_balance assms(1))
  have "main_step demo_env demo_crypto (\<lambda>_. Some LF) s ?p" by (rule show_menu [OF assms(4) _ m]) (use sel in simp_all)
  moreover have "scan_s 15 (''1'' @ LF @ []) = (Some ''1'', LF @ [])"
    by (rule choice_line) (simp_all add: is_space_def char_code_def)
  then have "(main_step demo_env demo_crypto (\<lambda>_. Some LF))\<^sup>*\<^sup>* ?p (?p\<lparr>world := n, pc := AtMenu, typed := LF @ []\<rparr>)"
    using n assms(5) by (intro mine_path [where c = "''1''" and now = 1800000000])
      (simp_all add: menu_choice_def strcmp_eq_def i64_ok_def)
  ultimately have "(main_step demo_env demo_crypto (\<lambda>_. Some LF))\<^sup>*\<^sup>* s (?p\<lparr>world := n, pc := AtMenu, typed := LF @ []\<rparr>)"
    by (rule converse_rtranclp_into_rtranclp)
  with end_state show ?thesis by auto
qed

lemma demo_mined:
  "\<exists>a b'. (duo_step demo_env demo_crypto (\<lambda>_. Some LF) 0 0 both)\<^sup>*\<^sup>* (demo_side (''1'' @ LF @ []) demo_chain, b) (a, b')
    \<and> chain_length (node_chain (world a)) = 3 \<and> world b' = world b"
proof -
  let ?a = "demo_side (''1'' @ LF @ []) demo_chain"
  have "app (world ?a) = app (demo_world [])" "length (peers (world ?a)) \<le> MAX_PEERS"
    by (simp_all add: demo_side_def demo_world_def MAX_PEERS_def)
  then obtain n where run: "(main_step demo_env demo_crypto (\<lambda>_. Some LF))\<^sup>*\<^sup>* ?a (?a\<lparr>world := n, pc := AtMenu, typed := LF @ []\<rparr>)"
    "chain_length (node_chain n) = 3" using demo_main_mines [of ?a] by auto
  from main_steps_duo [OF run(1), of 0 0 both b] run(2) show ?thesis by fastforce
qed

section \<open>Properties\<close>



text \<open>
  One miner: as long as the second user does not mine, the two nodes agree. Whenever nothing is under way
  to the second node it has the first node's chain, and at any time at which it runs it gets there by
  doing nothing but reading its socket.
\<close>

theorem one_miner_agrees:
  assumes "reliable e" "crypto_bounds cr" "clean e i a" "clean e j b" "incoming a i = []" "incoming b j = []"
    "\<not> mining b" "node_chain (world b) = node_chain (world a)"
    "(duo_step e cr ctime i j False)\<^sup>*\<^sup>* (a, b) (a', b')"
  shows "(incoming b' j = [] \<longrightarrow> node_chain (world b') = node_chain (world a'))
    \<and> (running (world b') \<longrightarrow> (\<exists>b''. (duo_step e cr ctime i j False)\<^sup>*\<^sup>* (a', b') (a', b'')
         \<and> incoming b'' j = [] \<and> node_chain (world b'') = node_chain (world a')))"
proof -
  have "behind (sha e) (fresh_gossip a b)" using assms(8) by (simp add: behind_def fresh_gossip_def)
  moreover obtain g where g: "(gossip_step (sha e) False)\<^sup>*\<^sup>* (fresh_gossip a b) g" "duo_sim e i j False (a', b') g"
    using duo_sim_steps [OF assms(9) fresh_sim [OF assms(3-6)] assms(1,2)] assms(7) by blast
  ultimately have up: "catch_up (sha e) (node_chain (world b')) (to_there g) = Some (node_chain (world a'))"
    using behind_steps [OF g(1)] by (simp add: behind_def duo_sim_def)
  have sim: "clean e j b'" "\<not> mining b'" "under_way j b' (to_there g)" using g(2) by (simp_all add: duo_sim_def)
  obtain ps where "incoming b' j = stream ps" "to_there g = announced ps" using sim(3) by (auto simp: under_way_def)
  with up have "incoming b' j = [] \<longrightarrow> node_chain (world b') = node_chain (world a')" by (cases ps) auto
  with drain [OF sim(1) _ sim(2,3) assms(1,2) up, of ctime i False a'] show ?thesis by blast
qed

theorem one_miner_agrees_witness:
  "\<exists>a b. (duo_step demo_env demo_crypto (\<lambda>_. Some LF) 0 0 False)\<^sup>*\<^sup>*
      (demo_side (''1'' @ LF @ []) demo_chain, demo_side [] demo_chain) (a, b)
    \<and> node_chain (world b) = node_chain (world a) \<and> chain_length (node_chain (world b)) = 3"
proof -
  let ?a = "demo_side (''1'' @ LF @ []) demo_chain" and ?b = "demo_side [] demo_chain"
  have "\<forall>b \<in> set (blocks demo_chain). block_wire b" by (simp add: demo_chain_def)
  then have c: "clean demo_env 0 ?a" "clean demo_env 0 ?b"
    using demo_typeable demo_side_clean [OF demo_chain_inv(1)] by blast+
  obtain a b' where run: "(duo_step demo_env demo_crypto (\<lambda>_. Some LF) 0 0 False)\<^sup>*\<^sup>* (?a, ?b) (a, b')"
    "chain_length (node_chain (world a)) = 3" "world b' = world ?b" using demo_mined by blast
  from run(3) have "running (world b')" by simp
  moreover note one_miner_agrees [OF demo_env_facts(1) demo_crypto_bounds c _ _ _ _ run(1)]
  ultimately obtain b where
    b: "(duo_step demo_env demo_crypto (\<lambda>_. Some LF) 0 0 False)\<^sup>*\<^sup>* (a, b') (a, b)" "node_chain (world b) = node_chain (world a)"
    by (simp only: demo_side_sel) blast
  from rtranclp_trans [OF run(1) b(1)] b(2) run(2) show ?thesis by (intro exI [of _ a] exI [of _ b]) simp
qed

text \<open>
  C34. Two miners: a fork is for ever. When the two chains hold different blocks at some place, no number of
  further blocks, mined by either user and announced to the other, changes either of these two blocks: nodes
  that stay connected never ask for a chain again.
\<close>

theorem fork_persists:
  assumes "reliable e" "crypto_bounds cr" "clean e i a" "clean e j b" "incoming a i = []" "incoming b j = []"
    "k < length (blocks (node_chain (world a)))" "k < length (blocks (node_chain (world b)))"
    "blocks (node_chain (world a)) ! k \<noteq> blocks (node_chain (world b)) ! k"
    "(duo_step e cr ctime i j True)\<^sup>*\<^sup>* (a, b) (a', b')"
  shows "blocks (node_chain (world a')) ! k = blocks (node_chain (world a)) ! k
    \<and> blocks (node_chain (world b')) ! k = blocks (node_chain (world b)) ! k
    \<and> node_chain (world a') \<noteq> node_chain (world b')"
proof -
  obtain g where g: "(gossip_step (sha e) True)\<^sup>*\<^sup>* (fresh_gossip a b) g" "duo_sim e i j True (a', b') g"
    using duo_sim_steps [OF assms(10) fresh_sim [OF assms(3-6)] assms(1,2)] by blast
  then have "extends (node_chain (world a)) (node_chain (world a'))" "extends (node_chain (world b)) (node_chain (world b'))"
    using gossip_extends [OF g(1)] by (simp_all add: fresh_gossip_def duo_sim_def)
  with extends_nth assms(7-9) show ?thesis by metis
qed

theorem fork_persists_witness:
  "\<exists>a b. (duo_step demo_env demo_crypto (\<lambda>_. Some LF) 0 0 True)\<^sup>*\<^sup>*
      (demo_side (''1'' @ LF @ []) demo_chain,
       demo_side [] \<lparr>blocks = [demo_genesis, demo_block\<lparr>timestamp := 1700000001\<rparr>]\<rparr>) (a, b)
    \<and> chain_length (node_chain (world a)) = 3 \<and> node_chain (world a) \<noteq> node_chain (world b)"
proof -
  let ?x = "demo_block\<lparr>timestamp := 1700000001\<rparr>"
  let ?c = "\<lparr>blocks = [demo_genesis, ?x]\<rparr>"
  let ?a = "demo_side (''1'' @ LF @ []) demo_chain" and ?b = "demo_side [] ?c"
  have ok: "block_ok ?x" using demo_block_facts(2) by (simp add: block_ok_def block_shape_def i64_ok_def)
  have "block_wire ?x" using demo_wire(3) ok by (simp add: block_wire_def block_txs_def)
  then have wire: "\<forall>b \<in> set (blocks demo_chain). block_wire b" "\<forall>b \<in> set (blocks ?c). block_wire b"
    by (simp_all add: demo_chain_def)
  have "link_ok zero_sha demo_genesis ?x" using demo_block_facts(5) by (simp add: link_ok_def sealed_def)
  then have "chain_inv zero_sha ?c"
    using demo_chain_inv(2) block_okD(1) [OF ok] links_snoc [of "[demo_genesis]" zero_sha ?x]
    by (simp add: chain_inv_def chain_shape_def chain_length_def MAX_BLOCKS_def)
  then have c: "clean demo_env 0 ?a" "clean demo_env 0 ?b"
    using demo_typeable demo_side_clean demo_chain_inv(1) wire by blast+
  obtain a b where run: "(duo_step demo_env demo_crypto (\<lambda>_. Some LF) 0 0 True)\<^sup>*\<^sup>* (?a, ?b) (a, b)"
    "chain_length (node_chain (world a)) = 3" using demo_mined by blast
  have "timestamp demo_block \<noteq> timestamp ?x" by (simp add: demo_block_def)
  then have "demo_block \<noteq> ?x" by metis
  with fork_persists [OF demo_env_facts(1) demo_crypto_bounds c _ _ _ _ _ run(1), of 1] run show ?thesis
    by (auto simp: demo_chain_def)
qed

end
