(* ===== verification/Flood.thy ===== *)
theory Flood
  imports Prelude
begin

text \<open>
  How blocks spread in a network of nodes, without the programs around it: a block is its position in the
  chain, a node is the number of blocks it has. One node mines; every node that learns a block passes it
  on to all its other neighbours, and ignores what it knows or cannot append. \<open>Mesh\<close> shows that connected
  programs are an instance.
\<close>

section \<open>The network\<close>

text \<open>
  A socket is a node and one of its slots; \<open>wire\<close> joins the two ends of every connection. There may be
  several connections between two nodes, and cycles.
\<close>

type_synonym socket = "nat \<times> nat"

definition topology :: "(socket \<Rightarrow> socket option) \<Rightarrow> bool" where
  "topology wire \<longleftrightarrow> finite (dom wire) \<and> (\<forall>x y. wire x = Some y \<longrightarrow> wire y = Some x \<and> fst x \<noteq> fst y)"

definition nodes :: "(socket \<Rightarrow> socket option) \<Rightarrow> nat set" where
  "nodes wire = fst ` dom wire"

definition linked :: "(socket \<Rightarrow> socket option) \<Rightarrow> nat \<Rightarrow> nat \<Rightarrow> bool" where
  "linked wire v u \<longleftrightarrow> (\<exists>x y. wire x = Some y \<and> fst x = v \<and> fst y = u)"

record flood =
  height :: "nat \<Rightarrow> nat"
  line :: "socket \<Rightarrow> nat list"

text \<open>Node \<open>v\<close> sends block \<open>n\<close> on those of its slots that satisfy \<open>sel\<close>.\<close>

definition passes :: "(socket \<Rightarrow> socket option) \<Rightarrow> nat \<Rightarrow> (socket \<Rightarrow> bool) \<Rightarrow> socket \<Rightarrow> bool" where
  "passes wire v sel x \<longleftrightarrow> (\<exists>y. wire x = Some y \<and> fst y = v \<and> sel y)"

definition pass :: "(socket \<Rightarrow> socket option) \<Rightarrow> nat \<Rightarrow> (socket \<Rightarrow> bool) \<Rightarrow> nat \<Rightarrow> (socket \<Rightarrow> nat list) \<Rightarrow> socket \<Rightarrow> nat list" where
  "pass wire v sel n ln = (\<lambda>x. if passes wire v sel x then ln x @ [n] else ln x)"

inductive hear :: "(socket \<Rightarrow> socket option) \<Rightarrow> flood \<Rightarrow> flood \<Rightarrow> bool"
  for wire :: "socket \<Rightarrow> socket option" where
  learned: "x \<in> dom wire \<Longrightarrow> line f x = n # ns \<Longrightarrow> height f (fst x) = n \<Longrightarrow>
    hear wire f (f\<lparr>height := (height f)(fst x := Suc n), line := pass wire (fst x) (\<lambda>y. y \<noteq> x) n ((line f)(x := ns))\<rparr>)"
| known: "x \<in> dom wire \<Longrightarrow> line f x = n # ns \<Longrightarrow> height f (fst x) \<noteq> n \<Longrightarrow>
    hear wire f (f\<lparr>line := (line f)(x := ns)\<rparr>)"

inductive flood_step :: "(socket \<Rightarrow> socket option) \<Rightarrow> nat \<Rightarrow> flood \<Rightarrow> flood \<Rightarrow> bool"
  for wire :: "socket \<Rightarrow> socket option" and m :: nat where
  mined: "flood_step wire m f
    (f\<lparr>height := (height f)(m := Suc (height f m)), line := pass wire m (\<lambda>_. True) (height f m) (line f)\<rparr>)"
| heard: "hear wire f f' \<Longrightarrow> flood_step wire m f f'"

section \<open>What is under way\<close>

text \<open>Where a node gets that has \<open>h\<close> blocks and reads \<open>ns\<close>.\<close>

definition advance :: "nat \<Rightarrow> nat list \<Rightarrow> nat" where
  "advance h ns = foldl (\<lambda>h n. if n = h then Suc h else h) h ns"

lemma advance_simps [simp]:
  "advance h [] = h" "advance h (n # ns) = advance (if n = h then Suc h else h) ns"
  "advance h (ns @ [n]) = (if n = advance h ns then Suc (advance h ns) else advance h ns)"
  by (simp_all add: advance_def)

lemma advance_mono: "h \<le> h' \<Longrightarrow> advance h ns \<le> advance h' ns"
proof (induction ns arbitrary: h h')
  case (Cons n ns)
  then show ?case by (auto intro!: Cons.IH)
qed simp

lemma advance_ge: "h \<le> advance h ns"
proof (induction ns arbitrary: h)
  case (Cons n ns)
  from Cons [of h] Cons [of "Suc h"] show ?case by auto
qed simp

text \<open>
  The invariant: on every connection, what is under way brings the receiver at least to where the sender
  is, the sender has everything that it has sent, and nobody is ahead of the miner.
\<close>

definition flood_inv :: "(socket \<Rightarrow> socket option) \<Rightarrow> nat \<Rightarrow> flood \<Rightarrow> bool" where
  "flood_inv wire m f \<longleftrightarrow> (\<forall>v \<in> nodes wire. height f v \<le> height f m)
     \<and> (\<forall>x y. wire x = Some y \<longrightarrow> height f (fst y) \<le> advance (height f (fst x)) (line f x)
         \<and> (\<forall>n \<in> set (line f x). n < height f (fst y)))"

lemma topologyD: "topology wire \<Longrightarrow> wire x = Some y \<Longrightarrow> wire y = Some x \<and> fst x \<noteq> fst y"
  unfolding topology_def by blast

lemma flood_invD:
  "flood_inv wire m f \<Longrightarrow> wire x = Some y \<Longrightarrow> height f (fst y) \<le> advance (height f (fst x)) (line f x)
     \<and> (\<forall>n \<in> set (line f x). n < height f (fst y))"
  "flood_inv wire m f \<Longrightarrow> v \<in> nodes wire \<Longrightarrow> height f v \<le> height f m"
  unfolding flood_inv_def by blast+

lemma flood_invI:
  assumes "\<And>v. v \<in> nodes wire \<Longrightarrow> height f v \<le> height f m"
    "\<And>x y. wire x = Some y \<Longrightarrow> height f (fst y) \<le> advance (height f (fst x)) (line f x)
       \<and> (\<forall>n \<in> set (line f x). n < height f (fst y))"
  shows "flood_inv wire m f"
  unfolding flood_inv_def using assms by blast

lemma wire_nodes: "wire x = Some y \<Longrightarrow> topology wire \<Longrightarrow> fst x \<in> nodes wire \<and> fst y \<in> nodes wire"
  unfolding nodes_def topology_def by (metis domI imageI)

text \<open>Nobody is ahead of the miner, and nothing is under way that the miner does not have.\<close>

definition bounded :: "(socket \<Rightarrow> socket option) \<Rightarrow> nat \<Rightarrow> flood \<Rightarrow> bool" where
  "bounded wire m f \<longleftrightarrow> (\<forall>v \<in> nodes wire. height f v \<le> height f m)
     \<and> (\<forall>x \<in> dom wire. \<forall>n \<in> set (line f x). n < height f m)"

lemma flood_bounded:
  assumes "flood_inv wire m f" "topology wire"
  shows "bounded wire m f"
proof -
  have "n < height f m" if "wire x = Some y" "n \<in> set (line f x)" for x y n
    using flood_invD(1) [OF assms(1) that(1)] flood_invD(2) [OF assms(1)] wire_nodes [OF that(1) assms(2)] that(2)
    by (meson less_le_trans)
  then show ?thesis using flood_invD(2) [OF assms(1)] unfolding bounded_def by blast
qed

lemma pass_wire: "wire x = Some y \<Longrightarrow> pass wire v sel n ln x = (if fst y = v \<and> sel y then ln x @ [n] else ln x)"
  by (cases y) (auto simp: pass_def passes_def)

lemma mined_inv:
  assumes "topology wire" "flood_inv wire m f" "f' = f\<lparr>height := (height f)(m := Suc (height f m)),
      line := pass wire m (\<lambda>_. True) (height f m) (line f)\<rparr>"
  shows "flood_inv wire m f'"
proof (rule flood_invI)
  fix x y assume w: "wire x = Some y"
  note old = flood_invD(1) [OF assms(2) w] and ends = topologyD [OF assms(1) w]
  show "height f' (fst y) \<le> advance (height f' (fst x)) (line f' x) \<and> (\<forall>n \<in> set (line f' x). n < height f' (fst y))"
  proof (cases "fst y = m")
    case True
    then show ?thesis using old ends by (auto simp: assms(3) pass_wire [of wire, OF w])
  next
    case False
    have "advance (height f (fst x)) (line f x) \<le> advance (height f' (fst x)) (line f x)"
      by (rule advance_mono) (simp add: assms(3))
    then show ?thesis using old False by (simp add: assms(3) pass_wire [of wire, OF w])
  qed
qed (use flood_invD(2) [OF assms(2)] in \<open>simp add: assms(3) le_SucI\<close>)

lemma learned_inv:
  assumes "topology wire" "flood_inv wire m f" "x \<in> dom wire" "line f x = n # ns" "height f (fst x) = n"
    "f' = f\<lparr>height := (height f)(fst x := Suc n), line := pass wire (fst x) (\<lambda>y. y \<noteq> x) n ((line f)(x := ns))\<rparr>"
  shows "flood_inv wire m f' \<and> n < height f m \<and> height f' m = height f m"
proof -
  obtain y where y: "wire x = Some y" using assms(3) by blast
  have n: "n < height f (fst y)" using flood_invD(1) [OF assms(2) y] assms(4) by simp
  moreover have "height f (fst y) \<le> height f m" using flood_invD(2) [OF assms(2)] wire_nodes [OF y assms(1)] by blast
  ultimately have m: "fst x \<noteq> m" "Suc n \<le> height f m" using assms(5) by auto
  have "flood_inv wire m f'"
  proof (rule flood_invI)
    fix u v assume w: "wire u = Some v"
    note old = flood_invD(1) [OF assms(2) w] and ends = topologyD [OF assms(1) w]
    have ln: "line f' u = (if fst v = fst x \<and> v \<noteq> x then ((line f)(x := ns)) u @ [n] else ((line f)(x := ns)) u)"
      using pass_wire [of wire, OF w] by (simp add: assms(6))
    have ht: "height f' k = (if k = fst x then Suc n else height f k)" for k by (simp add: assms(6))
    consider "u = x" | "v = x" | "u \<noteq> x" "v \<noteq> x" by blast
    then show "height f' (fst v) \<le> advance (height f' (fst u)) (line f' u) \<and> (\<forall>k \<in> set (line f' u). k < height f' (fst v))"
    proof cases
      case 1
      have "line f' x = ns" using ln 1 ends by simp
      then show ?thesis using 1 old ends assms(4,5) by (simp add: ht)
    next
      case 2
      then have u: "u = y" using ends y by simp
      then have "line f' y = line f y" using ln 2 ends by auto
      then show ?thesis using 2 u old ends n advance_ge [of "height f (fst y)" "line f y"] assms(5)
        by (auto simp: ht)
    next
      case 3
      have "advance (height f (fst u)) (line f u) \<le> advance (height f' (fst u)) (line f u)"
        using assms(5) by (intro advance_mono) (simp add: ht)
      then show ?thesis using 3 old ends assms(5) by (auto simp: ln ht)
    qed
  next
    fix v assume "v \<in> nodes wire"
    then show "height f' v \<le> height f' m" using flood_invD(2) [OF assms(2)] m by (simp add: assms(6))
  qed
  then show ?thesis using m by (simp add: assms(6))
qed

lemma known_inv:
  assumes "flood_inv wire m f" "line f x = n # ns" "height f (fst x) \<noteq> n"
  shows "flood_inv wire m (f\<lparr>line := (line f)(x := ns)\<rparr>)"
proof (rule flood_invI)
  fix u v assume w: "wire u = Some v"
  show "height (f\<lparr>line := (line f)(x := ns)\<rparr>) (fst v) \<le> advance (height (f\<lparr>line := (line f)(x := ns)\<rparr>) (fst u))
      (line (f\<lparr>line := (line f)(x := ns)\<rparr>) u)
    \<and> (\<forall>n \<in> set (line (f\<lparr>line := (line f)(x := ns)\<rparr>) u). n < height (f\<lparr>line := (line f)(x := ns)\<rparr>) (fst v))"
    using flood_invD(1) [OF assms(1) w] assms(2,3) by (cases "u = x") auto
qed (use flood_invD(2) [OF assms(1)] in simp)

lemma hear_inv:
  assumes "hear wire f f'" "topology wire" "flood_inv wire m f"
  shows "flood_inv wire m f' \<and> height f' m = height f m"
  using assms(1)
proof cases
  case (learned x n ns)
  from learned_inv [OF assms(2,3) learned(2-4,1)] show ?thesis by blast
next
  case (known x n ns)
  from known_inv [OF assms(3) known(3,4)] known(1) show ?thesis by simp
qed

lemma flood_step_inv:
  assumes "flood_step wire m f f'" "topology wire" "flood_inv wire m f"
  shows "flood_inv wire m f'"
  using assms(1)
proof cases
  case mined
  from mined_inv [OF assms(2,3) mined] show ?thesis .
next
  case heard
  from hear_inv [OF heard assms(2,3)] show ?thesis by blast
qed

lemma flood_steps_inv:
  "(flood_step wire m)\<^sup>*\<^sup>* f f' \<Longrightarrow> topology wire \<Longrightarrow> flood_inv wire m f \<Longrightarrow> flood_inv wire m f'"
  by (induction rule: rtranclp_induct) (auto intro: flood_step_inv)

section \<open>Agreement\<close>

lemma flood_agrees:
  assumes "topology wire" "flood_inv wire m f" "\<forall>x \<in> dom wire. line f x = []" "(linked wire)\<^sup>*\<^sup>* m v"
  shows "height f v = height f m"
  using assms(4)
proof (induction rule: rtranclp_induct)
  case (step u v)
  then obtain x y where x: "wire x = Some y" "fst x = u" "fst y = v" unfolding linked_def by blast
  then have y: "wire y = Some x" using topologyD [OF assms(1)] by blast
  then have "line f y = []" using assms(3) by blast
  then have "height f u \<le> height f v" using flood_invD(1) [OF assms(2) y] x by simp
  moreover have "height f v \<le> height f m" using flood_invD(2) [OF assms(2)] wire_nodes [OF x(1) assms(1)] x(3) by blast
  ultimately show ?case using step.IH by simp
qed simp

text \<open>
  Hearing comes to an end: what a node learns brings it nearer to the miner, by more than the copies weigh
  that it passes on.
\<close>

definition gap :: "(socket \<Rightarrow> socket option) \<Rightarrow> nat \<Rightarrow> flood \<Rightarrow> nat" where
  "gap wire m f = (\<Sum>v \<in> nodes wire. height f m - height f v)"

definition load :: "(socket \<Rightarrow> socket option) \<Rightarrow> flood \<Rightarrow> nat" where
  "load wire f = (\<Sum>x \<in> dom wire. length (line f x))"

definition effort :: "(socket \<Rightarrow> socket option) \<Rightarrow> nat \<Rightarrow> flood \<Rightarrow> nat" where
  "effort wire m f = gap wire m f * card (dom wire) + load wire f"

lemma finite_wire: "topology wire \<Longrightarrow> finite (dom wire) \<and> finite (nodes wire)"
  by (simp add: topology_def nodes_def)

lemma gap_learned:
  assumes "topology wire" "v \<in> nodes wire" "height f v < height f m" "height f' = (height f)(v := Suc (height f v))"
  shows "gap wire m f = Suc (gap wire m f')"
proof -
  note fin = finite_wire [OF assms(1)]
  have m: "height f' m = height f m" using assms(3,4) by auto
  have "gap wire m f = (height f m - height f v) + (\<Sum>u \<in> nodes wire - {v}. height f m - height f u)"
    unfolding gap_def using fin assms(2) by (simp add: sum.remove)
  moreover have "gap wire m f' = (height f m - Suc (height f v)) + (\<Sum>u \<in> nodes wire - {v}. height f' m - height f' u)"
    unfolding gap_def using fin assms(2) m by (simp add: sum.remove assms(4))
  moreover have "(\<Sum>u \<in> nodes wire - {v}. height f' m - height f' u) = (\<Sum>u \<in> nodes wire - {v}. height f m - height f u)"
    using m by (intro sum.cong) (simp_all add: assms(4))
  ultimately show ?thesis using assms(3) by simp
qed

lemma load_pop:
  assumes "topology wire" "x \<in> dom wire" "line f x = n # ns"
  shows "load wire f = Suc (\<Sum>u \<in> dom wire. length (((line f)(x := ns)) u))"
proof -
  have "load wire f = length (line f x) + (\<Sum>u \<in> dom wire - {x}. length (line f u))"
    unfolding load_def using finite_wire [OF assms(1)] assms(2) by (simp add: sum.remove)
  moreover have "(\<Sum>u \<in> dom wire. length (((line f)(x := ns)) u))
      = length ns + (\<Sum>u \<in> dom wire - {x}. length (((line f)(x := ns)) u))"
    using finite_wire [OF assms(1)] assms(2) by (simp add: sum.remove)
  moreover have "(\<Sum>u \<in> dom wire - {x}. length (((line f)(x := ns)) u)) = (\<Sum>u \<in> dom wire - {x}. length (line f u))"
    by (rule sum.cong) simp_all
  ultimately show ?thesis using assms(3) by simp
qed

lemma load_pass:
  assumes "topology wire"
  shows "(\<Sum>u \<in> dom wire. length (pass wire v sel n ln u)) \<le> card (dom wire) + (\<Sum>u \<in> dom wire. length (ln u))"
proof -
  have "(\<Sum>u \<in> dom wire. length (pass wire v sel n ln u)) \<le> (\<Sum>u \<in> dom wire. 1 + length (ln u))"
    by (rule sum_mono) (simp add: pass_def)
  also have "\<dots> = card (dom wire) + (\<Sum>u \<in> dom wire. length (ln u))" by (simp only: sum.distrib card_eq_sum)
  finally show ?thesis .
qed

lemma hear_effort:
  assumes "hear wire f f'" "topology wire" "flood_inv wire m f"
  shows "effort wire m f' < effort wire m f"
  using assms(1)
proof cases
  case (learned x n ns)
  let ?ln = "pass wire (fst x) (\<lambda>y. y \<noteq> x) n ((line f)(x := ns))"
  have inv: "n < height f m"
    using learned_inv [OF assms(2,3) learned(2-4,1)] by blast
  have "fst x \<in> nodes wire" using learned(2) by (simp add: nodes_def)
  then have "gap wire m f = Suc (gap wire m f')"
    using gap_learned [OF assms(2), of "fst x" f m f'] inv learned(1,4) by simp
  moreover have "load wire f' \<le> card (dom wire) + (\<Sum>u \<in> dom wire. length (((line f)(x := ns)) u))"
    using load_pass [OF assms(2), of "fst x" "\<lambda>y. y \<noteq> x" n "(line f)(x := ns)"] by (simp add: load_def learned(1))
  ultimately show ?thesis using load_pop [OF assms(2) learned(2,3)] by (simp add: effort_def)
next
  case (known x n ns)
  have "gap wire m f' = gap wire m f" by (simp add: gap_def known(1))
  then show ?thesis using load_pop [OF assms(2) known(2,3)] by (simp add: effort_def load_def known(1))
qed

end
