(* ===== verification/Mesh.thy ===== *)
theory Mesh
  imports Duo Flood
begin

text \<open>
  Any number of running programs, connected in any way: chains of nodes, rings, several connections
  between two nodes. The steps are those of \<open>Duo\<close>; what a program writes to a socket is what the program at
  the other end of the connection reads. \<open>Flood\<close> is what is left of it when only the heights of the chains
  and the blocks under way are looked at.
\<close>

section \<open>The programs\<close>

text \<open>Node \<open>v\<close> goes to \<open>s'\<close>: the bytes that it writes reach the other ends.\<close>

definition carry :: "(socket \<Rightarrow> socket option) \<Rightarrow> nat \<Rightarrow> 'k system \<Rightarrow> (nat \<Rightarrow> 'k system) \<Rightarrow> nat \<Rightarrow> 'k system" where
  "carry wire v s' \<sigma> = (\<lambda>u. if u = v then s' else (\<sigma> u)\<lparr>incoming := \<lambda>j. incoming (\<sigma> u) j @ (case wire (u, j) of
       Some (w, k) \<Rightarrow> if w = v then delivered (slot_fd k (\<sigma> v)) (world (\<sigma> v)) (world s') else []
     | None \<Rightarrow> [])\<rparr>)"

text \<open>Everybody types, sends and listens as they like; only the user of node \<open>m\<close> mines.\<close>

inductive mesh_step :: "env \<Rightarrow> 'k crypto \<Rightarrow> (int \<Rightarrow> string option) \<Rightarrow> (socket \<Rightarrow> socket option) \<Rightarrow> nat
    \<Rightarrow> (nat \<Rightarrow> 'k system) \<Rightarrow> (nat \<Rightarrow> 'k system) \<Rightarrow> bool"
  for e :: env and cr :: "'k crypto" and ctime :: "int \<Rightarrow> string option" and wire :: "socket \<Rightarrow> socket option" and m :: nat where
  moves: "(v, i) \<in> dom wire \<Longrightarrow> side_step e cr ctime i (\<sigma> v) s' \<Longrightarrow> v = m \<or> \<not> mining s' \<Longrightarrow>
    mesh_step e cr ctime wire m \<sigma> (carry wire v s' \<sigma>)"

lemma carry_self [simp]: "carry wire v s' \<sigma> v = s'"
  by (simp add: carry_def)

lemma carry_other:
  assumes "u \<noteq> v"
  shows "world (carry wire v s' \<sigma> u) = world (\<sigma> u)" "mining (carry wire v s' \<sigma> u) = mining (\<sigma> u)"
    "clean e i (carry wire v s' \<sigma> u) = clean e i (\<sigma> u)" "pc (carry wire v s' \<sigma> u) = pc (\<sigma> u)" "typed (carry wire v s' \<sigma> u) = typed (\<sigma> u)"
  using assms by (simp_all add: carry_def mining_def)

lemma carry_incoming:
  assumes "wire x = Some y" "fst x \<noteq> v"
  shows "incoming (carry wire v s' \<sigma> (fst x)) (snd x) = incoming (\<sigma> (fst x)) (snd x)
    @ (if fst y = v then delivered (slot_fd (snd y) (\<sigma> v)) (world (\<sigma> v)) (world s') else [])"
  using assms by (cases x; cases y) (simp add: carry_def)

section \<open>What one node does on all its connections\<close>

text \<open>Two connections are two descriptors.\<close>

lemma connected_distinct:
  assumes "connected i n" "connected k n" "fd (peers n ! i) = fd (peers n ! k)"
  shows "i = k"
proof -
  define sel where "sel p \<longleftrightarrow> active p \<and> fd p = fd (peers n ! i)" for p :: peer_t
  have "filter sel (peers n) = [peers n ! i]" using assms(1) by (simp add: connected_def sel_def [abs_def])
  then have "card {j. j < length (peers n) \<and> sel (peers n ! j)} = 1" by (simp flip: length_filter_conv_card)
  then obtain j where j: "{j. j < length (peers n) \<and> sel (peers n ! j)} = {j}" by (rule card_1_singletonE)
  have "sel (peers n ! i)" "sel (peers n ! k)" "i < length (peers n)" "k < length (peers n)"
    using assms by (simp_all add: connected_def sel_def)
  then have "i \<in> {j}" "k \<in> {j}" unfolding j [symmetric] by simp_all
  then show ?thesis by simp
qed

text \<open>The lines go out on slot \<open>k\<close> for these blocks, and for payments.\<close>

definition writes :: "nat \<Rightarrow> 'k system \<Rightarrow> 'k system \<Rightarrow> block_t list \<Rightarrow> bool" where
  "writes k s s' bs \<longleftrightarrow> (\<exists>out. delivered (slot_fd k s) (world s) (world s') = stream out
     \<and> (\<forall>p \<in> set out. parcel_wire p) \<and> announced out = bs)"

lemma main_step_all:
  assumes "main_step e cr ctime s s'" "opened s' = opened s" "i \<in> K" "\<forall>k \<in> K. clean e k s" "reliable e" "crypto_bounds cr"
  obtains (quiet) "\<forall>k \<in> K. clean e k s'" "incoming s' = incoming s" "\<forall>k \<in> K. writes k s s' []"
      "node_chain (world s') = node_chain (world s)"
  | (mined) b where "\<forall>k \<in> K. clean e k s'" "incoming s' = incoming s" "\<forall>k \<in> K. writes k s s' [b]" "mining s" "block_wire b"
      "chain_add_block (sha e) (node_chain (world s)) b = Some (0, node_chain (world s'))"
proof -
  have eff: "clean e k s' \<and> incoming s' = incoming s \<and> (quiet_move e k s s' \<or> mined_move e k s s')" if "k \<in> K" for k
    using main_step_effect [OF assms(1,2) _ assms(5,6)] assms(4) that by blast
  have ne: "blocks (node_chain (world s)) \<noteq> []"
    using assms(3,4) by (auto simp: clean_def sys_inv_def node_inv_def chain_inv_def)
  have added: "blocks (node_chain (world s')) = blocks (node_chain (world s)) @ [b]"
    if "chain_add_block (sha e) (node_chain (world s)) b = Some (0, node_chain (world s'))" "block_wire b" for b
    using chain_add_block_cases [OF that(1) ne block_wireD(1) [OF that(2)]] by fastforce
  show thesis
  proof (cases "node_chain (world s') = node_chain (world s)")
    case True
    have "writes k s s' []" if "k \<in> K" for k
      using eff [OF that] True added by (auto simp: writes_def quiet_move_def mined_move_def)
    with quiet eff assms(3) True show thesis by blast
  next
    case False
    from eff [OF assms(3)] False obtain b where b: "mining s" "block_wire b"
      "chain_add_block (sha e) (node_chain (world s)) b = Some (0, node_chain (world s'))"
      by (auto simp: quiet_move_def mined_move_def)
    have "writes k s s' [b]" if k: "k \<in> K" for k
    proof -
      obtain b' where b': "delivered (slot_fd k s) (world s) (world s') = stream [Announced b']" "block_wire b'"
        "chain_add_block (sha e) (node_chain (world s)) b' = Some (0, node_chain (world s'))"
        using eff [OF k] False unfolding quiet_move_def mined_move_def by blast
      have "b' = b" using added [OF b'(3,2)] added [OF b(3,2)] by simp
      with b' show ?thesis unfolding writes_def by (intro exI [of _ "[Announced b]"]) simp
    qed
    with mined eff assms(3) b show thesis by blast
  qed
qed

text \<open>The reader thread of slot \<open>i\<close> takes one parcel.\<close>

lemma relayed_delivered:
  assumes "connected i n" "connected k n" "outbox n' = outbox n @ (if r then map (\<lambda>p. (fd p, l))
      (filter (\<lambda>p. active p \<and> fd p \<noteq> fd (peers n ! i)) (peers n)) else [])"
  shows "delivered (fd (peers n ! k)) n n' = (if r \<and> k \<noteq> i then l else [])"
proof (cases "k = i")
  case True
  then show ?thesis using assms(3) by (auto simp: filter_map comp_def)
next
  case False
  then have "fd (peers n ! k) \<noteq> fd (peers n ! i)" using connected_distinct [OF assms(1,2)] by metis
  then have "filter (\<lambda>p. fd p = fd (peers n ! k) \<and> active p \<and> fd p \<noteq> fd (peers n ! i)) (peers n)
      = filter (\<lambda>p. active p \<and> fd p = fd (peers n ! k)) (peers n)" by (intro filter_cong) auto
  also have "\<dots> = [peers n ! k]" using assms(2) by (simp add: connected_def)
  finally show ?thesis using assms(3) False by (simp add: filter_map comp_def conj_ac)
qed

definition hears_parcel :: "env \<Rightarrow> nat \<Rightarrow> nat set \<Rightarrow> 'k system \<Rightarrow> 'k system \<Rightarrow> parcel \<Rightarrow> parcel list \<Rightarrow> bool" where
  "hears_parcel e i K s s' p ps \<longleftrightarrow> (\<forall>k \<in> K. clean e k s') \<and> pc s' = pc s \<and> typed s' = typed s \<and> running (world s')
     \<and> peers (world s') = peers (world s) \<and> incoming s' = (incoming s)(i := stream ps)
     \<and> (case p of
         Paid t \<Rightarrow> node_chain (world s') = node_chain (world s)
           \<and> (\<forall>k \<in> K. delivered (slot_fd k s) (world s) (world s') = [])
       | Announced b \<Rightarrow> (\<exists>r. chain_add_block (sha e) (node_chain (world s)) b = Some (r, node_chain (world s'))
           \<and> (\<forall>k \<in> K. delivered (slot_fd k s) (world s) (world s') = (if r = 0 \<and> k \<noteq> i then stream [Announced b] else []))))"

lemma hears_step:
  assumes "peer_recv e (app_callbacks e) i (world s) (incoming s i) = Some (n, rest, cont)" "running (world s)"
    "i \<in> K" "\<forall>k \<in> K. clean e k s" "reliable e" "crypto_bounds cr" "incoming s i = stream (p # ps)" "parcel_wire p"
    "s' = s\<lparr>world := n, incoming := (incoming s)(i := rest)\<rparr>"
  shows "side_step e cr ctime i s s' \<and> hears_parcel e i K s s' p ps"
proof -
  have inv: "sys_inv e s" "world_inv e (world s)" "world_wire (world s)" and conn: "\<forall>k \<in> K. connected k (world s)"
    using assms(2-4) by (auto simp: clean_def sys_inv_def)
  then have i: "i < length (peers (world s))" "active (peers (world s) ! i)" using assms(3) by (auto simp: connected_def)
  from hear_parcel [OF assms(8,5) inv(2,3) i(1), of ps] assms(1,7)
  have n: "rest = stream ps" "world_wire n" "same_sockets (world s) n" by auto
  have step: "side_step e cr ctime i s s'"
    using next_frame_stream [OF assms(8), of ps] assms(7) unfolding assms(9)
    by (intro hears [OF i(1) assms(2) i(2) _ assms(1)]) simp
  have "malloc e MAX_MSG_SIZE" using reliable_malloc(1) [OF assms(5)] by (simp add: alloc_ok_def)
  then have "sys_inv e s'" using sys_steps_inv [OF side_step_sys [OF step inv(1)] inv(1) assms(6)] by blast
  then have "\<forall>k \<in> K. clean e k s'"
    using clean_same [of e _ s s'] n(2,3) assms(4) by (auto simp: assms(9) clean_def)
  moreover have "running (world s')" "peers (world s') = peers (world s)"
    using n(3) assms(2) by (simp_all add: assms(9) same_sockets_def)
  moreover have "case p of
         Paid t \<Rightarrow> node_chain n = node_chain (world s) \<and> (\<forall>k \<in> K. delivered (slot_fd k s) (world s) n = [])
       | Announced b \<Rightarrow> (\<exists>r. chain_add_block (sha e) (node_chain (world s)) b = Some (r, node_chain n)
           \<and> (\<forall>k \<in> K. delivered (slot_fd k s) (world s) n = (if r = 0 \<and> k \<noteq> i then stream [Announced b] else [])))"
  proof (cases p)
    case (Paid t)
    then have "n = mempool_push (world s) t"
      using hear_paid [OF reliable_malloc(1) [OF assms(5)], of t i "world s" ps] assms(1,7,8) i(1) by simp
    then show ?thesis by (simp add: Paid)
  next
    case (Announced b)
    then have b: "block_wire b" using assms(8) by simp
    obtain r c where c: "chain_add_block (sha e) (node_chain (world s)) b = Some (r, c)"
      by (rule add_wire_block [OF b inv(2,3)])
    let ?l = "stream [Announced b]"
    have "n = (world s)\<lparr>node_chain := c, outbox := outbox (world s) @ (if r = 0 then map (\<lambda>p. (fd p, ?l))
        (filter (\<lambda>p. active p \<and> fd p \<noteq> slot_fd i s) (peers (world s))) else [])\<rparr>"
      using recv_announced [OF assms(5) b i(1) c, of ps] assms(1,7) by (simp add: Announced del: stream_simps)
    then have out: "outbox n = outbox (world s) @ (if r = 0 then map (\<lambda>p. (fd p, ?l))
        (filter (\<lambda>p. active p \<and> fd p \<noteq> slot_fd i s) (peers (world s))) else [])" "node_chain n = c" by simp_all
    have "delivered (slot_fd k s) (world s) n = (if r = 0 \<and> k \<noteq> i then ?l else [])" if "k \<in> K" for k
      using conn assms(3) that by (intro relayed_delivered [OF _ _ out(1)]) blast+
    then show ?thesis using c out(2) by (simp add: Announced del: stream_simps)
  qed
  ultimately show ?thesis using step n(1) by (auto simp: hears_parcel_def assms(9) simp del: stream_simps split: parcel.splits)
qed

text \<open>What is waiting at a running node can be read.\<close>

lemma hears_next:
  assumes "running (world s)" "i \<in> K" "\<forall>k \<in> K. clean e k s" "reliable e" "crypto_bounds cr"
    "incoming s i = stream (p # ps)" "parcel_wire p"
  shows "\<exists>s'. side_step e cr ctime i s s' \<and> hears_parcel e i K s s' p ps"
proof -
  have inv: "world_inv e (world s)" "world_wire (world s)" "i < length (peers (world s))"
    using assms(1-3) by (auto simp: clean_def sys_inv_def connected_def)
  obtain n where "peer_recv e (app_callbacks e) i (world s) (incoming s i) = Some (n, stream ps, True)"
    using hear_parcel [OF assms(7,4) inv, of ps] assms(6) by auto
  from hears_step [OF this assms(1-7) refl] show ?thesis by blast
qed

section \<open>Chains of one miner\<close>

text \<open>
  The first \<open>k\<close> blocks. A chain that has grown from \<open>l\<close> blocks by adding one after the other takes these
  blocks again in the same order, and in no other.
\<close>

definition chain_at :: "blockchain_t \<Rightarrow> nat \<Rightarrow> blockchain_t" where
  "chain_at c k = \<lparr>blocks = take k (blocks c)\<rparr>"

definition grown :: "digest_fn \<Rightarrow> nat \<Rightarrow> blockchain_t \<Rightarrow> bool" where
  "grown h l c \<longleftrightarrow> 0 < l \<and> (\<forall>b \<in> set (blocks c). block_shape b) \<and> chain_length c \<le> MAX_BLOCKS
     \<and> (\<forall>n. l \<le> n \<and> n < length (blocks c) \<longrightarrow> chain_add_block h (chain_at c n) (blocks c ! n) = Some (0, chain_at c (Suc n)))"

lemma chain_at_full: "length (blocks c) \<le> k \<Longrightarrow> chain_at c k = c"
  by (cases c) (simp add: chain_at_def)

lemma chain_at_extends: "extends (chain_at c k) c"
  unfolding extends_def chain_at_def by (intro exI [of _ "drop k (blocks c)"]) simp

lemma grownD: "grown h l c \<Longrightarrow> l \<le> n \<Longrightarrow> n < length (blocks c) \<Longrightarrow>
    chain_add_block h (chain_at c n) (blocks c ! n) = Some (0, chain_at c (Suc n))"
  by (simp add: grown_def)

lemma grown_index:
  assumes "grown h l c" "l \<le> n" "n < length (blocks c)"
  shows "index (blocks c ! n) = index (last (take n (blocks c))) + 1 \<and> last (take n (blocks c)) = blocks c ! (n - 1)"
proof -
  have n: "0 < n" "block_shape (blocks c ! n)" using assms by (auto simp: grown_def)
  then have "blocks (chain_at c n) \<noteq> []" using assms(3) by (auto simp: chain_at_def)
  from chain_add_block_cases [OF grownD [OF assms] this n(2)]
  have "index (blocks c ! n) = index (last (take n (blocks c))) + 1" by (auto simp: chain_at_def)
  moreover have "last (take n (blocks c)) = blocks c ! (n - 1)"
    using n(1) assms(3) by (subst last_conv_nth) auto
  ultimately show ?thesis by simp
qed

lemma grown_indices:
  assumes "grown h l c" "l \<le> n" "n \<le> length (blocks c)"
  shows "index (last (take n (blocks c))) = index (blocks c ! (l - 1)) + word_of_nat (n - l)"
  using assms(2,3)
proof (induction n rule: dec_induct)
  case base
  have "0 < l" using assms(1) by (simp add: grown_def)
  then have "last (take l (blocks c)) = blocks c ! (l - 1)" using base by (subst last_conv_nth) auto
  then show ?case by simp
next
  case (step n)
  have "last (take (Suc n) (blocks c)) = blocks c ! n" using step.prems by (simp add: take_Suc_conv_app_nth)
  then show ?case using grown_index [OF assms(1) step.hyps(1)] step by simp
qed

lemma grown_refused:
  assumes "grown h l c" "l \<le> n" "n < length (blocks c)" "l \<le> k" "k \<le> length (blocks c)" "k \<noteq> n"
  shows "chain_add_block h (chain_at c k) (blocks c ! n) = Some (- 1, chain_at c k)"
proof -
  have "index (blocks c ! n) = index (blocks c ! (l - 1)) + word_of_nat (n - l) + 1"
    using grown_index [OF assms(1-3)] grown_indices [OF assms(1,2)] assms(3) by simp
  moreover have "index (last (take k (blocks c))) = index (blocks c ! (l - 1)) + word_of_nat (k - l)"
    using grown_indices [OF assms(1,4,5)] .
  moreover have "word_of_nat (n - l) \<noteq> (word_of_nat (k - l) :: 32 word)"
  proof -
    have "length (blocks c) < 2 ^ 32" using assms(1) by (simp add: grown_def chain_length_def MAX_BLOCKS_def)
    then have "unat (word_of_nat (n - l) :: 32 word) = n - l" "unat (word_of_nat (k - l) :: 32 word) = k - l"
      using assms(3,5) by (simp_all add: unsigned_of_nat take_bit_nat_eq_self)
    then show ?thesis using assms(2,4,6) by (metis diff_diff_cancel eq_diff_iff)
  qed
  ultimately have "index (blocks c ! n) \<noteq> index (last (blocks (chain_at c k))) + 1"
    by (simp add: chain_at_def)
  moreover have "blocks (chain_at c k) \<noteq> []" using assms(1,4,5) by (auto simp: chain_at_def grown_def)
  moreover have "block_shape (blocks c ! n)" using assms(1,3) by (simp add: grown_def)
  ultimately show ?thesis by (simp add: chain_add_block_eq)
qed

lemma grown_snoc:
  assumes "grown h l c" "chain_add_block h c b = Some (0, c')" "block_shape b" "l \<le> length (blocks c)"
  shows "grown h l c' \<and> blocks c' = blocks c @ [b]"
proof -
  have "blocks c \<noteq> []" using assms(1,4) by (auto simp: grown_def)
  with assms(2,3) have c': "blocks c' = blocks c @ [b]" "chain_length c < MAX_BLOCKS"
    by (auto elim: chain_add_block_cases)
  have "chain_add_block h (chain_at c' n) (blocks c' ! n) = Some (0, chain_at c' (Suc n))"
    if "l \<le> n" "n < length (blocks c')" for n
  proof (cases "n < length (blocks c)")
    case True
    with grownD [OF assms(1) that(1)] show ?thesis by (simp add: chain_at_def c' nth_append)
  next
    case False
    then have "n = length (blocks c)" using that(2) c' by simp
    then have "chain_at c' n = c" "chain_at c' (Suc n) = c'" "blocks c' ! n = b"
      by (cases c; cases c'; use c' in \<open>simp add: chain_at_def\<close>)+
    with assms(2) show ?thesis by simp
  qed
  with assms(1,3) c' show ?thesis by (auto simp: grown_def chain_length_def)
qed

section \<open>The simulation\<close>

text \<open>
  The programs show the protocol: every node has the first blocks of the miner's chain, as many as its
  height says, and the announcements that wait for it are those of the blocks on the line.
\<close>

abbreviation chain_of :: "(nat \<Rightarrow> 'k system) \<Rightarrow> nat \<Rightarrow> blockchain_t" where
  "chain_of \<sigma> v \<equiv> node_chain (world (\<sigma> v))"

definition slots :: "(socket \<Rightarrow> socket option) \<Rightarrow> nat \<Rightarrow> nat set" where
  "slots wire v = {k. (v, k) \<in> dom wire}"

definition socket_sim :: "env \<Rightarrow> nat \<Rightarrow> blockchain_t \<Rightarrow> 'k system \<Rightarrow> nat \<Rightarrow> nat list \<Rightarrow> bool" where
  "socket_sim e l c s k ns \<longleftrightarrow> clean e k s \<and> under_way k s (map ((!) (blocks c)) ns) \<and> (\<forall>n \<in> set ns. l \<le> n)"

definition node_sim :: "nat \<Rightarrow> bool \<Rightarrow> blockchain_t \<Rightarrow> 'k system \<Rightarrow> nat \<Rightarrow> bool" where
  "node_sim l miner c s h \<longleftrightarrow> (miner \<or> \<not> mining s) \<and> node_chain (world s) = chain_at c h \<and> l \<le> h"

definition mirrors :: "env \<Rightarrow> (socket \<Rightarrow> socket option) \<Rightarrow> nat \<Rightarrow> nat \<Rightarrow> (nat \<Rightarrow> 'k system) \<Rightarrow> flood \<Rightarrow> bool" where
  "mirrors e wire m l \<sigma> f \<longleftrightarrow> (\<forall>x \<in> dom wire. socket_sim e l (chain_of \<sigma> m) (\<sigma> (fst x)) (snd x) (line f x))
     \<and> (\<forall>v \<in> nodes wire. node_sim l (v = m) (chain_of \<sigma> m) (\<sigma> v) (height f v))
     \<and> height f m = length (blocks (chain_of \<sigma> m)) \<and> grown (sha e) l (chain_of \<sigma> m) \<and> bounded wire m f"

lemma mirrorsD:
  assumes "mirrors e wire m l \<sigma> f"
  shows "x \<in> dom wire \<Longrightarrow> socket_sim e l (chain_of \<sigma> m) (\<sigma> (fst x)) (snd x) (line f x)"
    "v \<in> nodes wire \<Longrightarrow> node_sim l (v = m) (chain_of \<sigma> m) (\<sigma> v) (height f v)"
    "height f m = length (blocks (chain_of \<sigma> m))" "grown (sha e) l (chain_of \<sigma> m)"
    "v \<in> nodes wire \<Longrightarrow> height f v \<le> length (blocks (chain_of \<sigma> m))"
    "x \<in> dom wire \<Longrightarrow> \<forall>n \<in> set (line f x). l \<le> n \<and> n < length (blocks (chain_of \<sigma> m))"
proof -
  show h: "height f m = length (blocks (chain_of \<sigma> m))" using assms by (simp add: mirrors_def)
  show "x \<in> dom wire \<Longrightarrow> \<forall>n \<in> set (line f x). l \<le> n \<and> n < length (blocks (chain_of \<sigma> m))"
    "v \<in> nodes wire \<Longrightarrow> height f v \<le> length (blocks (chain_of \<sigma> m))"
    using assms unfolding mirrors_def bounded_def socket_sim_def h [symmetric] by blast+
qed (use assms in \<open>unfold mirrors_def, blast+\<close>)

lemma mirrors_slots:
  assumes "mirrors e wire m l \<sigma> f" "k \<in> slots wire v"
  shows "clean e k (\<sigma> v)" "under_way k (\<sigma> v) (map ((!) (blocks (chain_of \<sigma> m))) (line f (v, k)))"
  using mirrorsD(1) [OF assms(1), of "(v, k)"] assms(2) by (simp_all add: slots_def socket_sim_def)

lemma extends_prefix:
  assumes "extends c c'"
  shows "h \<le> length (blocks c) \<Longrightarrow> chain_at c' h = chain_at c h"
    "\<forall>n \<in> set ns. n < length (blocks c) \<Longrightarrow> map ((!) (blocks c')) ns = map ((!) (blocks c)) ns"
  using assms by (auto simp: extends_def chain_at_def nth_append)

text \<open>What waits at \<open>x\<close> after node \<open>v\<close> has sent block \<open>n\<close> on its slots \<open>sel\<close>.\<close>

lemma carry_under_way:
  assumes "topology wire" "wire x = Some y"
    "if fst x = v then under_way (snd x) s' (map g (ln x)) else under_way (snd x) (\<sigma> (fst x)) (map g (ln x))"
    "fst y = v \<Longrightarrow> writes (snd y) (\<sigma> v) s' (if sel y then [g n] else [])"
  shows "under_way (snd x) (carry wire v s' \<sigma> (fst x)) (map g (pass wire v sel n ln x))"
proof (cases "fst x = v")
  case True
  then have "fst y \<noteq> v" using topologyD [OF assms(1,2)] by metis
  then show ?thesis using True assms(3) by (simp add: pass_wire [of wire, OF assms(2)])
next
  case False
  note inc = carry_incoming [of wire, OF assms(2) False, of s' \<sigma>]
  have old: "under_way (snd x) (\<sigma> (fst x)) (map g (ln x))" using assms(3) False by simp
  show ?thesis
  proof (cases "fst y = v")
    case True
    obtain out where out: "delivered (slot_fd (snd y) (\<sigma> v)) (world (\<sigma> v)) (world s') = stream out"
      "\<forall>p \<in> set out. parcel_wire p" "announced out = (if sel y then [g n] else [])"
      using assms(4) [OF True] unfolding writes_def by blast
    have "under_way (snd x) (carry wire v s' \<sigma> (fst x)) (map g (ln x) @ announced out)"
      using under_way_receive [OF old out(2)] inc True out(1) by (simp add: under_way_def receive_def)
    then show ?thesis using True out(3) by (cases "sel y") (simp_all add: pass_wire [of wire, OF assms(2)])
  next
    case nsent: False
    then show ?thesis using old inc by (simp add: under_way_def pass_wire [of wire, OF assms(2)])
  qed
qed

lemma mirrors_update:
  assumes "mirrors e wire m l \<sigma> f" "topology wire"
    "chain_of (carry wire v s' \<sigma>) m = c" "extends (chain_of \<sigma> m) c" "grown (sha e) l c"
    "height f' m = length (blocks c)" "bounded wire m f'"
    "\<And>k. k \<in> slots wire v \<Longrightarrow> clean e k s' \<and> under_way k s' (map ((!) (blocks c)) (ln (v, k)))
       \<and> writes k (\<sigma> v) s' (if sel (v, k) then [blocks c ! n] else [])"
    "node_sim l (v = m) c s' (height f' v)" "l \<le> n" "line f' = pass wire v sel n ln"
    "\<And>x. (fst x \<noteq> v \<longrightarrow> ln x = line f x) \<and> set (ln x) \<subseteq> set (line f x)" "\<And>u. u \<noteq> v \<Longrightarrow> height f' u = height f u"
  shows "mirrors e wire m l (carry wire v s' \<sigma>) f'"
proof -
  note old = mirrorsD [OF assms(1)]
  have sock: "socket_sim e l c (carry wire v s' \<sigma> (fst x)) (snd x) (line f' x)" if x: "x \<in> dom wire" for x
  proof -
    obtain y where y: "wire x = Some y" using x by blast
    have yx: "wire y = Some x" using topologyD [OF assms(2) y] by blast
    have "\<forall>n \<in> set (ln x). n < length (blocks (chain_of \<sigma> m))" using old(6) [OF x] assms(12) by blast
    then have same: "map ((!) (blocks c)) (ln x) = map ((!) (blocks (chain_of \<sigma> m))) (ln x)"
      by (rule extends_prefix(2) [OF assms(4)])
    have "under_way (snd x) (carry wire v s' \<sigma> (fst x)) (map ((!) (blocks c)) (pass wire v sel n ln x))"
    proof (rule carry_under_way [OF assms(2) y])
      show "if fst x = v then under_way (snd x) s' (map ((!) (blocks c)) (ln x))
          else under_way (snd x) (\<sigma> (fst x)) (map ((!) (blocks c)) (ln x))"
      proof (cases "fst x = v")
        case True
        then show ?thesis using assms(8) [of "snd x"] x by (cases x) (simp add: slots_def)
      next
        case False
        then have "map ((!) (blocks c)) (ln x) = map ((!) (blocks (chain_of \<sigma> m))) (line f x)"
          using same assms(12) [of x] by simp
        then show ?thesis using old(1) [OF x] False by (simp add: socket_sim_def del: map_eq_conv)
      qed
    next
      assume "fst y = v"
      then have y: "(v, snd y) = y" by (simp add: prod_eq_iff)
      then have "snd y \<in> slots wire v" using yx by (simp add: slots_def domI)
      from assms(8) [OF this] show "writes (snd y) (\<sigma> v) s' (if sel y then [blocks c ! n] else [])" by (simp add: y)
    qed
    moreover have "clean e (snd x) (carry wire v s' \<sigma> (fst x))"
      using assms(8) [of "snd x"] x old(1) [OF x]
      by (cases "fst x = v"; cases x) (auto simp: slots_def carry_other socket_sim_def)
    moreover have "\<forall>k \<in> set (pass wire v sel n ln x). l \<le> k"
      using old(6) [OF x] assms(10) assms(12) [of x] by (auto simp: pass_def)
    ultimately show ?thesis by (simp add: socket_sim_def assms(11))
  qed
  have "node_sim l (u = m) c (carry wire v s' \<sigma> u) (height f' u)" if u: "u \<in> nodes wire" for u
  proof (cases "u = v")
    case False
    then show ?thesis using old(2,5) [OF u] assms(13) [OF False] extends_prefix(1) [OF assms(4)]
      by (simp add: node_sim_def carry_other)
  qed (use assms(9) in simp)
  with sock assms(3,5-7) show ?thesis by (simp add: mirrors_def)
qed

text \<open>A step of node \<open>v\<close> that leaves its chain alone and announces nothing.\<close>

lemma mirrors_stays:
  assumes "mirrors e wire m l \<sigma> f" "topology wire" "v \<in> nodes wire"
    "node_chain (world s') = chain_of \<sigma> v" "v = m \<or> \<not> mining s'"
    "\<And>k. k \<in> slots wire v \<Longrightarrow> clean e k s' \<and> writes k (\<sigma> v) s' []
       \<and> under_way k s' (map ((!) (blocks (chain_of \<sigma> m))) (ln (v, k)))"
    "\<And>x. (fst x \<noteq> v \<longrightarrow> ln x = line f x) \<and> set (ln x) \<subseteq> set (line f x)"
  shows "mirrors e wire m l (carry wire v s' \<sigma>) (f\<lparr>line := ln\<rparr>)"
proof (rule mirrors_update [OF assms(1,2), where c = "chain_of \<sigma> m" and ln = ln and sel = "\<lambda>_. False" and n = l])
  show "chain_of (carry wire v s' \<sigma>) m = chain_of \<sigma> m" using assms(4) by (cases "m = v") (simp_all add: carry_other)
  show "node_sim l (v = m) (chain_of \<sigma> m) s' (height (f\<lparr>line := ln\<rparr>) v)"
    using mirrorsD(2) [OF assms(1,3)] assms(4,5) by (simp add: node_sim_def)
  show "line (f\<lparr>line := ln\<rparr>) = pass wire v (\<lambda>_. False) l ln" by (simp add: pass_def passes_def)
  have "bounded wire m f" using assms(1) by (simp add: mirrors_def)
  then show "bounded wire m (f\<lparr>line := ln\<rparr>)" using assms(7) unfolding bounded_def by fastforce
qed (use mirrorsD [OF assms(1)] assms(6,7) in simp_all)

lemma under_wayD:
  assumes "under_way k s bs"
  obtains ps where "incoming s k = stream ps" "\<forall>p \<in> set ps. parcel_wire p" "bs = announced ps"
  using assms by (auto simp: under_way_def)

lemma under_way_other: "incoming s' k = incoming s k \<Longrightarrow> under_way k s' bs = under_way k s bs"
  by (simp add: under_way_def)

lemma mirrors_quiet:
  assumes "mirrors e wire m l \<sigma> f" "topology wire" "v \<in> nodes wire"
    "node_chain (world s') = chain_of \<sigma> v" "v = m \<or> \<not> mining s'"
    "\<And>k. k \<in> slots wire v \<Longrightarrow> clean e k s' \<and> writes k (\<sigma> v) s' [] \<and> incoming s' k = incoming (\<sigma> v) k"
  shows "mirrors e wire m l (carry wire v s' \<sigma>) f"
proof -
  have "mirrors e wire m l (carry wire v s' \<sigma>) (f\<lparr>line := line f\<rparr>)"
  proof (rule mirrors_stays [OF assms(1-5)])
    fix k assume k: "k \<in> slots wire v"
    from assms(6) [OF k] mirrors_slots(2) [OF assms(1) k] show "clean e k s' \<and> writes k (\<sigma> v) s' []
        \<and> under_way k s' (map ((!) (blocks (chain_of \<sigma> m))) (line f (v, k)))"
      by (simp add: under_way_other [of s' k "\<sigma> v"])
  qed simp
  then show ?thesis by simp
qed

lemma reads_under_way:
  assumes "mirrors e wire m l \<sigma> f" "incoming s' = (incoming (\<sigma> v))(i := stream ps)" "\<forall>q \<in> set (p # ps). parcel_wire q"
    "map ((!) (blocks (chain_of \<sigma> m))) ns = announced ps" "k \<in> slots wire v"
  shows "under_way k s' (map ((!) (blocks (chain_of \<sigma> m))) (((line f)((v, i) := ns)) (v, k)))"
proof (cases "k = i")
  case True
  then show ?thesis using assms(2-4) by (auto simp: under_way_def)
next
  case False
  then show ?thesis using mirrors_slots(2) [OF assms(1,5)] assms(2) by (simp add: under_way_def)
qed

lemma mirrors_paid:
  assumes "mirrors e wire m l \<sigma> f" "topology wire" "v \<in> nodes wire" "v = m \<or> \<not> mining s'"
    "hears_parcel e i (slots wire v) (\<sigma> v) s' (Paid t) ps" "\<forall>q \<in> set (Paid t # ps). parcel_wire q"
    "map ((!) (blocks (chain_of \<sigma> m))) (line f (v, i)) = announced ps"
  shows "mirrors e wire m l (carry wire v s' \<sigma>) f"
proof -
  have "mirrors e wire m l (carry wire v s' \<sigma>) (f\<lparr>line := line f\<rparr>)"
  proof (rule mirrors_stays [OF assms(1-3) _ assms(4)])
    fix k assume k: "k \<in> slots wire v"
    have "incoming s' = (incoming (\<sigma> v))(i := stream ps)" using assms(5) by (simp add: hears_parcel_def)
    from reads_under_way [OF assms(1) this assms(6,7) k] assms(5) k
    show "clean e k s' \<and> writes k (\<sigma> v) s' [] \<and> under_way k s' (map ((!) (blocks (chain_of \<sigma> m))) (line f (v, k)))"
      by (auto simp: hears_parcel_def writes_def intro: exI [of _ "[]"])
  qed (use assms(5) in \<open>simp_all add: hears_parcel_def\<close>)
  then show ?thesis by simp
qed

section \<open>The protocol\<close>

definition mesh_sim :: "env \<Rightarrow> (socket \<Rightarrow> socket option) \<Rightarrow> nat \<Rightarrow> nat \<Rightarrow> (nat \<Rightarrow> 'k system) \<Rightarrow> flood \<Rightarrow> bool" where
  "mesh_sim e wire m l \<sigma> f \<longleftrightarrow> mirrors e wire m l \<sigma> f \<and> flood_inv wire m f"

lemma mesh_simD:
  assumes "mesh_sim e wire m l \<sigma> f"
  shows "x \<in> dom wire \<Longrightarrow> socket_sim e l (chain_of \<sigma> m) (\<sigma> (fst x)) (snd x) (line f x)"
    "v \<in> nodes wire \<Longrightarrow> node_sim l (v = m) (chain_of \<sigma> m) (\<sigma> v) (height f v)"
    "height f m = length (blocks (chain_of \<sigma> m))" "grown (sha e) l (chain_of \<sigma> m)" "flood_inv wire m f"
    "mirrors e wire m l \<sigma> f"
  using assms mirrorsD [of e wire m l \<sigma> f] by (simp_all add: mesh_sim_def)

lemma sim_stays:
  assumes "mesh_sim e wire m l \<sigma> f" "topology wire" "v \<in> nodes wire"
    "node_chain (world s') = chain_of \<sigma> v" "v = m \<or> \<not> mining s'" "flood_inv wire m (f\<lparr>line := ln\<rparr>)"
    "\<And>k. k \<in> slots wire v \<Longrightarrow> clean e k s' \<and> writes k (\<sigma> v) s' []
       \<and> under_way k s' (map ((!) (blocks (chain_of \<sigma> m))) (ln (v, k)))"
    "\<And>x. (fst x \<noteq> v \<longrightarrow> ln x = line f x) \<and> set (ln x) \<subseteq> set (line f x)"
  shows "mesh_sim e wire m l (carry wire v s' \<sigma>) (f\<lparr>line := ln\<rparr>)"
  using mirrors_stays [where ln = ln, OF mesh_simD(6) [OF assms(1)] assms(2-5,7,8)] assms(6) by (simp add: mesh_sim_def)

text \<open>A step of node \<open>v\<close> that takes block \<open>n\<close> of the miner's chain and passes it on.\<close>

lemma sim_learns:
  assumes "mesh_sim e wire m l \<sigma> f" "topology wire" "(v, i) \<in> dom wire" "line f (v, i) = n # ns" "height f v = n" "l \<le> n"
    "node_chain (world s') = chain_at (chain_of \<sigma> m) (Suc n)" "v = m \<or> \<not> mining s'"
    "\<And>k. k \<in> slots wire v \<Longrightarrow> clean e k s' \<and> writes k (\<sigma> v) s' (if k \<noteq> i then [blocks (chain_of \<sigma> m) ! n] else [])
       \<and> under_way k s' (map ((!) (blocks (chain_of \<sigma> m))) (((line f)((v, i) := ns)) (v, k)))"
  shows "\<exists>f'. hear wire f f' \<and> mesh_sim e wire m l (carry wire v s' \<sigma>) f'"
proof -
  let ?x = "(v, i)" and ?ln = "(line f)((v, i) := ns)"
  let ?f = "f\<lparr>height := (height f)(fst ?x := Suc n), line := pass wire (fst ?x) (\<lambda>y. y \<noteq> ?x) n ?ln\<rparr>"
  note old = mesh_simD [OF assms(1)]
  have hear: "hear wire f ?f" using assms(5) by (intro learned [OF assms(3,4)]) simp
  have "n < height f m" "height ?f m = height f m" "flood_inv wire m ?f"
    using learned_inv [OF assms(2) old(5) assms(3,4) _ refl] assms(5) by simp_all
  moreover from this have "v \<noteq> m" using assms(5) by auto
  moreover note flood_bounded [OF calculation(3) assms(2)]
  ultimately have "mirrors e wire m l (carry wire v s' \<sigma>) ?f"
    by (intro mirrors_update [OF old(6) assms(2), where c = "chain_of \<sigma> m" and ln = ?ln and sel = "\<lambda>y. y \<noteq> ?x" and n = n])
      (use old assms(4-9) in \<open>auto simp: carry_other node_sim_def\<close>)
  with hear \<open>flood_inv wire m ?f\<close> show ?thesis by (auto simp: mesh_sim_def)
qed

text \<open>A parcel that is read is a step of the protocol, or a payment that nobody else gets to know.\<close>

lemma sim_announced:
  assumes "mesh_sim e wire m l \<sigma> f" "topology wire" "(v, i) \<in> dom wire" "v = m \<or> \<not> mining s'"
    "hears_parcel e i (slots wire v) (\<sigma> v) s' (Announced b) ps" "\<forall>q \<in> set (Announced b # ps). parcel_wire q"
    "line f (v, i) = n # ns" "blocks (chain_of \<sigma> m) ! n = b" "map ((!) (blocks (chain_of \<sigma> m))) ns = announced ps"
  shows "\<exists>f'. hear wire f f' \<and> mesh_sim e wire m l (carry wire v s' \<sigma>) f'"
proof -
  let ?c = "chain_of \<sigma> m" and ?ln = "(line f)((v, i) := ns)"
  note old = mesh_simD [OF assms(1)] and inc = reads_under_way [where s' = s' and i = i, OF mesh_simD(6) [OF assms(1)] _ assms(6,9)]
  have uw: "under_way k s' (map ((!) (blocks ?c)) (?ln (v, k)))" if "k \<in> slots wire v" for k
    using inc [OF _ that] assms(5) by (simp add: hears_parcel_def)
  obtain y where y: "wire (v, i) = Some y" using assms(3) by blast
  then have v: "v \<in> nodes wire" "fst y \<in> nodes wire" using wire_nodes [OF y assms(2)] by simp_all
  have nd: "chain_of \<sigma> v = chain_at ?c (height f v)" "l \<le> height f v" "height f v \<le> length (blocks ?c)"
    using old(2) [OF v(1)] flood_invD(2) [OF old(5) v(1)] old(3) by (simp_all add: node_sim_def)
  have n: "l \<le> n" "n < length (blocks ?c)"
    using old(1) [OF assms(3)] assms(7) flood_invD(1) [OF old(5) y] flood_invD(2) [OF old(5) v(2)] old(3)
    by (auto simp: socket_sim_def)
  obtain r where r: "chain_add_block (sha e) (chain_at ?c (height f v)) b = Some (r, node_chain (world s'))"
    "\<forall>k \<in> slots wire v. delivered (slot_fd k (\<sigma> v)) (world (\<sigma> v)) (world s')
       = (if r = 0 \<and> k \<noteq> i then stream [Announced b] else [])" "\<forall>k \<in> slots wire v. clean e k s'"
    using assms(5) nd(1) by (auto simp: hears_parcel_def simp del: stream_simps)
  have out: "writes k (\<sigma> v) s' (if r = 0 \<and> k \<noteq> i then [b] else [])" if "k \<in> slots wire v" for k
    using r(2) that assms(6) unfolding writes_def
    by (intro exI [of _ "if r = 0 \<and> k \<noteq> i then [Announced b] else []"]) simp
  show ?thesis
  proof (cases "height f v = n")
    case True
    then have s': "r = 0" "node_chain (world s') = chain_at ?c (Suc n)" using r(1) grownD [OF old(4) n] assms(8) by auto
    then have "writes k (\<sigma> v) s' (if k \<noteq> i then [blocks ?c ! n] else [])" if "k \<in> slots wire v" for k
      using out [OF that] assms(8) by (cases "k = i") simp_all
    with s' uw r(3) show ?thesis by (intro sim_learns [OF assms(1-3,7) True n(1) _ assms(4)]) simp_all
  next
    case False
    have "r = - 1" "node_chain (world s') = chain_of \<sigma> v"
      using r(1) grown_refused [OF old(4) n nd(2,3) False] nd(1) assms(8) by auto
    moreover have hear: "hear wire f (f\<lparr>line := ?ln\<rparr>)" using False by (intro known [OF assms(3,7)]) simp
    moreover have "flood_inv wire m (f\<lparr>line := ?ln\<rparr>)" using hear_inv [OF hear assms(2) old(5)] by blast
    ultimately have "mesh_sim e wire m l (carry wire v s' \<sigma>) (f\<lparr>line := ?ln\<rparr>)"
      using out uw r(3) assms(7) by (intro sim_stays [OF assms(1,2) v(1) _ assms(4)]) auto
    with hear show ?thesis by blast
  qed
qed

lemma sim_hears:
  assumes "mesh_sim e wire m l \<sigma> f" "topology wire" "(v, i) \<in> dom wire"
    "hears_parcel e i (slots wire v) (\<sigma> v) s' p ps" "\<forall>q \<in> set (p # ps). parcel_wire q"
    "map ((!) (blocks (chain_of \<sigma> m))) (line f (v, i)) = announced (p # ps)"
  shows "case p of
      Paid t \<Rightarrow> mesh_sim e wire m l (carry wire v s' \<sigma>) f
    | Announced b \<Rightarrow> \<exists>f'. hear wire f f' \<and> mesh_sim e wire m l (carry wire v s' \<sigma>) f'"
proof -
  note old = mesh_simD [OF assms(1)]
  have v: "v \<in> nodes wire" using assms(3) by (force simp: nodes_def)
  have miner: "v = m \<or> \<not> mining s'"
    using mesh_simD(2) [OF assms(1) v] assms(4) by (simp add: node_sim_def hears_parcel_def mining_def)
  show ?thesis
  proof (cases p)
    case (Paid t)
    with mirrors_paid [OF old(6) assms(2) v miner] old(5) assms(4-6) show ?thesis by (auto simp: mesh_sim_def)
  next
    case (Announced b)
    with assms(6) obtain n ns where "line f (v, i) = n # ns" "blocks (chain_of \<sigma> m) ! n = b"
      "map ((!) (blocks (chain_of \<sigma> m))) ns = announced ps" by auto
    with Announced sim_announced [OF assms(1-3) miner] assms(4,5) show ?thesis by auto
  qed
qed

lemma sim_main:
  assumes "mesh_sim e wire m l \<sigma> f" "topology wire" "i \<in> slots wire v" "reliable e" "crypto_bounds cr"
    "main_step e cr ctime (\<sigma> v) s'" "opened s' = opened (\<sigma> v)" "v = m \<or> \<not> mining s'"
  shows "\<exists>f'. (flood_step wire m)\<^sup>=\<^sup>= f f' \<and> mesh_sim e wire m l (carry wire v s' \<sigma>) f'"
proof -
  let ?c = "chain_of \<sigma> m"
  note old = mesh_simD [OF assms(1)]
  have v: "v \<in> nodes wire" using assms(3) by (force simp: nodes_def slots_def)
  note nd = old(2) [OF v, unfolded node_sim_def]
  have "\<forall>k \<in> slots wire v. clean e k (\<sigma> v)" using mirrors_slots [OF mesh_simD(6) [OF assms(1)]] by blast
  from assms(6,7,3) this assms(4,5) show ?thesis
  proof (cases rule: main_step_all)
    case quiet
    have "mirrors e wire m l (carry wire v s' \<sigma>) f"
      using quiet by (intro mirrors_quiet [OF old(6) assms(2) v quiet(4) assms(8)]) simp
    then have "mesh_sim e wire m l (carry wire v s' \<sigma>) f" using old(5) by (simp add: mesh_sim_def)
    then show ?thesis by blast
  next
    case (mined b)
    let ?n = "length (blocks ?c)" and ?c' = "node_chain (world s')"
    let ?f = "f\<lparr>height := (height f)(m := Suc (height f m)), line := pass wire m (\<lambda>_. True) (height f m) (line f)\<rparr>"
    have m: "v = m" "l \<le> ?n" using nd mined(4) old(2) [OF v] old(3) by (auto simp: node_sim_def)
    note grow = grown_snoc [OF old(4) mined(6) [unfolded m(1)] block_wireD(1) [OF mined(5)] m(2)]
    then have c': "blocks ?c' = blocks ?c @ [b]" "extends ?c ?c'" by (simp_all add: extends_def)
    have inv: "flood_inv wire m ?f" by (rule mined_inv [OF assms(2) old(5) refl])
    have "mirrors e wire m l (carry wire v s' \<sigma>) ?f"
    proof (rule mirrors_update [OF old(6) assms(2), where c = ?c' and ln = "line f" and sel = "\<lambda>_. True" and n = ?n])
      fix k assume k: "k \<in> slots wire v"
      have "\<forall>n \<in> set (line f (v, k)). n < ?n" using mirrorsD(6) [OF old(6), of "(v, k)"] k by (simp add: slots_def)
      from extends_prefix(2) [OF c'(2) this] mined(1-3) k mirrors_slots [OF mesh_simD(6) [OF assms(1)] k]
      show "clean e k s' \<and> under_way k s' (map ((!) (blocks ?c')) (line f (v, k)))
          \<and> writes k (\<sigma> v) s' (if True then [blocks ?c' ! ?n] else [])"
        by (simp add: under_way_other [of s' k "\<sigma> v"] c'(1) del: map_eq_conv)
    qed (use old grow c' m flood_bounded [OF inv assms(2)] chain_at_full [of ?c' "Suc ?n"] in \<open>simp_all add: node_sim_def\<close>)
    with inv have "mesh_sim e wire m l (carry wire v s' \<sigma>) ?f" by (simp add: mesh_sim_def)
    then show ?thesis using flood_step.mined [of wire m f] by blast
  qed
qed

lemma mesh_sim_step:
  assumes "mesh_step e cr ctime wire m \<sigma> \<sigma>'" "mesh_sim e wire m l \<sigma> f" "topology wire" "reliable e" "crypto_bounds cr"
  shows "\<exists>f'. (flood_step wire m)\<^sup>=\<^sup>= f f' \<and> mesh_sim e wire m l \<sigma>' f'"
  using assms(1)
proof cases
  case (moves v i s')
  then have i: "i \<in> slots wire v" by (simp add: slots_def)
  from moves(3) show ?thesis
  proof (cases rule: side_step.cases)
    case acts
    from sim_main [OF assms(2,3) i assms(4,5) acts moves(4)] moves(1) show ?thesis by simp
  next
    case (hears n rest cont)
    from under_wayD [OF mirrors_slots(2) [OF mesh_simD(6) [OF assms(2)] i]] obtain ps where
      ps: "incoming (\<sigma> v) i = stream ps" "\<forall>p \<in> set ps. parcel_wire p"
        "map ((!) (blocks (chain_of \<sigma> m))) (line f (v, i)) = announced ps" by blast
    obtain p qs where p: "ps = p # qs" using hears(5) ps(1) by (cases ps) auto
    have "\<forall>k \<in> slots wire v. clean e k (\<sigma> v)" using mirrors_slots [OF mesh_simD(6) [OF assms(2)]] by blast
    from hears_step [OF hears(6,3) i this assms(4,5), of p qs] ps p hears(1)
    have "hears_parcel e i (slots wire v) (\<sigma> v) s' p qs" by simp
    from sim_hears [OF assms(2,3) moves(2) this] ps p show ?thesis
      unfolding moves(1) by (cases p) (auto intro: heard)
  qed
qed

lemma mesh_sim_steps:
  assumes "(mesh_step e cr ctime wire m)\<^sup>*\<^sup>* \<sigma> \<sigma>'" "mesh_sim e wire m l \<sigma> f" "topology wire" "reliable e" "crypto_bounds cr"
  shows "\<exists>f'. (flood_step wire m)\<^sup>*\<^sup>* f f' \<and> mesh_sim e wire m l \<sigma>' f'"
  using assms(1)
proof (induction rule: rtranclp_induct)
  case (step y z)
  then obtain f1 where f1: "(flood_step wire m)\<^sup>*\<^sup>* f f1" "mesh_sim e wire m l y f1" by blast
  from mesh_sim_step [OF step.hyps(2) f1(2) assms(3-5)] f1(1) show ?case by (auto intro: rtranclp.rtrancl_into_rtrancl)
qed (use assms(2) in blast)

text \<open>At the start everybody has the miner's chain and nothing is under way.\<close>

definition settled :: "(socket \<Rightarrow> socket option) \<Rightarrow> (nat \<Rightarrow> 'k system) \<Rightarrow> bool" where
  "settled wire \<sigma> \<longleftrightarrow> (\<forall>x \<in> dom wire. incoming (\<sigma> (fst x)) (snd x) = [])"

lemma fresh_mesh_sim:
  assumes "m \<in> nodes wire" "settled wire \<sigma>" "\<forall>x \<in> dom wire. clean e (snd x) (\<sigma> (fst x))"
    "\<forall>v \<in> nodes wire. chain_of \<sigma> v = chain_of \<sigma> m \<and> (v = m \<or> \<not> mining (\<sigma> v))" "l = length (blocks (chain_of \<sigma> m))"
  shows "mesh_sim e wire m l \<sigma> \<lparr>height = \<lambda>_. l, line = \<lambda>_. []\<rparr>"
proof -
  obtain i where "(m, i) \<in> dom wire" using assms(1) by (force simp: nodes_def)
  then have "chain_inv (sha e) (chain_of \<sigma> m)" using assms(3) by (force simp: clean_def sys_inv_def node_inv_def)
  then have "grown (sha e) l (chain_of \<sigma> m)" using assms(5) by (auto simp: grown_def chain_inv_def chain_shape_def)
  moreover have "socket_sim e l (chain_of \<sigma> m) (\<sigma> (fst x)) (snd x) []" if "x \<in> dom wire" for x
    using that assms(2,3) by (auto simp: settled_def socket_sim_def under_way_def intro!: exI [of _ "[]"])
  moreover have "node_sim l (v = m) (chain_of \<sigma> m) (\<sigma> v) l" if "v \<in> nodes wire" for v
    using that assms(4,5) by (auto simp: node_sim_def chain_at_full)
  ultimately show ?thesis using assms(5) by (simp add: mesh_sim_def mirrors_def flood_inv_def bounded_def)
qed

lemma settled_line:
  assumes "mirrors e wire m l \<sigma> f" "settled wire \<sigma>" "x \<in> dom wire"
  shows "line f x = []"
proof -
  obtain ps where "incoming (\<sigma> (fst x)) (snd x) = stream ps" "map ((!) (blocks (chain_of \<sigma> m))) (line f x) = announced ps"
    using mirrorsD(1) [OF assms(1,3)] by (auto simp: socket_sim_def under_way_def)
  moreover have "incoming (\<sigma> (fst x)) (snd x) = []" using assms(2,3) by (simp add: settled_def)
  ultimately show ?thesis by (cases ps) auto
qed

lemma linked_nodes: "(linked wire)\<^sup>*\<^sup>* m v \<Longrightarrow> topology wire \<Longrightarrow> m \<in> nodes wire \<Longrightarrow> v \<in> nodes wire"
  by (induction rule: rtranclp_induct) (auto simp: linked_def dest: wire_nodes)

lemma mirrors_same:
  assumes "mirrors e wire m l \<sigma> f" "v \<in> nodes wire" "height f v = height f m"
  shows "chain_of \<sigma> v = chain_of \<sigma> m"
  using mirrorsD(2,3) [OF assms(1)] assms(2,3) chain_at_full [of "chain_of \<sigma> m"] by (simp add: node_sim_def)

lemma mesh_sim_agrees:
  assumes "mesh_sim e wire m l \<sigma> f" "topology wire" "settled wire \<sigma>" "(linked wire)\<^sup>*\<^sup>* m v" "m \<in> nodes wire"
  shows "chain_of \<sigma> v = chain_of \<sigma> m"
proof -
  note old = mesh_simD(5,6) [OF assms(1)]
  have "height f v = height f m"
    using flood_agrees [OF assms(2) old(1) _ assms(4)] settled_line [OF old(2) assms(3)] by blast
  with mirrors_same [OF old(2) linked_nodes [OF assms(4,2,5)]] show ?thesis .
qed

section \<open>Reading to the end\<close>

definition unread :: "(socket \<Rightarrow> socket option) \<Rightarrow> (nat \<Rightarrow> 'k system) \<Rightarrow> nat" where
  "unread wire \<sigma> = (\<Sum>x \<in> dom wire. length (incoming (\<sigma> (fst x)) (snd x)))"

definition reading :: "env \<Rightarrow> (socket \<Rightarrow> socket option) \<Rightarrow> nat \<Rightarrow> nat \<Rightarrow> (nat \<Rightarrow> 'k system) \<Rightarrow> (nat \<Rightarrow> 'k system) \<Rightarrow> flood \<Rightarrow> bool" where
  "reading e wire m l \<tau> \<sigma> f \<longleftrightarrow> mesh_sim e wire m l \<sigma> f \<and> (\<forall>v \<in> nodes wire. running (world (\<sigma> v)))
     \<and> (\<forall>v. pc (\<sigma> v) = pc (\<tau> v) \<and> typed (\<sigma> v) = typed (\<tau> v)) \<and> extends (chain_of \<tau> m) (chain_of \<sigma> m)
     \<and> height f m = length (blocks (chain_of \<tau> m))"

lemma unread_paid:
  assumes "topology wire" "(v, i) \<in> dom wire" "hears_parcel e i (slots wire v) (\<sigma> v) s' (Paid t) ps"
    "incoming (\<sigma> v) i = stream (Paid t # ps)"
  shows "unread wire (carry wire v s' \<sigma>) < unread wire \<sigma>"
proof -
  have h: "incoming s' = (incoming (\<sigma> v))(i := stream ps)"
    "\<forall>k \<in> slots wire v. delivered (slot_fd k (\<sigma> v)) (world (\<sigma> v)) (world s') = []"
    using assms(3) by (simp_all add: hears_parcel_def)
  have "length (incoming (carry wire v s' \<sigma> (fst x)) (snd x)) \<le> length (incoming (\<sigma> (fst x)) (snd x))
    \<and> (x = (v, i) \<longrightarrow> length (incoming (carry wire v s' \<sigma> (fst x)) (snd x)) < length (incoming (\<sigma> (fst x)) (snd x)))"
    if x: "x \<in> dom wire" for x
  proof (cases "fst x = v")
    case True
    then show ?thesis using h(1) assms(4) by (cases x) auto
  next
    case False
    obtain y where y: "wire x = Some y" using x by blast
    then have "wire y = Some x" using topologyD [OF assms(1)] by blast
    then have "fst y = v \<Longrightarrow> snd y \<in> slots wire v" by (cases y) (auto simp: slots_def)
    then show ?thesis using carry_incoming [of wire, OF y False, of s' \<sigma>] h(2) False by (cases x) auto
  qed
  then show ?thesis unfolding unread_def
    using finite_wire [OF assms(1)] assms(2) by (intro sum_strict_mono_ex1) blast+
qed

lemma reading_step:
  assumes "reading e wire m l \<tau> \<sigma> f" "topology wire" "reliable e" "crypto_bounds cr" "\<not> settled wire \<sigma>"
  shows "\<exists>\<sigma>' f'. mesh_step e cr ctime wire m \<sigma> \<sigma>' \<and> reading e wire m l \<tau> \<sigma>' f'
    \<and> (effort wire m f' < effort wire m f \<or> effort wire m f' = effort wire m f \<and> unread wire \<sigma>' < unread wire \<sigma>)"
proof -
  have sim: "mesh_sim e wire m l \<sigma> f" and run: "\<forall>v \<in> nodes wire. running (world (\<sigma> v))"
    and keys: "\<forall>v. pc (\<sigma> v) = pc (\<tau> v) \<and> typed (\<sigma> v) = typed (\<tau> v)" and ext: "extends (chain_of \<tau> m) (chain_of \<sigma> m)"
    and height: "height f m = length (blocks (chain_of \<tau> m))"
    using assms(1) by (simp_all add: reading_def)
  obtain v i where x: "(v, i) \<in> dom wire" "incoming (\<sigma> v) i \<noteq> []" using assms(5) by (force simp: settled_def)
  then have i: "i \<in> slots wire v" "v \<in> nodes wire" by (force simp: slots_def nodes_def)+
  from under_wayD [OF mirrors_slots(2) [OF mesh_simD(6) [OF sim] i(1)]] obtain ps where
    ps: "incoming (\<sigma> v) i = stream ps" "\<forall>p \<in> set ps. parcel_wire p"
      "map ((!) (blocks (chain_of \<sigma> m))) (line f (v, i)) = announced ps" by blast
  obtain p qs where p: "ps = p # qs" using x(2) ps(1) by (cases ps) auto
  have "\<forall>k \<in> slots wire v. clean e k (\<sigma> v)" using mirrors_slots [OF mesh_simD(6) [OF sim]] by blast
  from hears_next [OF _ i(1) this assms(3,4), of p qs ctime] run i(2) ps p obtain s' where
    s': "side_step e cr ctime i (\<sigma> v) s'" "hears_parcel e i (slots wire v) (\<sigma> v) s' p qs" by auto
  let ?\<sigma> = "carry wire v s' \<sigma>"
  have h: "pc s' = pc (\<sigma> v)" "typed s' = typed (\<sigma> v)" "running (world s')" "mining s' = mining (\<sigma> v)"
    "extends (chain_of \<sigma> v) (node_chain (world s'))"
    using s'(2) by (auto simp: hears_parcel_def mining_def dest: chain_add_block_extends split: parcel.splits)
  have "v = m \<or> \<not> mining s'" using mesh_simD(2) [OF sim i(2)] h(4) by (simp add: node_sim_def)
  then have step: "mesh_step e cr ctime wire m \<sigma> ?\<sigma>" using x(1) s'(1) by (intro moves)
  have "extends (chain_of \<sigma> m) (chain_of ?\<sigma> m)" using h(5) by (cases "m = v") (simp_all add: carry_other)
  then have "extends (chain_of \<tau> m) (chain_of ?\<sigma> m)" using ext extends_trans by blast
  moreover have "running (world (?\<sigma> u))" if "u \<in> nodes wire" for u
    using run h(3) that by (cases "u = v") (simp_all add: carry_other)
  moreover have "pc (?\<sigma> u) = pc (\<tau> u) \<and> typed (?\<sigma> u) = typed (\<tau> u)" for u
    using keys h(1,2) by (cases "u = v") (simp_all add: carry_other)
  ultimately have read: "reading e wire m l \<tau> ?\<sigma> f'" if "mesh_sim e wire m l ?\<sigma> f'" "height f' m = height f m" for f'
    using that height by (simp add: reading_def)
  note hears = sim_hears [OF sim assms(2) x(1) s'(2)]
  show ?thesis
  proof (cases p)
    case (Paid t)
    with hears ps p unread_paid [OF assms(2) x(1), of e \<sigma> s' t qs] s'(2) step read show ?thesis by auto
  next
    case (Announced b)
    with hears ps p obtain f' where "hear wire f f'" "mesh_sim e wire m l ?\<sigma> f'" by auto
    with hear_inv [OF _ assms(2) mesh_simD(5) [OF sim]] hear_effort [OF _ assms(2) mesh_simD(5) [OF sim]] read step
    show ?thesis by blast
  qed
qed

section \<open>Three programs in a ring\<close>

text \<open>Steps of the miner's main thread are steps of the network.\<close>

lemma main_steps_mesh:
  assumes "(main_step e cr ctime)\<^sup>*\<^sup>* (\<sigma> m) s'" "opened s' = opened (\<sigma> m)" "(m, i) \<in> dom wire"
  shows "\<exists>\<tau>. (mesh_step e cr ctime wire m)\<^sup>*\<^sup>* \<sigma> \<tau> \<and> \<tau> m = s' \<and> (\<forall>u. u \<noteq> m \<longrightarrow> world (\<tau> u) = world (\<sigma> u))"
proof -
  have "\<exists>fds. opened s' = opened (\<sigma> m) @ fds \<and> (fds = [] \<longrightarrow>
      (\<exists>\<tau>. (mesh_step e cr ctime wire m)\<^sup>*\<^sup>* \<sigma> \<tau> \<and> \<tau> m = s' \<and> (\<forall>u. u \<noteq> m \<longrightarrow> world (\<tau> u) = world (\<sigma> u))))"
    using assms(1)
  proof (induction rule: rtranclp_induct)
    case (step y z)
    obtain f1 f2 where f: "opened y = opened (\<sigma> m) @ f1" "opened z = opened y @ f2" and
      IH: "f1 = [] \<Longrightarrow> \<exists>\<tau>. (mesh_step e cr ctime wire m)\<^sup>*\<^sup>* \<sigma> \<tau> \<and> \<tau> m = y \<and> (\<forall>u. u \<noteq> m \<longrightarrow> world (\<tau> u) = world (\<sigma> u))"
      using step.IH main_step_opened [OF step.hyps(2)] by blast
    have "\<exists>\<tau>. (mesh_step e cr ctime wire m)\<^sup>*\<^sup>* \<sigma> \<tau> \<and> \<tau> m = z \<and> (\<forall>u. u \<noteq> m \<longrightarrow> world (\<tau> u) = world (\<sigma> u))"
      if none: "f1 @ f2 = []"
    proof -
      obtain \<tau> where t: "(mesh_step e cr ctime wire m)\<^sup>*\<^sup>* \<sigma> \<tau>" "\<tau> m = y" "\<forall>u. u \<noteq> m \<longrightarrow> world (\<tau> u) = world (\<sigma> u)"
        using IH none by blast
      have "side_step e cr ctime i (\<tau> m) z" using f none t(2) step.hyps(2) by (intro acts) simp_all
      then have "mesh_step e cr ctime wire m \<tau> (carry wire m z \<tau>)" using assms(3) by (intro moves) simp_all
      with t(1) have "(mesh_step e cr ctime wire m)\<^sup>*\<^sup>* \<sigma> (carry wire m z \<tau>)" by (meson rtranclp.rtrancl_into_rtrancl)
      moreover have "\<forall>u. u \<noteq> m \<longrightarrow> world (carry wire m z \<tau> u) = world (\<sigma> u)" using t(3) by (simp add: carry_other)
      ultimately show ?thesis using carry_self by blast
    qed
    with f show ?case by (intro exI [of _ "f1 @ f2"]) simp
  qed (use rtranclp.rtrancl_refl in blast)
  with assms(2) show ?thesis by auto
qed

text \<open>Every program has the two others in its slots 0 and 1.\<close>

definition ring :: "socket \<Rightarrow> socket option" where
  "ring = map_of [((0, 0), (1, 1)), ((1, 1), (0, 0)), ((1, 0), (2, 1)), ((2, 1), (1, 0)), ((2, 0), (0, 1)), ((0, 1), (2, 0))]"

definition demo_ring :: "nat \<Rightarrow> u8 system" where
  "demo_ring v = (demo_side (if v = 0 then ''1'' @ LF @ [] else []) demo_chain)\<lparr>
     world := (demo_world [])\<lparr>peers := [\<lparr>fd = 4, host = ''a'', port = 9333, active = True\<rparr>,
       \<lparr>fd = 5, host = ''b'', port = 9334, active = True\<rparr>]\<rparr>, opened := [3, 4, 5]\<rparr>"

lemma dom_ring: "x \<in> dom ring \<longleftrightarrow> x \<in> {0, 1, 2} \<times> {0, 1}"
  by (cases x) (auto simp: ring_def split: if_splits)

lemma ring_topology: "topology ring" "nodes ring = {0, 1, 2}"
proof -
  have "dom ring = {0, 1, 2} \<times> {0, 1}" using dom_ring by blast
  then show "nodes ring = {0, 1, 2}" by (auto simp: nodes_def)
  have "finite (dom ring)" by (simp add: ring_def finite_dom_map_of)
  then show "topology ring" by (auto simp: topology_def ring_def split: if_splits)
qed

lemma ring_linked: "linked ring 0 1" "linked ring 0 2"
proof -
  have "ring (0, 0) = Some (1, 1)" "ring (0, 1) = Some (2, 0)" by (simp_all add: ring_def)
  then show "linked ring 0 1" "linked ring 0 2" unfolding linked_def by fastforce+
qed

lemma demo_ring_clean:
  assumes "k < 2"
  shows "clean demo_env k (demo_ring v)"
proof -
  let ?s = "demo_ring v"
  have sel: "node_chain (world ?s) = demo_chain" "app (world ?s) = app (demo_world [])" "pc ?s = AtMenu"
    by (simp_all add: demo_ring_def demo_side_def demo_world_def)
  have "world_inv demo_env (world ?s)"
    using demo_world_inv [of "[]"] by (simp add: node_inv_def sel(1,2)) (simp add: demo_ring_def MAX_PEERS_def)
  then have "sys_inv demo_env ?s"
    by (simp add: sys_inv_def pc_ok_def slots_ok_def held_def arrived_def sel(3))
      (simp add: demo_ring_def demo_side_def demo_world_def)
  moreover have "connected k (world ?s)" using assms by (auto simp: connected_def demo_ring_def less_2_cases_iff)
  moreover have "world_wire (world ?s)" by (simp add: world_wire_def sel demo_chain_def) (simp add: demo_wallet_def)
  moreover have "typeable (typed ?s)" using demo_typeable by (simp add: demo_ring_def demo_side_def)
  ultimately show ?thesis by (simp add: clean_def pc_wire_def sel(3))
qed

section \<open>Properties\<close>



end
