(* ===== verification/Handshake.thy ===== *)
theory Handshake
  imports Duo
begin

text \<open>
  A new connection between two running programs. Both ends enter the other one into their tables, ask for
  its chain and send their mempools (\<open>add_peer\<close>), and their reader threads handle what arrives, in any
  order. While nobody mines or pays, all of this ends, and both have the longer chain.
\<close>

section \<open>Two readers\<close>

text \<open>The reader thread of slot \<open>i\<close> takes a message that has arrived; the other main thread rests.\<close>

inductive hear_step :: "env \<Rightarrow> nat \<Rightarrow> 'k system \<Rightarrow> 'k system \<Rightarrow> bool"
  for e :: env and i :: nat where
  hear: "i < length (peers (world s)) \<Longrightarrow> running (world s) \<Longrightarrow> active (peers (world s) ! i) \<Longrightarrow>
    next_frame (incoming s i) \<noteq> None \<Longrightarrow>
    peer_recv e (app_callbacks e) i (world s) (incoming s i) = Some (n, rest, cont) \<Longrightarrow>
    hear_step e i s (s\<lparr>world := n, incoming := (incoming s)(i := rest)\<rparr>)"

lemma hear_side_step: "hear_step e i s s' \<Longrightarrow> side_step e cr ctime i s s'"
  by (induction rule: hear_step.induct) (rule hears)

inductive talk_step :: "env \<Rightarrow> nat \<Rightarrow> nat \<Rightarrow> 'k system \<times> 'k system \<Rightarrow> 'k system \<times> 'k system \<Rightarrow> bool"
  for e :: env and i j :: nat where
  first_hears: "hear_step e i a a' \<Longrightarrow>
    talk_step e i j (a, b) (a', receive j (delivered (slot_fd i a) (world a) (world a')) b)"
| second_hears: "hear_step e j b b' \<Longrightarrow>
    talk_step e i j (a, b) (receive i (delivered (slot_fd j b) (world b) (world b')) a, b')"

inductive_cases talk_stepE: "talk_step e i j (a, b) z"

section \<open>What they say\<close>

datatype greeting = Ask | Answer blockchain_t | Offer tx_t

fun greeting_text :: "greeting \<Rightarrow> string" where
  "greeting_text Ask = msg_text MSG_REQUEST_CHAIN ''{}''"
| "greeting_text (Answer c) = msg_text MSG_CHAIN_RESPONSE (chain_text c)"
| "greeting_text (Offer t) = msg_text MSG_NEW_TX (tx_text t)"

text \<open>\<open>S\<close> holds the two chains that the conversation is about.\<close>

fun greeting_ok :: "blockchain_t set \<Rightarrow> greeting \<Rightarrow> bool" where
  "greeting_ok S Ask \<longleftrightarrow> True"
| "greeting_ok S (Answer c) \<longleftrightarrow> c \<in> S"
| "greeting_ok S (Offer t) \<longleftrightarrow> tx_wire t"

definition said :: "greeting list \<Rightarrow> string" where
  "said gs = concat (map (\<lambda>g. greeting_text g @ [CHR 0x0A]) gs)"

fun offered :: "greeting \<Rightarrow> tx_t list" where
  "offered (Offer t) = [t]"
| "offered _ = []"

definition offers :: "greeting list \<Rightarrow> tx_t list" where
  "offers gs = concat (map offered gs)"

fun replies :: "blockchain_t \<Rightarrow> greeting \<Rightarrow> greeting list" where
  "replies c Ask = [Answer c]"
| "replies c _ = []"

definition longer :: "blockchain_t \<Rightarrow> blockchain_t \<Rightarrow> blockchain_t" where
  "longer c d = (if chain_length c < chain_length d then d else c)"

fun adopts :: "blockchain_t \<Rightarrow> greeting \<Rightarrow> blockchain_t" where
  "adopts c (Answer d) = longer c d"
| "adopts c _ = c"

text \<open>The number of steps that a message causes.\<close>

fun work :: "greeting \<Rightarrow> nat" where
  "work Ask = 2"
| "work _ = 1"

definition works :: "greeting list \<Rightarrow> nat" where
  "works gs = sum_list (map work gs)"

lemma talk_simps [simp]:
  "said [] = []" "said (g # gs) = greeting_text g @ CHR 0x0A # said gs" "said (gs @ hs) = said gs @ said hs"
  "offers [] = []" "offers (g # gs) = offered g @ offers gs" "offers (gs @ hs) = offers gs @ offers hs"
  "works [] = 0" "works (g # gs) = work g + works gs" "works (gs @ hs) = works gs + works hs"
  by (simp_all add: said_def offers_def works_def)

lemma replies_simps [simp]:
  "offers (replies c g) = []" "works (replies c g) + 1 = work g" "c \<in> S \<Longrightarrow> \<forall>r \<in> set (replies c g). greeting_ok S r"
  by (cases g; simp)+

text \<open>The chains of \<open>S\<close> can be sent, and one of them, \<open>L\<close>, is the longest.\<close>

definition known_chains :: "env \<Rightarrow> blockchain_t set \<Rightarrow> blockchain_t \<Rightarrow> bool" where
  "known_chains e S L \<longleftrightarrow> (\<forall>c \<in> S. chain_sendable c \<and> chain_inv (sha e) c \<and> (c = L \<or> chain_length c < chain_length L))
     \<and> L \<in> S \<and> (\<exists>c. S \<subseteq> {c, L})"

lemma greeting_line:
  assumes "greeting_ok S g" "known_chains e S L"
  shows "CHR 0x0A \<notin> set (greeting_text g) \<and> CHR 0x00 \<notin> set (greeting_text g) \<and> length (greeting_text g) < MAX_MSG_SIZE - 1"
  using assms request_line tx_stream.frame_line chain_stream.frame_line by (cases g) (simp_all add: known_chains_def)

lemma next_frame_said:
  assumes "greeting_ok S g" "known_chains e S L"
  shows "next_frame (said (g # gs)) = Some (greeting_text g, said gs)"
  using next_frame_line [of "greeting_text g" "said gs"] greeting_line [OF assms] by (simp add: c_string_id)

section \<open>One message\<close>

lemma handle_answer:
  assumes "reliable e" "chain_sendable c" "chain_inv (sha e) c"
  shows "handle_message e cb n s (msg_text MSG_CHAIN_RESPONSE (chain_text c)) = Some (n\<lparr>node_chain := longer (node_chain n) c\<rparr>)"
proof -
  note al = reliable_malloc [OF assms(1)]
  have obj: "wire_object (chain_text c)" "chain_wire c"
    using assms(2) by (auto intro: chain_stream.enc_object simp: chain_sendable_def)
  have "protocol_deserialize_chain (malloc e) (chain_text c) \<lparr>blocks = []\<rparr> = (0, c)"
    using obj(2) al(1) by (intro protocol_deserialize_chain_text) (simp_all add: alloc_ok_def)
  moreover have "\<exists>v. chain_replace (sha e) (node_chain n) c = Some (v, longer (node_chain n) c)"
    using assms(3) by (auto simp: chain_replace_eq chain_inv_def longer_def)
  ultimately show ?thesis
    using protocol_parse_msg_eq [OF obj(1), of "malloc e" MSG_CHAIN_RESPONSE] al
    by (auto simp: handle_message_def handle_chain_response_def alloc_ok_def)
qed

lemma handle_greeting:
  assumes "reliable e" "known_chains e S L" "greeting_ok S g" "node_chain n \<in> S" "length (mempool (app n)) \<le> MEMPOOL_SIZE"
  shows "\<exists>n'. handle_message e (app_callbacks e) n s (greeting_text g) = Some n' \<and> same_sockets n n'
    \<and> node_chain n' = adopts (node_chain n) g
    \<and> mempool (app n') = take MEMPOOL_SIZE (mempool (app n) @ offered g)
    \<and> outbox n' = outbox n @ map (\<lambda>r. (s, greeting_text r @ [CHR 0x0A])) (replies (node_chain n) g)"
proof (cases g)
  case Ask
  have "chain_wire (node_chain n)" using assms(2,4) by (simp add: known_chains_def chain_sendable_def)
  from request_answered [OF assms(1) this, of "app_callbacks e" s] assms(5) Ask show ?thesis
    by (simp add: same_sockets_def)
next
  case (Offer t)
  then show ?thesis
    using handle_new_tx_message [of e t n s] reliable_malloc(1) [OF assms(1)] assms(3,5)
    by (auto simp: mempool_push_def same_sockets_def set_mempool_def)
next
  case (Answer c)
  have "chain_sendable c" "chain_inv (sha e) c" using assms(2,3) Answer by (simp_all add: known_chains_def)
  from handle_answer [OF assms(1) this, of "app_callbacks e" n s] assms(5) show ?thesis
    by (simp add: Answer same_sockets_def)
qed

text \<open>One end of the conversation: \<open>P\<close> is the mempool that it will have, \<open>gs\<close> what it has still to read.\<close>

definition one_end :: "env \<Rightarrow> blockchain_t set \<Rightarrow> tx_t list \<Rightarrow> nat \<Rightarrow> 'k system \<Rightarrow> greeting list \<Rightarrow> bool" where
  "one_end e S P i s gs \<longleftrightarrow> running (world s) \<and> i < length (peers (world s)) \<and> active (peers (world s) ! i)
     \<and> node_chain (world s) \<in> S \<and> length (mempool (app (world s))) \<le> MEMPOOL_SIZE
     \<and> take MEMPOOL_SIZE (mempool (app (world s)) @ offers gs) = P
     \<and> incoming s i = said gs \<and> (\<forall>g \<in> set gs. greeting_ok S g)"

lemma one_end_done: "one_end e S P i s [] \<Longrightarrow> mempool (app (world s)) = P"
  by (auto simp: one_end_def)

lemma take_take_append: "take k (take k xs @ ys) = take k (xs @ ys)"
  by (cases "k \<le> length xs") simp_all

lemma one_end_hears:
  assumes "reliable e" "known_chains e S L" "one_end e S P i s (g # gs)"
  shows "\<exists>n. peer_recv e (app_callbacks e) i (world s) (incoming s i) = Some (n, said gs, True)
    \<and> one_end e S P i (s\<lparr>world := n, incoming := (incoming s)(i := said gs)\<rparr>) gs
    \<and> node_chain n = adopts (node_chain (world s)) g
    \<and> delivered (slot_fd i s) (world s) n = said (replies (node_chain (world s)) g)"
proof -
  note one = assms(3) [unfolded one_end_def]
  have al: "malloc e MAX_MSG_SIZE" using reliable_malloc(1) [OF assms(1)] by (simp add: alloc_ok_def)
  have read: "read_message (malloc e) (incoming s i) = (Some (greeting_text g), said gs)"
    using one al next_frame_said [OF _ assms(2), of g gs] by (simp add: read_message_eq del: talk_simps)
  obtain n where n: "handle_message e (app_callbacks e) (world s) (slot_fd i s) (greeting_text g) = Some n"
    "same_sockets (world s) n" "node_chain n = adopts (node_chain (world s)) g"
    "mempool (app n) = take MEMPOOL_SIZE (mempool (app (world s)) @ offered g)"
    "outbox n = outbox (world s) @ map (\<lambda>r. (slot_fd i s, greeting_text r @ [CHR 0x0A])) (replies (node_chain (world s)) g)"
    using handle_greeting [OF assms(1,2), of g "world s" "slot_fd i s"] one by auto
  have recv: "peer_recv e (app_callbacks e) i (world s) (incoming s i) = Some (n, said gs, True)"
    using one read n(1) by (simp add: peer_recv_def)
  have "adopts (node_chain (world s)) g \<in> S" using one by (cases g) (simp_all add: longer_def)
  moreover have "length (mempool (app n)) \<le> MEMPOOL_SIZE" "take MEMPOOL_SIZE (mempool (app n) @ offers gs) = P"
    using one take_take_append [of MEMPOOL_SIZE "mempool (app (world s)) @ offered g" "offers gs"]
    by (simp_all add: n(4) del: take_append)
  ultimately have "one_end e S P i (s\<lparr>world := n, incoming := (incoming s)(i := said gs)\<rparr>) gs"
    using one n(2,3) by (simp add: one_end_def same_sockets_def del: take_append)
  moreover have "delivered (slot_fd i s) (world s) n = said (replies (node_chain (world s)) g)"
    using n(5) by (simp add: filter_map comp_def said_def)
  ultimately show ?thesis using n(3) recv by blast
qed

section \<open>The conversation\<close>

text \<open>An end that does not have the chain \<open>L\<close> has asked for it or is about to read it.\<close>

definition gets :: "blockchain_t \<Rightarrow> blockchain_t \<Rightarrow> greeting list \<Rightarrow> greeting list \<Rightarrow> bool" where
  "gets L c gs gs' \<longleftrightarrow> c = L \<or> Ask \<in> set gs' \<or> Answer L \<in> set gs"

definition talking :: "env \<Rightarrow> blockchain_t set \<Rightarrow> blockchain_t \<Rightarrow> tx_t list \<Rightarrow> tx_t list \<Rightarrow> nat \<Rightarrow> nat
    \<Rightarrow> 'k system \<Rightarrow> 'k system \<Rightarrow> greeting list \<Rightarrow> greeting list \<Rightarrow> bool" where
  "talking e S L P Q i j a b ga gb \<longleftrightarrow> one_end e S P i a ga \<and> one_end e S Q j b gb
     \<and> (node_chain (world a) = L \<or> node_chain (world b) = L)
     \<and> gets L (node_chain (world a)) ga gb \<and> gets L (node_chain (world b)) gb ga"

lemma talking_sym: "talking e S L P Q i j a b ga gb = talking e S L Q P j i b a gb ga"
  by (auto simp: talking_def)

lemma one_end_receive:
  assumes "one_end e S P i s gs" "\<forall>r \<in> set rs. greeting_ok S r" "offers rs = []"
  shows "one_end e S P i (receive i (said rs) s) (gs @ rs)"
  using assms by (auto simp: one_end_def receive_def)

lemma longer_known:
  assumes "known_chains e S L" "c \<in> S" "d \<in> S"
  shows "longer c d = (if d = L then L else c)"
proof (cases "d = L \<or> c = d")
  case False
  moreover obtain x where "S \<subseteq> {x, L}" using assms(1) by (auto simp: known_chains_def)
  ultimately have "c = L" "chain_length d < chain_length L" using assms by (auto simp: known_chains_def)
  with False show ?thesis by (simp add: longer_def)
qed (use assms in \<open>auto simp: longer_def known_chains_def\<close>)

lemma talking_hears:
  assumes "reliable e" "known_chains e S L" "talking e S L P Q i j a b ga gb" "hear_step e i a a'"
  shows "\<exists>g gs. ga = g # gs \<and> talking e S L P Q i j a' (receive j (delivered (slot_fd i a) (world a) (world a')) b)
    gs (gb @ replies (node_chain (world a)) g)"
proof -
  note t = assms(3) [unfolded talking_def]
  obtain n rest cont where a': "a' = a\<lparr>world := n, incoming := (incoming a)(i := rest)\<rparr>"
    and recv: "next_frame (incoming a i) \<noteq> None"
      "peer_recv e (app_callbacks e) i (world a) (incoming a i) = Some (n, rest, cont)"
    using assms(4) by (auto elim: hear_step.cases)
  have "incoming a i = said ga" using t by (simp add: one_end_def)
  with recv(1) obtain g gs where ga: "ga = g # gs" by (cases ga) auto
  let ?c = "node_chain (world a)" and ?rs = "replies (node_chain (world a)) g"
  have end_a: "one_end e S P i a' gs" "node_chain n = adopts ?c g" "delivered (slot_fd i a) (world a) n = said ?rs"
    using one_end_hears [OF assms(1,2), of P i a g gs] t recv(2) by (auto simp: ga a')
  have S: "?c \<in> S" "\<forall>c. g = Answer c \<longrightarrow> c \<in> S" using t by (auto simp: one_end_def ga)
  let ?b = "receive j (said ?rs) b"
  have end_b: "one_end e S Q j ?b (gb @ ?rs)" using t S(1) by (intro one_end_receive) simp_all
  have "adopts ?c g = (if g = Answer L then L else ?c)"
    using longer_known [OF assms(2) S(1)] S(2) by (cases g) simp_all
  then have "(adopts ?c g = L \<or> node_chain (world b) = L) \<and> gets L (adopts ?c g) gs (gb @ ?rs)
      \<and> gets L (node_chain (world b)) (gb @ ?rs) gs"
    using t by (cases g) (auto simp: gets_def ga)
  then have "talking e S L P Q i j a' ?b gs (gb @ ?rs)"
    using end_a(1,2) end_b by (simp add: talking_def a' receive_def)
  moreover have "delivered (slot_fd i a) (world a) (world a') = said ?rs" using end_a(3) by (simp add: a')
  ultimately show ?thesis using ga by auto
qed

lemma talking_step:
  assumes "reliable e" "known_chains e S L" "talking e S L P Q i j a b ga gb" "talk_step e i j (a, b) (a', b')"
  shows "\<exists>ga' gb'. talking e S L P Q i j a' b' ga' gb' \<and> works ga + works gb = Suc (works ga' + works gb')"
  using assms(4)
proof (cases rule: talk_step.cases)
  case first_hears
  from talking_hears [OF assms(1-3) first_hears(2)] obtain g gs where "ga = g # gs"
    "talking e S L P Q i j a' b' gs (gb @ replies (node_chain (world a)) g)" unfolding first_hears(1) by blast
  then show ?thesis using replies_simps(2) [of "node_chain (world a)" g]
    by (intro exI [of _ gs] exI [of _ "gb @ replies (node_chain (world a)) g"]) simp
next
  case second_hears
  have "talking e S L Q P j i b a gb ga" using assms(3) by (simp add: talking_sym [of e S L P])
  from talking_hears [OF assms(1,2) this second_hears(2)] obtain g gs where "gb = g # gs"
    "talking e S L P Q i j a' b' (ga @ replies (node_chain (world b)) g) gs"
    unfolding second_hears(1) talking_sym [of e S L P] by blast
  then show ?thesis using replies_simps(2) [of "node_chain (world b)" g]
    by (intro exI [of _ "ga @ replies (node_chain (world b)) g"] exI [of _ gs]) simp
qed

lemma talking_steps:
  assumes "reliable e" "known_chains e S L" "talking e S L P Q i j a b ga gb" "(talk_step e i j ^^ k) (a, b) (x, y)"
  shows "\<exists>gx gy. talking e S L P Q i j x y gx gy \<and> works ga + works gb = k + works gx + works gy"
  using assms(4)
proof (induction k arbitrary: x y)
  case 0
  with assms(3) show ?case by auto
next
  case (Suc k)
  then obtain u v where u: "(talk_step e i j ^^ k) (a, b) (u, v)" "talk_step e i j (u, v) (x, y)" by auto
  from Suc.IH [OF u(1)] obtain gu gv where "talking e S L P Q i j u v gu gv"
    "works ga + works gb = k + works gu + works gv" by blast
  with talking_step [OF assms(1,2) _ u(2)] show ?case by fastforce
qed

lemma talking_ends:
  assumes "reliable e" "known_chains e S L" "talking e S L P Q i j a b ga gb" "\<forall>z. \<not> talk_step e i j (a, b) z"
  shows "ga = [] \<and> gb = []"
proof -
  have enabled: "\<exists>s'. hear_step e k s s'" if "one_end e S R k s (g # gs)" for k R g gs and s :: "'a system"
  proof -
    have s: "incoming s k = said (g # gs)" "greeting_ok S g" "k < length (peers (world s))" "running (world s)"
      "active (peers (world s) ! k)" using that by (simp_all add: one_end_def)
    then have "next_frame (incoming s k) \<noteq> None" using next_frame_said [OF _ assms(2), of g gs] by simp
    with one_end_hears [OF assms(1,2) that] s(3-5) show ?thesis by (blast intro: hear)
  qed
  from assms(3) have "one_end e S P i a ga" "one_end e S Q j b gb" by (simp_all add: talking_def)
  with enabled assms(4) show ?thesis
    by (cases ga; cases gb) (blast intro: first_hears second_hears)+
qed

lemma talking_done:
  assumes "talking e S L P Q i j x y [] []"
  shows "node_chain (world x) = L \<and> node_chain (world y) = L
    \<and> mempool (app (world x)) = P \<and> mempool (app (world y)) = Q"
proof -
  have "one_end e S P i x []" "one_end e S Q j y []" "gets L (node_chain (world x)) [] []"
    "gets L (node_chain (world y)) [] []" using assms by (simp_all add: talking_def)
  with one_end_done show ?thesis by (auto simp: gets_def)
qed

lemma talking_runs:
  assumes "reliable e" "known_chains e S L" "talking e S L P Q i j a b ga gb"
  shows "\<exists>x y. (talk_step e i j)\<^sup>*\<^sup>* (a, b) (x, y) \<and> (\<forall>z. \<not> talk_step e i j (x, y) z)"
  using assms(3)
proof (induction "works ga + works gb" arbitrary: a b ga gb rule: less_induct)
  case less
  show ?case
  proof (cases "\<exists>u v. talk_step e i j (a, b) (u, v)")
    case True
    then obtain u v where u: "talk_step e i j (a, b) (u, v)" by blast
    obtain gu gv where g: "talking e S L P Q i j u v gu gv" "works ga + works gb = Suc (works gu + works gv)"
      using talking_step [OF assms(1,2) less.prems u] by blast
    then have "\<exists>x y. (talk_step e i j)\<^sup>*\<^sup>* (u, v) (x, y) \<and> (\<forall>z. \<not> talk_step e i j (x, y) z)"
      by (intro less.hyps [OF _ g(1)]) simp
    with converse_rtranclp_into_rtranclp [of "talk_step e i j", OF u] show ?thesis by blast
  qed auto
qed

section \<open>Properties\<close>

text \<open>A running program whose chain and mempool can be sent, with room for one more peer.\<close>

definition ready :: "env \<Rightarrow> 'k system \<Rightarrow> bool" where
  "ready e s \<longleftrightarrow> running (world s) \<and> length (peers (world s)) < MAX_PEERS
     \<and> chain_sendable (node_chain (world s)) \<and> chain_inv (sha e) (node_chain (world s))
     \<and> length (mempool (app (world s))) \<le> MEMPOOL_SIZE \<and> (\<forall>t \<in> set (mempool (app (world s))). tx_wire t)"

lemma ready_add_peer:
  assumes "reliable e" "ready e s"
  shows "add_peer e (app_callbacks e) (world s) f h p = Some (0, (world s)
    \<lparr>peers := peers (world s) @ [\<lparr>fd = f, host = strncpy_to h 255, port = p, active = True\<rparr>],
     outbox := outbox (world s) @ map (\<lambda>l. (f, l)) (hello_lines (mempool (app (world s))))\<rparr>)"
  using assms(2) by (intro add_peer_reliable [OF assms(1)]) (auto simp: ready_def tx_wire_def)

lemma said_hello: "concat (hello_lines ts) = said (Ask # map Offer ts)"
  by (simp add: hello_lines_def said_def comp_def)

text \<open>The end that accepts the connection, and the end that dials, which asks for the chain once more.\<close>

lemma accepts:
  assumes "reliable e" "ready e s" "accept_step e (app_callbacks e) (world s) (f, h, p) = Some n" "0 \<le> f"
  shows "delivered f (world s) n = said (Ask # map Offer (mempool (app (world s))))"
    "running n" "active (peers n ! length (peers (world s)))" "length (peers n) = Suc (length (peers (world s)))"
    "node_chain n = node_chain (world s)" "mempool (app n) = mempool (app (world s))"
  using assms(2-4) ready_add_peer [OF assms(1,2), of f h p]
  by (auto simp: accept_step_def ready_def filter_map comp_def said_hello simp del: talk_simps)

lemma dials:
  assumes "reliable e" "ready e s" "node_connect_peer e (app_callbacks e) d (world s) h p = Some (0, n)"
  shows "delivered (dial_fd d) (world s) n = said (Ask # map Offer (mempool (app (world s))) @ [Ask])"
    "running n" "active (peers n ! length (peers (world s)))" "length (peers n) = Suc (length (peers (world s)))"
    "node_chain n = node_chain (world s)" "mempool (app n) = mempool (app (world s))"
proof -
  let ?f = "dial_fd d" and ?ts = "mempool (app (world s))"
  let ?ls = "hello_lines ?ts @ [msg_text MSG_REQUEST_CHAIN ''{}'' @ [CHR 0x0A]]"
  have al: "\<forall>k. malloc e k" using reliable_malloc(1) [OF assms(1)] by (simp add: alloc_ok_def)
  have n: "n = (world s)\<lparr>peers := peers (world s) @ [\<lparr>fd = ?f, host = strncpy_to h 255, port = p, active = True\<rparr>],
      outbox := outbox (world s) @ map (\<lambda>l. (?f, l)) ?ls\<rparr>"
    using assms(3) ready_add_peer [OF assms(1,2), of ?f h p] al
    by (auto simp: node_connect_peer_def node_request_chain_def protocol_serialize_msg_eq
        send_message_reliable [OF assms(1)] split: if_splits)
  have "concat ?ls = said (Ask # map Offer ?ts @ [Ask])" using said_hello [of ?ts] by simp
  with n show "delivered ?f (world s) n = said (Ask # map Offer ?ts @ [Ask])"
    by (simp add: filter_map comp_def del: talk_simps)
  show "running n" "active (peers n ! length (peers (world s)))" "length (peers n) = Suc (length (peers (world s)))"
    "node_chain n = node_chain (world s)" "mempool (app n) = ?ts"
    using assms(2) by (simp_all add: n ready_def)
qed

lemma talk_counts [simp]: "offers (map Offer ts) = ts" "works (map Offer ts) = length ts"
  by (induction ts) simp_all

lemma longer_choice: "longer c d \<in> {c, d}"
  by (simp add: longer_def)

text \<open>The conversation right after the connection is made.\<close>

lemma handshake_known:
  assumes "ready e a" "ready e b"
    "chain_length (node_chain (world a)) \<noteq> chain_length (node_chain (world b)) \<or> node_chain (world a) = node_chain (world b)"
  shows "known_chains e {node_chain (world a), node_chain (world b)} (longer (node_chain (world a)) (node_chain (world b)))"
  using assms(3) assms(1,2) [unfolded ready_def] by (auto simp: known_chains_def longer_def)

lemma handshake_talking:
  assumes "reliable e" "ready e a" "ready e b"
    "chain_length (node_chain (world a)) \<noteq> chain_length (node_chain (world b)) \<or> node_chain (world a) = node_chain (world b)"
    "node_connect_peer e (app_callbacks e) d (world a) h p = Some (0, na)"
    "accept_step e (app_callbacks e) (world b) (f, h', p') = Some nb" "0 \<le> f"
    "i = length (peers (world a))" "j = length (peers (world b))"
  shows "talking e {node_chain (world a), node_chain (world b)} (longer (node_chain (world a)) (node_chain (world b)))
    (take MEMPOOL_SIZE (mempool (app (world a)) @ mempool (app (world b))))
    (take MEMPOOL_SIZE (mempool (app (world b)) @ mempool (app (world a)))) i j
    (a\<lparr>world := na, incoming := (incoming a)(i := delivered f (world b) nb)\<rparr>)
    (b\<lparr>world := nb, incoming := (incoming b)(j := delivered (dial_fd d) (world a) na)\<rparr>)
    (Ask # map Offer (mempool (app (world b)))) (Ask # map Offer (mempool (app (world a))) @ [Ask])"
  using assms(2,3) [unfolded ready_def] longer_choice [of "node_chain (world a)" "node_chain (world b)"]
  by (auto simp: talking_def one_end_def gets_def dials [OF assms(1,2,5)] accepts [OF assms(1,3,6,7)] assms(8,9))


lemma length_demo_chain: "length (blocks demo_chain) = 2"
  by (simp add: demo_chain_def)

lemma demo_greeting:
  obtains a b :: "u8 system" and d na nb where "ready demo_env a" "ready demo_env b"
    "node_connect_peer demo_env (app_callbacks demo_env) d (world a) ''h'' 1 = Some (0, na)"
    "accept_step demo_env (app_callbacks demo_env) (world b) (9, ''h'', 1) = Some nb"
    "1 = length (peers (world a))" "1 = length (peers (world b))"
    "node_chain (world a) = \<lparr>blocks = [demo_genesis]\<rparr>" "node_chain (world b) = demo_chain" "dial_fd d = 9"
    "mempool (app (world a)) = []"
proof -
  let ?a = "demo_side [] \<lparr>blocks = [demo_genesis]\<rparr>" and ?b = "demo_side [] demo_chain"
  let ?d = "\<lparr>resolve_rc = 0, dial_fd = 9, connect_rc = 0\<rparr>"
  have ready: "ready demo_env ?a" "ready demo_env ?b"
    using demo_wire(5) demo_chain_inv
    by (simp_all add: ready_def demo_side_def demo_world_def chain_sendable_def chain_wire_def chain_length_def
        MAX_BLOCKS_def MAX_PEERS_def length_demo_chain)
  obtain na where na: "node_connect_peer demo_env (app_callbacks demo_env) ?d (world ?a) ''h'' 1 = Some (0, na)"
    using ready_add_peer [OF demo_env_facts(1) ready(1), of 9 "''h''" 1] by (simp add: node_connect_peer_def)
  obtain nb where nb: "accept_step demo_env (app_callbacks demo_env) (world ?b) (9, ''h'', 1) = Some nb"
    using ready_add_peer [OF demo_env_facts(1) ready(2), of 9 "''h''" 1] by (simp add: accept_step_def)
  show thesis
    by (rule that [OF ready na nb]) (simp_all add: demo_side_def demo_world_def)
qed


end
