(* ===== verification/Overtake.thy ===== *)
theory Overtake
  imports Mesh Handshake
begin

text \<open>
  Between the locks. \<open>chain->lock\<close> is held while a block is added, \<open>peers_lock\<close> while it is announced, and
  neither in between; \<open>protocol_serialize_chain\<close> and the sending of the answer hold none. Elsewhere a
  message is handled, and a mined block published, in one step. Here these operations are cut in two, and
  the threads of a node run between the halves.
\<close>

section \<open>The halves\<close>

text \<open>\<open>handle_message\<close> up to the broadcast: the block that is to be relayed, if any.\<close>

definition enter_block :: "env \<Rightarrow> 'a callbacks \<Rightarrow> 'a node_t \<Rightarrow> string \<Rightarrow> ('a node_t \<times> block_t option) option" where
  "enter_block e cb n payload =
     (case protocol_deserialize_block (malloc e) payload of (r, block) \<Rightarrow>
        if r \<noteq> 0 then Some (n, None)
        else do {
          (v, c) \<leftarrow> chain_add_block (sha e) (node_chain n) block;
          let n = n\<lparr>node_chain := c\<rparr>;
          if v \<noteq> 0 then Some (n, None)
          else Some (case on_new_block cb of None \<Rightarrow> n | Some f \<Rightarrow> f n block, Some block)
        })"

text \<open>The answer to \<open>MSG_REQUEST_CHAIN\<close>, before it is sent.\<close>

definition chain_answer :: "env \<Rightarrow> 'a node_t \<Rightarrow> string option option" where
  "chain_answer e n = do {
     chain_json \<leftarrow> protocol_serialize_chain (malloc e) (node_chain n);
     Some (case chain_json of None \<Rightarrow> None
       | Some json \<Rightarrow> protocol_serialize_msg (malloc e) MSG_CHAIN_RESPONSE (Some json))
   }"

text \<open>The end of \<open>do_mine\<close> up to the broadcast.\<close>

definition enter_mined :: "env \<Rightarrow> block_t \<Rightarrow> 'k world \<Rightarrow> ('k world \<times> block_t option) option" where
  "enter_mined e b n = do {
     (r, c) \<leftarrow> chain_add_block (sha e) (node_chain n) b;
     if r = 0 then Some (n\<lparr>node_chain := c\<rparr>, Some b) else Some (n, None)
   }"

text \<open>What a thread has still to send, and the sending.\<close>

datatype due = Nothing_due | Relaying block_t int | Answering int string

definition relaying :: "int \<Rightarrow> block_t option \<Rightarrow> due" where
  "relaying x r = (case r of None \<Rightarrow> Nothing_due | Some b \<Rightarrow> Relaying b x)"

definition answering :: "int \<Rightarrow> string option \<Rightarrow> due" where
  "answering s r = (case r of None \<Rightarrow> Nothing_due | Some msg \<Rightarrow> Answering s msg)"

fun discharge :: "env \<Rightarrow> due \<Rightarrow> 'a node_t \<Rightarrow> 'a node_t option" where
  "discharge e Nothing_due n = Some n"
| "discharge e (Relaying b exclude_fd) n = broadcast_block_except e n b exclude_fd"
| "discharge e (Answering peer_fd msg) n = Some (snd (send_message e n peer_fd msg))"

text \<open>The halves one after the other are the operations.\<close>

lemma cut_operations:
  "handle_new_block e cb n s payload = enter_block e cb n payload \<bind> (\<lambda>(n, r). discharge e (relaying s r) n)"
  "handle_request_chain e n s = chain_answer e n \<bind> (\<lambda>r. discharge e (answering s r) n)"
  "mine_publish e b w = enter_mined e b w \<bind> (\<lambda>(n, r). discharge e (relaying (- 1) r) n)"
  by (auto simp: handle_new_block_def enter_block_def handle_request_chain_def chain_answer_def mine_publish_def
      enter_mined_def relaying_def answering_def node_broadcast_block_def Let_def
      split: option.splits prod.splits bind_splits)

section \<open>The threads of a node\<close>

text \<open>Thread 0 is the main thread, thread \<open>Suc i\<close> the reader of slot \<open>i\<close>.\<close>

record 'k desk =
  place :: "'k world"
  due :: "nat \<Rightarrow> due"

inductive cut_step :: "env \<Rightarrow> 'k desk \<Rightarrow> 'k desk \<Rightarrow> bool" for e :: env where
  block_entered: "due d (Suc i) = Nothing_due \<Longrightarrow> i < length (peers (place d)) \<Longrightarrow>
    protocol_parse_msg (malloc e) raw = (Some MSG_NEW_BLOCK, Some payload) \<Longrightarrow>
    enter_block e (app_callbacks e) (place d) payload = Some (n, r) \<Longrightarrow>
    cut_step e d (d\<lparr>place := n, due := (due d)(Suc i := relaying (fd (peers (place d) ! i)) r)\<rparr>)"
| chain_read: "due d (Suc i) = Nothing_due \<Longrightarrow> i < length (peers (place d)) \<Longrightarrow>
    protocol_parse_msg (malloc e) raw = (Some MSG_REQUEST_CHAIN, payload) \<Longrightarrow>
    chain_answer e (place d) = Some r \<Longrightarrow>
    cut_step e d (d\<lparr>due := (due d)(Suc i := answering (fd (peers (place d) ! i)) r)\<rparr>)"
| block_mined: "due d 0 = Nothing_due \<Longrightarrow> enter_mined e b (place d) = Some (n, r) \<Longrightarrow>
    cut_step e d (d\<lparr>place := n, due := (due d)(0 := relaying (- 1) r)\<rparr>)"
| due_sent: "due d t \<noteq> Nothing_due \<Longrightarrow> discharge e (due d t) (place d) = Some n \<Longrightarrow>
    cut_step e d (d\<lparr>place := n, due := (due d)(t := Nothing_due)\<rparr>)"

abbreviation idle :: "'k world \<Rightarrow> 'k desk" where
  "idle n \<equiv> \<lparr>place = n, due = \<lambda>_. Nothing_due\<rparr>"

section \<open>A reader of several lines\<close>

fun recv_lines :: "env \<Rightarrow> nat \<Rightarrow> nat \<Rightarrow> 'k world \<Rightarrow> string \<Rightarrow> ('k world \<times> string) option" where
  "recv_lines e j 0 n s = Some (n, s)"
| "recv_lines e j (Suc k) n s = do {
     (n, rest, cont) \<leftarrow> peer_recv e (app_callbacks e) j n s;
     recv_lines e j k n rest
   }"

text \<open>Blocks offered one after the other; those that are refused change nothing.\<close>

fun offer_blocks :: "digest_fn \<Rightarrow> blockchain_t \<Rightarrow> block_t list \<Rightarrow> blockchain_t option" where
  "offer_blocks h c [] = Some c"
| "offer_blocks h c (b # bs) = do {
     (r, c) \<leftarrow> chain_add_block h c b;
     offer_blocks h c bs
   }"

lemma recv_lines_append:
  "recv_lines e j (k + l) n s = recv_lines e j k n s \<bind> (\<lambda>(n, s). recv_lines e j l n s)"
  by (induction k arbitrary: n s) (auto split: bind_splits)

definition announcements :: "block_t list \<Rightarrow> string" where
  "announcements bs = stream (map Announced bs)"

lemma announcements_simps [simp]:
  "announcements [] = []" "announcements (b # bs) = parcel_text (Announced b) @ CHR 0x0A # announcements bs"
  "announcements (as @ bs) = announcements as @ announcements bs"
  by (simp_all add: announcements_def)

lemma recv_announcements:
  assumes "reliable e" "world_inv e n" "world_wire n" "j < length (peers n)" "\<forall>b \<in> set bs. block_wire b"
  shows "\<exists>n'. recv_lines e j (length bs) n (announcements bs @ rest) = Some (n', rest)
    \<and> offer_blocks (sha e) (node_chain n) bs = Some (node_chain n')
    \<and> world_inv e n' \<and> world_wire n' \<and> peers n' = peers n"
  using assms(2-5)
proof (induction bs arbitrary: n)
  case (Cons b bs)
  then have b: "block_wire b" by simp
  obtain r c where c: "chain_add_block (sha e) (node_chain n) b = Some (r, c)" "\<forall>x \<in> set (blocks c). block_wire x"
    by (rule add_wire_block [OF b Cons.prems(1,2)])
  from recv_announced_line [OF assms(1) b Cons.prems(3) c(1), of "announcements bs @ rest"]
  obtain out where recv: "peer_recv e (app_callbacks e) j n (announcements (b # bs) @ rest) =
      Some (n\<lparr>node_chain := c, outbox := outbox n @ out\<rparr>, announcements bs @ rest, True)" by simp
  let ?n = "n\<lparr>node_chain := c, outbox := outbox n @ out\<rparr>"
  have "world_inv e ?n" "world_wire ?n"
    using Cons.prems(1,2) c chain_add_block_inv [OF c(1)] block_wireD(1) [OF b]
    by (simp_all add: node_inv_def world_wire_def)
  from Cons.IH [OF this] Cons.prems(3,4) recv c(1) show ?case by (auto simp del: announcements_simps)
qed simp

section \<open>Late for ever\<close>

lemma grown_refl: "chain_inv h c \<Longrightarrow> grown h (length (blocks c)) c"
  by (auto simp: grown_def chain_inv_def chain_shape_def)

lemma add_blocks_grown:
  "add_blocks h c bs = Some (0, c') \<Longrightarrow> grown h l c \<Longrightarrow> l \<le> length (blocks c) \<Longrightarrow> \<forall>b \<in> set bs. block_shape b \<Longrightarrow>
    grown h l c' \<and> blocks c' = blocks c @ bs"
proof (induction bs arbitrary: c)
  case (Cons b bs)
  then obtain c1 where c1: "chain_add_block h c b = Some (0, c1)" "add_blocks h c1 bs = Some (0, c')"
    by (auto split: if_splits bind_splits)
  with grown_snoc [OF Cons.prems(2) c1(1)] Cons show ?case by auto
qed simp

lemma offer_refused:
  assumes "grown h l c" "l \<le> k" "k \<le> length (blocks c)" "\<forall>b \<in> set bs. \<exists>n. l \<le> n \<and> n < length (blocks c) \<and> n \<noteq> k \<and> b = blocks c ! n"
  shows "offer_blocks h (chain_at c k) bs = Some (chain_at c k)"
  using assms(4)
proof (induction bs)
  case (Cons b bs)
  then obtain n where "l \<le> n" "n < length (blocks c)" "n \<noteq> k" "b = blocks c ! n" by auto
  with grown_refused [OF assms(1), of n k] assms(2,3) Cons show ?case by simp
qed simp

text \<open>Two chains: what is offered behind the first block that is missing is refused.\<close>

lemma offer_late:
  assumes "chain_inv h c" "add_blocks h c (as @ b # bs) = Some (0, c')" "\<forall>x \<in> set (as @ b # bs). block_shape x"
  shows "offer_blocks h \<lparr>blocks = blocks c @ as\<rparr> bs = Some \<lparr>blocks = blocks c @ as\<rparr>"
proof -
  note c' = add_blocks_grown [OF assms(2) grown_refl [OF assms(1)] order_refl assms(3)]
  let ?k = "length (blocks c) + length as"
  have "offer_blocks h (chain_at c' ?k) bs = Some (chain_at c' ?k)"
  proof (rule offer_refused [OF conjunct1 [OF c']])
    show "\<forall>x \<in> set bs. \<exists>n. length (blocks c) \<le> n \<and> n < length (blocks c') \<and> n \<noteq> ?k \<and> x = blocks c' ! n"
    proof
      fix x assume "x \<in> set bs"
      then obtain i where "i < length bs" "x = bs ! i" by (auto simp: in_set_conv_nth)
      then have "length (blocks c) \<le> Suc (?k + i) \<and> Suc (?k + i) < length (blocks c') \<and> Suc (?k + i) \<noteq> ?k
          \<and> x = blocks c' ! Suc (?k + i)" using c' by (simp add: nth_append)
      then show "\<exists>n. length (blocks c) \<le> n \<and> n < length (blocks c') \<and> n \<noteq> ?k \<and> x = blocks c' ! n" by blast
    qed
  qed (use c' in simp_all)
  then show ?thesis using c' by (simp add: chain_at_def)
qed

lemma offer_swapped:
  assumes "chain_inv h c" "add_blocks h c (b1 # b2 # bs) = Some (0, c')" "\<forall>x \<in> set (b1 # b2 # bs). block_shape x"
  shows "offer_blocks h c (b2 # b1 # bs) = Some \<lparr>blocks = blocks c @ [b1]\<rparr>"
proof -
  let ?l = "length (blocks c)"
  note c' = add_blocks_grown [OF assms(2) grown_refl [OF assms(1)] order_refl assms(3)]
  have at: "chain_at c' ?l = c" "chain_at c' (Suc ?l) = \<lparr>blocks = blocks c @ [b1]\<rparr>" "blocks c' ! ?l = b1" "blocks c' ! Suc ?l = b2"
    using c' by (cases c; simp add: chain_at_def nth_append)+
  have "chain_add_block h c b2 = Some (- 1, c)"
    using grown_refused [OF conjunct1 [OF c'], of "Suc ?l" ?l] c' at by simp
  moreover have "chain_add_block h c b1 = Some (0, \<lparr>blocks = blocks c @ [b1]\<rparr>)"
    using grownD [OF conjunct1 [OF c'], of ?l] c' at by simp
  moreover have "offer_blocks h \<lparr>blocks = blocks c @ [b1]\<rparr> bs = Some \<lparr>blocks = blocks c @ [b1]\<rparr>"
    using offer_late [OF assms(1), of "[b1]" b2 bs] assms(2,3) by simp
  ultimately show ?thesis by simp
qed

section \<open>Runs of the threads\<close>

lemma enter_wire_block:
  assumes "reliable e" "block_wire b" "chain_add_block (sha e) (node_chain n) b = Some (r, c)"
  shows "protocol_parse_msg (malloc e) (msg_text MSG_NEW_BLOCK (block_text b)) = (Some MSG_NEW_BLOCK, Some (block_text b))"
    "enter_block e (app_callbacks e) n (block_text b) = Some (n\<lparr>node_chain := c\<rparr>, if r = 0 then Some b else None)"
proof -
  note al = reliable_malloc(1) [OF assms(1)]
  show "protocol_parse_msg (malloc e) (msg_text MSG_NEW_BLOCK (block_text b)) = (Some MSG_NEW_BLOCK, Some (block_text b))"
    using protocol_parse_msg_eq [OF block_wire_text(1) [OF assms(2)]] al by (simp add: alloc_ok_def)
  show "enter_block e (app_callbacks e) n (block_text b) = Some (n\<lparr>node_chain := c\<rparr>, if r = 0 then Some b else None)"
    using protocol_deserialize_block_text [OF assms(2), of "malloc e"] assms(3) al
    by (simp add: enter_block_def app_callbacks_def alloc_ok_def Let_def)
qed

lemma discharge_relaying:
  assumes "reliable e" "block_wire b"
  shows "discharge e (Relaying b s) n = Some (n\<lparr>outbox := outbox n @ map (\<lambda>p. (fd p, announcements [b]))
    (filter (\<lambda>p. active p \<and> fd p \<noteq> s) (peers n))\<rparr>)"
  using broadcast_block_eq [OF assms(1), of b n s] assms(2) by (simp add: block_wire_def)

text \<open>What one broadcast after the other brings to a slot.\<close>

lemma delivered_chunks:
  assumes "connected k n" "peers n1 = peers n" "outbox n2 = outbox n1 @ map (\<lambda>p. (fd p, l)) (filter (\<lambda>p. active p \<and> fd p \<noteq> s) (peers n1))"
    "\<exists>out. outbox n1 = outbox n @ out" "fd (peers n ! k) \<noteq> s"
  shows "delivered (fd (peers n ! k)) n n2 = delivered (fd (peers n ! k)) n n1 @ l"
proof -
  let ?s = "fd (peers n ! k)"
  have "filter (\<lambda>p. fd p = ?s \<and> active p \<and> fd p \<noteq> s) (peers n) = filter (\<lambda>p. active p \<and> fd p = ?s) (peers n)"
    using assms(5) by (intro filter_cong) auto
  also have "\<dots> = [peers n ! k]" using assms(1) by (simp add: connected_def)
  finally show ?thesis using assms(2-4) by (auto simp: delivered_def filter_map comp_def conj_ac)
qed

lemma relays_run:
  assumes "reliable e" "x < length (peers n)" "y < length (peers n)" "x \<noteq> y" "block_wire b1" "block_wire b2"
    "chain_add_block (sha e) (node_chain n) b1 = Some (0, c1)" "chain_add_block (sha e) c1 b2 = Some (0, c2)"
  defines "to s \<equiv> filter (\<lambda>p. active p \<and> fd p \<noteq> fd (peers n ! s)) (peers n)"
  shows "(cut_step e)\<^sup>*\<^sup>* (idle n) (idle (n\<lparr>node_chain := c2, outbox := (outbox n
    @ map (\<lambda>p. (fd p, announcements [b2])) (to y)) @ map (\<lambda>p. (fd p, announcements [b1])) (to x)\<rparr>))"
proof -
  let ?a = "\<lambda>_ :: nat. Nothing_due" and ?n1 = "n\<lparr>node_chain := c1\<rparr>" and ?n2 = "n\<lparr>node_chain := c2\<rparr>"
  let ?b = "?a(Suc x := Relaying b1 (fd (peers n ! x)))"
  let ?c = "?b(Suc y := Relaying b2 (fd (peers n ! y)))"
  let ?n3 = "?n2\<lparr>outbox := outbox n @ map (\<lambda>p. (fd p, announcements [b2])) (to y)\<rparr>"
  let ?n4 = "?n3\<lparr>outbox := outbox ?n3 @ map (\<lambda>p. (fd p, announcements [b1])) (to x)\<rparr>"
  note e1 = enter_wire_block [OF assms(1,5,7)] and e2 = enter_wire_block [OF assms(1,6), of ?n1 0 c2]
  have "cut_step e (idle n) \<lparr>place = ?n1, due = ?b\<rparr>"
    using block_entered [of "idle n" x e _ _ ?n1 "Some b1"] e1 assms(2) by (simp add: relaying_def)
  moreover have "cut_step e \<lparr>place = ?n1, due = ?b\<rparr> \<lparr>place = ?n2, due = ?c\<rparr>"
    using block_entered [of "\<lparr>place = ?n1, due = ?b\<rparr>" y e _ _ ?n2 "Some b2"] e2 assms(3,4,8) by (simp add: relaying_def)
  moreover have "cut_step e \<lparr>place = ?n2, due = ?c\<rparr> \<lparr>place = ?n3, due = ?b\<rparr>"
    using due_sent [of "\<lparr>place = ?n2, due = ?c\<rparr>" "Suc y" e ?n3] discharge_relaying [OF assms(1,6), of "fd (peers n ! y)" ?n2] assms(4)
    by (simp add: to_def fun_upd_idem del: discharge.simps)
  moreover have "cut_step e \<lparr>place = ?n3, due = ?b\<rparr> \<lparr>place = ?n4, due = ?a\<rparr>"
    using due_sent [of "\<lparr>place = ?n3, due = ?b\<rparr>" "Suc x" e ?n4] discharge_relaying [OF assms(1,5), of "fd (peers n ! x)" ?n3]
    by (simp add: to_def fun_upd_idem del: discharge.simps)
  ultimately have "(cut_step e)\<^sup>*\<^sup>* (idle n) \<lparr>place = ?n4, due = ?a\<rparr>"
    by (meson converse_rtranclp_into_rtranclp rtranclp.rtrancl_refl)
  then show ?thesis by simp
qed

definition answer_line :: "blockchain_t \<Rightarrow> string" where
  "answer_line c = msg_text MSG_CHAIN_RESPONSE (chain_text c) @ [CHR 0x0A]"

lemma recv_answer:
  assumes "reliable e" "chain_sendable c" "chain_inv (sha e) c" "j < length (peers n)"
  shows "recv_lines e j 1 n (answer_line c @ rest) = Some (n\<lparr>node_chain := longer (node_chain n) c\<rparr>, rest)"
proof -
  let ?m = "msg_text MSG_CHAIN_RESPONSE (chain_text c)"
  have "CHR 0x0A \<notin> set ?m" "CHR 0x00 \<notin> set ?m" "length ?m < MAX_MSG_SIZE - 1"
    using assms(2) chain_stream.frame_line by simp_all
  then have "read_message (malloc e) (answer_line c @ rest) = (Some ?m, rest)"
    using reliable_malloc(1) [OF assms(1)] read_message_line [of ?m "malloc e" rest]
    by (simp add: alloc_ok_def answer_line_def)
  with handle_answer [OF assms(1-3)] assms(4) show ?thesis by (simp add: peer_recv_def)
qed

lemma answer_run:
  assumes "reliable e" "z < length (peers n)" "chain_sendable (node_chain n)" "block_wire b"
    "chain_add_block (sha e) (node_chain n) b = Some (0, c)"
  defines "out \<equiv> outbox n @ map (\<lambda>p. (fd p, announcements [b])) (filter (\<lambda>p. active p \<and> fd p \<noteq> - 1) (peers n))"
  shows "(cut_step e)\<^sup>*\<^sup>* (idle n) (idle (n\<lparr>node_chain := c, outbox := out @ [(fd (peers n ! z), answer_line (node_chain n))]\<rparr>))"
proof -
  note al = reliable_malloc(1) [OF assms(1)]
  let ?a = "\<lambda>_ :: nat. Nothing_due" and ?n1 = "n\<lparr>node_chain := c\<rparr>" and ?l = "answer_line (node_chain n)"
  let ?b = "?a(Suc z := Answering (fd (peers n ! z)) ?l)"
  let ?c = "?b(0 := Relaying b (- 1))" and ?n2 = "?n1\<lparr>outbox := out\<rparr>"
  let ?n3 = "?n2\<lparr>outbox := outbox ?n2 @ [(fd (peers n ! z), ?l)]\<rparr>"
  have "protocol_serialize_chain (malloc e) (node_chain n) = Some (Some (chain_text (node_chain n)))"
    using assms(3) al
    by (intro protocol_serialize_chain_eq) (auto simp: chain_sendable_def chain_wire_def block_wire_def alloc_ok_def)
  then have "chain_answer e n = Some (Some ?l)"
    using al by (simp add: chain_answer_def answer_line_def protocol_serialize_msg_eq alloc_ok_def)
  moreover have "protocol_parse_msg (malloc e) (msg_text MSG_REQUEST_CHAIN ''{}'') = (Some MSG_REQUEST_CHAIN, Some ''{}'')"
    using protocol_parse_msg_eq [OF wire_object_empty] al by (simp add: alloc_ok_def)
  ultimately have "cut_step e (idle n) \<lparr>place = n, due = ?b\<rparr>"
    using chain_read [of "idle n" z e _ _ "Some ?l"] assms(2) by (simp add: answering_def)
  moreover have "cut_step e \<lparr>place = n, due = ?b\<rparr> \<lparr>place = ?n1, due = ?c\<rparr>"
    using block_mined [of "\<lparr>place = n, due = ?b\<rparr>" e b ?n1 "Some b"] assms(5) by (simp add: enter_mined_def relaying_def)
  moreover have "cut_step e \<lparr>place = ?n1, due = ?c\<rparr> \<lparr>place = ?n2, due = ?b\<rparr>"
    using due_sent [of "\<lparr>place = ?n1, due = ?c\<rparr>" 0 e ?n2] discharge_relaying [OF assms(1,4), of "- 1" ?n1]
    by (simp add: out_def fun_upd_idem del: discharge.simps)
  moreover have "cut_step e \<lparr>place = ?n2, due = ?b\<rparr> \<lparr>place = ?n3, due = ?a\<rparr>"
    using due_sent [of "\<lparr>place = ?n2, due = ?b\<rparr>" "Suc z" e ?n3] send_message_reliable [OF assms(1), of ?n2]
    by (simp add: fun_upd_idem)
  ultimately have "(cut_step e)\<^sup>*\<^sup>* (idle n) \<lparr>place = ?n3, due = ?a\<rparr>"
    by (meson converse_rtranclp_into_rtranclp rtranclp.rtrancl_refl)
  then show ?thesis by simp
qed

section \<open>A concrete node\<close>

definition demo_trio :: "blockchain_t \<Rightarrow> u8 world" where
  "demo_trio c = (demo_world [])\<lparr>node_chain := c, peers := map (\<lambda>s. \<lparr>fd = s, host = ''a'', port = 9333, active = True\<rparr>) [4, 5, 6]\<rparr>"

definition demo_next :: "u32 \<Rightarrow> block_t" where
  "demo_next i = demo_block\<lparr>index := i\<rparr>"

lemma demo_next_facts:
  "index (demo_next i) = i" "prev_hash (demo_next i) = zero_hash" "hash (demo_next i) = zero_hash" "tx_count (demo_next i) = 2"
  "block_wire (demo_next i)" "sealed zero_sha (demo_next i)" "demo_next 1 = demo_block"
proof -
  have "block_ok (demo_next i)" using demo_block_facts(2) by (simp add: demo_next_def block_ok_def block_shape_def)
  then show "block_wire (demo_next i)" using demo_wire(3) by (simp add: demo_next_def block_wire_def block_txs_def)
  show "sealed zero_sha (demo_next i)" using demo_block_facts(4) by (simp add: demo_next_def sealed_def)
  show "demo_next 1 = demo_block" by (simp add: demo_next_def demo_block_def)
qed (simp_all add: demo_next_def)

lemma demo_growth:
  "chain_add_block zero_sha \<lparr>blocks = [demo_genesis]\<rparr> (demo_next i) =
    Some (if i = 1 then (0, demo_chain) else (- 1, \<lparr>blocks = [demo_genesis]\<rparr>))"
  "add_blocks zero_sha demo_chain [demo_next 2, demo_next 3] = Some (0, \<lparr>blocks = blocks demo_chain @ [demo_next 2, demo_next 3]\<rparr>)"
  "add_blocks zero_sha \<lparr>blocks = [demo_genesis]\<rparr> [demo_next 1, demo_next 2, demo_next 3]
    = Some (0, \<lparr>blocks = blocks demo_chain @ [demo_next 2, demo_next 3]\<rparr>)"
proof -
  have shape: "block_shape (demo_next i)" for i by (rule block_wireD(1) [OF demo_next_facts(5)])
  show first: "chain_add_block zero_sha \<lparr>blocks = [demo_genesis]\<rparr> (demo_next i) =
    Some (if i = 1 then (0, demo_chain) else (- 1, \<lparr>blocks = [demo_genesis]\<rparr>))" for i
    using demo_next_facts(6,7) by (auto simp: chain_add_block_eq shape demo_next_facts(1-4) chain_length_def MAX_BLOCKS_def demo_chain_def)
  show second: "add_blocks zero_sha demo_chain [demo_next 2, demo_next 3] = Some (0, \<lparr>blocks = blocks demo_chain @ [demo_next 2, demo_next 3]\<rparr>)"
    by (simp add: chain_add_block_eq shape demo_next_facts chain_length_def MAX_BLOCKS_def demo_chain_def)
  show "add_blocks zero_sha \<lparr>blocks = [demo_genesis]\<rparr> [demo_next 1, demo_next 2, demo_next 3]
    = Some (0, \<lparr>blocks = blocks demo_chain @ [demo_next 2, demo_next 3]\<rparr>)"
    using second by (simp add: first)
qed

lemma demo_trio_facts:
  assumes "chain_inv zero_sha c" "\<forall>b \<in> set (blocks c). block_wire b"
  shows "world_inv demo_env (demo_trio c)" "world_wire (demo_trio c)" "node_chain (demo_trio c) = c"
    "length (peers (demo_trio c)) = 3" "k < 3 \<Longrightarrow> connected k (demo_trio c)"
proof -
  have sel: "node_chain (demo_trio c) = c" "app (demo_trio c) = app (demo_world [])" by (simp_all add: demo_trio_def)
  show "world_inv demo_env (demo_trio c)"
    using demo_world_inv [of "[]"] assms(1) by (simp add: node_inv_def sel) (simp add: demo_trio_def MAX_PEERS_def)
  show "world_wire (demo_trio c)" using assms(2) by (simp add: world_wire_def sel) (simp add: demo_wallet_def)
  show "k < 3 \<Longrightarrow> connected k (demo_trio c)" by (auto simp: connected_def demo_trio_def less_Suc_eq numeral_3_eq_3)
qed (simp_all add: demo_trio_def)

lemma demo_chains_wire: "\<forall>b \<in> set (blocks demo_chain). block_wire b" "\<forall>b \<in> set (blocks \<lparr>blocks = [demo_genesis]\<rparr>). block_wire b"
  by (simp_all add: demo_chain_def)

section \<open>Properties\<close>

text \<open>
  C8. Relayed blocks overtake each other: when two reader threads of a node take two consecutive blocks from
  two peers, the second thread may announce its block to a third peer before the first does. A peer that had
  the same chain then refuses the second block, takes the first, and refuses every block that the node
  announces from then on: it stays behind for ever, although nobody has mined on another branch.
\<close>

theorem relays_overtake:
  assumes "reliable e" "world_inv e n" "connected x n" "connected y n" "connected z n" "x \<noteq> y" "x \<noteq> z" "y \<noteq> z"
    "\<forall>b \<in> set (b1 # b2 # bs). block_wire b" "add_blocks (sha e) (node_chain n) (b1 # b2 # bs) = Some (0, c')"
    "world_inv e p" "world_wire p" "j < length (peers p)" "node_chain p = node_chain n"
  shows "\<exists>n' p'. (cut_step e)\<^sup>*\<^sup>* (idle n) (idle n')
    \<and> blocks (node_chain n') = blocks (node_chain n) @ [b1, b2]
    \<and> recv_lines e j (2 + length bs) p (delivered (fd (peers n ! z)) n n' @ announcements bs) = Some (p', [])
    \<and> blocks (node_chain p') = blocks (node_chain n) @ [b1]"
proof -
  have inv: "chain_inv (sha e) (node_chain n)" and shapes: "\<forall>b \<in> set (b1 # b2 # bs). block_shape b"
    using assms(2,9) block_wireD(1) by (auto simp: node_inv_def)
  obtain c1 c2 where c: "chain_add_block (sha e) (node_chain n) b1 = Some (0, c1)" "chain_add_block (sha e) c1 b2 = Some (0, c2)"
    using assms(10) by (auto split: if_splits bind_splits)
  have c2: "blocks c2 = blocks (node_chain n) @ [b1, b2]"
    using add_blocks_grown [of "sha e" "node_chain n" "[b1, b2]" c2, OF _ grown_refl [OF inv]] c shapes by simp
  have slots: "x < length (peers n)" "y < length (peers n)" using assms(3,4) by (simp_all add: connected_def)
  have fds: "fd (peers n ! z) \<noteq> fd (peers n ! x)" "fd (peers n ! z) \<noteq> fd (peers n ! y)"
    using connected_distinct [OF assms(5)] assms(3,4,7,8) by metis+
  let ?l = "\<lambda>b. announcements [b]" and ?to = "\<lambda>s. filter (\<lambda>p. active p \<and> fd p \<noteq> fd (peers n ! s)) (peers n)"
  define n3 where "n3 = n\<lparr>node_chain := c2, outbox := outbox n @ map (\<lambda>p. (fd p, ?l b2)) (?to y)\<rparr>"
  define n4 where "n4 = n3\<lparr>outbox := outbox n3 @ map (\<lambda>p. (fd p, ?l b1)) (?to x)\<rparr>"
  have run: "(cut_step e)\<^sup>*\<^sup>* (idle n) (idle n4)"
    using relays_run [OF assms(1) slots assms(6) _ _ c] assms(9) by (simp add: n3_def n4_def del: announcements_simps)
  have "delivered (fd (peers n ! z)) n n3 = [] @ ?l b2"
    using delivered_chunks [OF assms(5), of n n3 "?l b2", OF refl _ _ fds(2)] by (simp add: n3_def del: announcements_simps)
  moreover have "delivered (fd (peers n ! z)) n n4 = delivered (fd (peers n ! z)) n n3 @ ?l b1"
    using fds(1) by (intro delivered_chunks [OF assms(5), of n3]) (simp_all add: n3_def n4_def del: announcements_simps)
  ultimately have out: "delivered (fd (peers n ! z)) n n4 @ announcements bs = announcements (b2 # b1 # bs)" by simp
  obtain p' where "recv_lines e j (2 + length bs) p (announcements (b2 # b1 # bs)) = Some (p', [])"
    "offer_blocks (sha e) (node_chain p) (b2 # b1 # bs) = Some (node_chain p')"
    using recv_announcements [OF assms(1,11-13), of "b2 # b1 # bs" "[]"] assms(9) by (auto simp del: announcements_simps)
  with run out c2 offer_swapped [OF inv assms(10) shapes] assms(14) show ?thesis by (auto simp: n3_def n4_def)
qed

theorem relays_overtake_witness:
  "\<exists>n' p'. (cut_step demo_env)\<^sup>*\<^sup>* (idle (demo_trio \<lparr>blocks = [demo_genesis]\<rparr>)) (idle n')
    \<and> blocks (node_chain n') = [demo_genesis, demo_next 1, demo_next 2]
    \<and> recv_lines demo_env 0 3 (demo_trio \<lparr>blocks = [demo_genesis]\<rparr>)
        (delivered 6 (demo_trio \<lparr>blocks = [demo_genesis]\<rparr>) n' @ announcements [demo_next 3]) = Some (p', [])
    \<and> blocks (node_chain p') = [demo_genesis, demo_next 1]"
proof -
  let ?c = "\<lparr>blocks = [demo_genesis]\<rparr>"
  note t = demo_trio_facts [OF demo_chain_inv(2) demo_chains_wire(2)]
  have "fd (peers (demo_trio ?c) ! 2) = 6" "sha demo_env = zero_sha" by (simp_all add: demo_trio_def)
  with relays_overtake [OF demo_env_facts(1) t(1) t(5) t(5) t(5), of 0 1 2 "demo_next 1" "demo_next 2" "[demo_next 3]"
      "\<lparr>blocks = blocks demo_chain @ [demo_next 2, demo_next 3]\<rparr>" "demo_trio ?c" 0] t demo_growth(3) demo_next_facts(5)
  show ?thesis by (simp del: announcements_simps recv_lines.simps add_blocks.simps)
qed

text \<open>
  C9. An answer is overtaken by an announcement: a peer asks for the chain, the thread that answers reads it, and
  before it sends the answer the user's block is added and announced. The peer, which cannot use that block yet,
  refuses it, then adopts the chain without it, and refuses every later block: it has asked, has been
  answered, and stays behind for ever.
\<close>

theorem answer_overtaken:
  assumes "reliable e" "world_inv e n" "world_wire n" "connected z n" "chain_sendable (node_chain n)"
    "\<forall>x \<in> set (b # bs). block_wire x" "add_blocks (sha e) (node_chain n) (b # bs) = Some (0, c')"
    "world_inv e p" "world_wire p" "j < length (peers p)" "chain_length (node_chain p) < chain_length (node_chain n)"
    "chain_add_block (sha e) (node_chain p) b = Some (- 1, node_chain p)"
  shows "\<exists>n' p'. (cut_step e)\<^sup>*\<^sup>* (idle n) (idle n')
    \<and> blocks (node_chain n') = blocks (node_chain n) @ [b]
    \<and> recv_lines e j (2 + length bs) p (delivered (fd (peers n ! z)) n n' @ announcements bs) = Some (p', [])
    \<and> node_chain p' = node_chain n"
proof -
  let ?c = "node_chain n" and ?s = "fd (peers n ! z)"
  have inv: "chain_inv (sha e) ?c" and shapes: "\<forall>x \<in> set (b # bs). block_shape x"
    using assms(2,6) block_wireD(1) by (auto simp: node_inv_def)
  obtain c1 where c1: "chain_add_block (sha e) ?c b = Some (0, c1)" using assms(7) by (auto split: if_splits bind_splits)
  have z: "z < length (peers n)" "?s \<noteq> - 1" using assms(4) by (simp_all add: connected_def)
  have b: "block_wire b" using assms(6) by simp
  let ?n1 = "n\<lparr>node_chain := c1\<rparr>"
  define n2 where "n2 = ?n1\<lparr>outbox := outbox n @ map (\<lambda>p. (fd p, announcements [b])) (filter (\<lambda>p. active p \<and> fd p \<noteq> - 1) (peers n))\<rparr>"
  define n3 where "n3 = n2\<lparr>outbox := outbox n2 @ [(?s, answer_line ?c)]\<rparr>"
  have run: "(cut_step e)\<^sup>*\<^sup>* (idle n) (idle n3)"
    using answer_run [OF assms(1) z(1) assms(5) b c1] by (simp add: n2_def n3_def del: announcements_simps)
  have "delivered ?s n n2 = [] @ announcements [b]"
    using delivered_chunks [OF assms(4), of n n2 "announcements [b]" "- 1"] z(2) by (simp add: n2_def del: announcements_simps)
  then have out: "delivered ?s n n3 = announcements [b] @ answer_line ?c"
    by (auto simp: n3_def delivered_def n2_def)
  obtain p1 where p1: "recv_lines e j 1 p (announcements [b] @ answer_line ?c @ announcements bs) = Some (p1, answer_line ?c @ announcements bs)"
    "offer_blocks (sha e) (node_chain p) [b] = Some (node_chain p1)" "world_inv e p1" "world_wire p1" "peers p1 = peers p"
    using recv_announcements [OF assms(1,8-10), of "[b]" "answer_line ?c @ announcements bs"] b by (auto simp del: announcements_simps)
  then have chain: "node_chain p1 = node_chain p" using assms(12) by simp
  let ?p2 = "p1\<lparr>node_chain := ?c\<rparr>"
  have p2: "recv_lines e j 1 p1 (answer_line ?c @ announcements bs) = Some (?p2, announcements bs)"
    using recv_answer [OF assms(1,5) inv, of j p1 "announcements bs"] assms(10,11) p1(5) chain by (simp add: longer_def)
  have "world_inv e ?p2" "world_wire ?p2"
    using p1(3,4) inv assms(3) by (simp_all add: node_inv_def world_wire_def)
  then obtain p3 where p3: "recv_lines e j (length bs) ?p2 (announcements bs @ []) = Some (p3, [])"
    "offer_blocks (sha e) ?c bs = Some (node_chain p3)"
    using recv_announcements [OF assms(1), of ?p2 j bs "[]"] assms(6,10) p1(5) by auto
  have "recv_lines e j (1 + 1 + length bs) p (announcements [b] @ answer_line ?c @ announcements bs) = Some (p3, [])"
    by (simp only: recv_lines_append p1(1) p2 p3(1) [simplified append_Nil2] Option.bind.bind_lunit prod.case)
  moreover have "node_chain p3 = ?c" using offer_late [OF inv, of "[]" b bs] assms(7) shapes p3(2) by (cases ?c) simp
  moreover have "blocks c1 = blocks ?c @ [b]"
    using add_blocks_grown [of "sha e" ?c "[b]" c1, OF _ grown_refl [OF inv]] c1 shapes by simp
  ultimately show ?thesis using run out by (intro exI [of _ n3] exI [of _ p3]) (simp add: n3_def n2_def)
qed

theorem answer_overtaken_witness:
  "\<exists>n' p'. (cut_step demo_env)\<^sup>*\<^sup>* (idle (demo_trio demo_chain)) (idle n')
    \<and> blocks (node_chain n') = blocks demo_chain @ [demo_next 2]
    \<and> recv_lines demo_env 0 3 (demo_trio \<lparr>blocks = [demo_genesis]\<rparr>)
        (delivered 6 (demo_trio demo_chain) n' @ announcements [demo_next 3]) = Some (p', [])
    \<and> node_chain p' = demo_chain"
proof -
  let ?c = "\<lparr>blocks = [demo_genesis]\<rparr>"
  note t = demo_trio_facts [OF demo_chain_inv(1) demo_chains_wire(1)] and u = demo_trio_facts [OF demo_chain_inv(2) demo_chains_wire(2)]
  have "fd (peers (demo_trio demo_chain) ! 2) = 6" "sha demo_env = zero_sha" "(2 :: u32) \<noteq> 1" by (simp_all add: demo_trio_def)
  moreover have "chain_sendable demo_chain" using demo_wire(5) by (simp add: chain_sendable_def chain_length_def demo_chain_def)
  moreover have "chain_length ?c < chain_length demo_chain" by (simp add: chain_length_def demo_chain_def)
  ultimately show ?thesis
    using answer_overtaken [OF demo_env_facts(1) t(1,2) t(5), of 2 "demo_next 2" "[demo_next 3]"
        "\<lparr>blocks = blocks demo_chain @ [demo_next 2, demo_next 3]\<rparr>" "demo_trio ?c" 0] t u demo_growth demo_next_facts(5)
    by (simp del: announcements_simps recv_lines.simps add_blocks.simps)
qed

end
