(* ===== verification/Trunk.thy ===== *)
theory Trunk
  imports Overtake
begin

text \<open>
  Networks without cycles, between the locks: the programs of \<open>Mesh\<close>, with the operations that \<open>Overtake\<close>
  cuts in two done in two steps. Where every node hears of the miner's blocks over one connection only, one
  thread relays them all, and no order of the threads can turn them round.
\<close>

section \<open>The shape of the network\<close>

text \<open>
  The miner is the root. \<open>par v\<close> is the slot through which another node \<open>v\<close> hears of the miner: every
  connection is this slot for exactly one of its two ends.
\<close>

definition upward :: "nat \<Rightarrow> (nat \<Rightarrow> nat) \<Rightarrow> socket \<Rightarrow> bool" where
  "upward m par x \<longleftrightarrow> fst x \<noteq> m \<and> snd x = par (fst x)"

definition rooted :: "(socket \<Rightarrow> socket option) \<Rightarrow> nat \<Rightarrow> (nat \<Rightarrow> nat) \<Rightarrow> bool" where
  "rooted wire m par \<longleftrightarrow> (\<forall>x y. wire x = Some y \<longrightarrow> upward m par x \<noteq> upward m par y)
     \<and> (\<forall>v \<in> nodes wire. v \<noteq> m \<longrightarrow> (v, par v) \<in> dom wire)"

lemma rootedD:
  "rooted wire m par \<Longrightarrow> wire x = Some y \<Longrightarrow> upward m par y \<longleftrightarrow> \<not> upward m par x"
  "rooted wire m par \<Longrightarrow> v \<in> nodes wire \<Longrightarrow> v \<noteq> m \<Longrightarrow> (v, par v) \<in> dom wire"
  unfolding rooted_def by blast+

lemma upward_unique: "upward m par x \<Longrightarrow> upward m par y \<Longrightarrow> fst x = fst y \<Longrightarrow> x = y"
  by (simp add: upward_def prod_eq_iff)

text \<open>
  What is under way from a node to the next one down, together with what the node has added and not yet
  announced (\<open>pd\<close>), are exactly the blocks that the next one lacks, in their order.
\<close>

definition lane_inv :: "(socket \<Rightarrow> socket option) \<Rightarrow> nat \<Rightarrow> (nat \<Rightarrow> nat) \<Rightarrow> flood \<Rightarrow> (nat \<Rightarrow> nat list) \<Rightarrow> bool" where
  "lane_inv wire m par f pd \<longleftrightarrow> bounded wire m f \<and> (\<forall>v \<in> nodes wire. \<forall>n \<in> set (pd v). n < height f v)
     \<and> (\<forall>x y. wire x = Some y \<longrightarrow> upward m par x \<longrightarrow>
          line f x @ pd (fst y) = [height f (fst x) ..< height f (fst y)] \<and> height f (fst x) \<le> height f (fst y))
     \<and> (\<forall>x y. wire x = Some y \<longrightarrow> \<not> upward m par x \<longrightarrow> line f x = [])"

lemma lane_invD:
  assumes "lane_inv wire m par f pd"
  shows "bounded wire m f" "v \<in> nodes wire \<Longrightarrow> n \<in> set (pd v) \<Longrightarrow> n < height f v"
    "wire x = Some y \<Longrightarrow> upward m par x \<Longrightarrow> line f x @ pd (fst y) = [height f (fst x) ..< height f (fst y)]"
    "wire x = Some y \<Longrightarrow> upward m par x \<Longrightarrow> height f (fst x) \<le> height f (fst y)"
    "wire x = Some y \<Longrightarrow> \<not> upward m par x \<Longrightarrow> line f x = []" "v \<in> nodes wire \<Longrightarrow> height f v \<le> height f m"
  using assms unfolding lane_inv_def bounded_def by blast+

lemma lane_invI:
  assumes "\<And>v. v \<in> nodes wire \<Longrightarrow> height f v \<le> height f m" "\<And>v n. v \<in> nodes wire \<Longrightarrow> n \<in> set (pd v) \<Longrightarrow> n < height f v"
    "\<And>x y. wire x = Some y \<Longrightarrow> upward m par x \<Longrightarrow> line f x @ pd (fst y) = [height f (fst x) ..< height f (fst y)]"
    "\<And>x y. wire x = Some y \<Longrightarrow> upward m par x \<Longrightarrow> height f (fst x) \<le> height f (fst y)"
    "\<And>x y. wire x = Some y \<Longrightarrow> \<not> upward m par x \<Longrightarrow> line f x = []" "topology wire"
  shows "lane_inv wire m par f pd"
proof -
  have "n < height f m" if "wire x = Some y" "n \<in> set (line f x)" for x y n
  proof (cases "upward m par x")
    case True
    have "n \<in> set [height f (fst x) ..< height f (fst y)]"
      unfolding assms(3) [OF that(1) True, symmetric] using that(2) by simp
    then have "n < height f (fst y)" by simp
    then show ?thesis using assms(1) wire_nodes [OF that(1) assms(6)] by (meson less_le_trans)
  qed (use assms(5) [OF that(1)] that(2) in simp)
  then have "bounded wire m f" using assms(1) unfolding bounded_def by blast
  then show ?thesis using assms(2-5) unfolding lane_inv_def by blast
qed

lemma lane_mined:
  assumes "lane_inv wire m par f pd" "topology wire" "pd m = []"
  shows "lane_inv wire m par (f\<lparr>height := (height f)(m := Suc (height f m))\<rparr>) (pd(m := [height f m]))"
proof -
  note old = lane_invD [OF assms(1)]
  have ends: "fst x \<noteq> m" "fst x \<noteq> fst y" if "wire x = Some y" "upward m par x" for x y
    using that topologyD [OF assms(2) that(1)] by (simp_all add: upward_def)
  show ?thesis
  proof (rule lane_invI)
    fix x y assume w: "wire x = Some y" "upward m par x"
    show "line (f\<lparr>height := (height f)(m := Suc (height f m))\<rparr>) x @ (pd(m := [height f m])) (fst y)
      = [height (f\<lparr>height := (height f)(m := Suc (height f m))\<rparr>) (fst x) ..< height (f\<lparr>height := (height f)(m := Suc (height f m))\<rparr>) (fst y)]"
      using old(3,4) [OF w] ends [OF w] assms(3) by (cases "fst y = m") simp_all
  qed (use old ends assms(2) in \<open>auto simp: le_SucI split: if_splits\<close>)
qed

lemma lane_sent:
  assumes "lane_inv wire m par f pd" "topology wire" "rooted wire m par" "pd v = [n]"
  shows "lane_inv wire m par (f\<lparr>line := pass wire v (\<lambda>y. \<not> upward m par y) n (line f)\<rparr>) (pd(v := []))"
proof -
  note old = lane_invD [OF assms(1)]
  have ln: "pass wire v (\<lambda>y. \<not> upward m par y) n (line f) x = (if fst y = v \<and> upward m par x then line f x @ [n] else line f x)"
    if "wire x = Some y" for x y
    using pass_wire [of wire, OF that] rootedD(1) [OF assms(3) that] by simp
  show ?thesis
  proof (rule lane_invI)
    fix x y assume w: "wire x = Some y" "upward m par x"
    show "line (f\<lparr>line := pass wire v (\<lambda>y. \<not> upward m par y) n (line f)\<rparr>) x @ (pd(v := [])) (fst y)
      = [height (f\<lparr>line := pass wire v (\<lambda>y. \<not> upward m par y) n (line f)\<rparr>) (fst x)
         ..< height (f\<lparr>line := pass wire v (\<lambda>y. \<not> upward m par y) n (line f)\<rparr>) (fst y)]"
      using old(3) [OF w] w(2) assms(4) by (auto simp: ln [OF w(1)])
  qed (use old ln assms(2) in \<open>auto split: if_splits\<close>)
qed

lemma lane_heard:
  assumes "lane_inv wire m par f pd" "topology wire" "x \<in> dom wire" "upward m par x" "line f x = n # ns" "pd (fst x) = []"
  shows "height f (fst x) = n \<and> n < height f m
    \<and> lane_inv wire m par (f\<lparr>height := (height f)(fst x := Suc n), line := (line f)(x := ns)\<rparr>) (pd(fst x := [n]))"
proof -
  let ?v = "fst x" and ?f = "f\<lparr>height := (height f)(fst x := Suc n), line := (line f)(x := ns)\<rparr>" and ?p = "pd(fst x := [n])"
  note old = lane_invD [OF assms(1)]
  obtain y where y: "wire x = Some y" using assms(3) by blast
  have ends: "fst x \<noteq> fst y" "?v \<in> nodes wire" "fst y \<in> nodes wire"
    using topologyD [OF assms(2) y] wire_nodes [OF y assms(2)] by simp_all
  have "height f ?v < height f (fst y)" using old(3) [OF y assms(4)] assms(5) by (cases "height f ?v < height f (fst y)") simp_all
  then have n: "height f ?v = n" "ns @ pd (fst y) = [Suc n ..< height f (fst y)]" "n < height f (fst y)"
    using old(3) [OF y assms(4)] assms(5) by (simp_all add: upt_conv_Cons)
  have m: "n < height f m" "?v \<noteq> m" using n(3) old(6) [OF ends(3)] assms(4) by (simp_all add: upward_def)
  have "lane_inv wire m par ?f ?p"
  proof (rule lane_invI)
    fix a b assume w: "wire a = Some b" "upward m par a"
    note o = old(3,4) [OF w] and ab = topologyD [OF assms(2) w(1)]
    have "a = x" if "fst a = ?v" using upward_unique [OF w(2) assms(4) that] .
    then consider "a = x" "b = y" | "a \<noteq> x" "fst a \<noteq> ?v" using w(1) y by (cases "fst a = ?v") auto
    then have "line ?f a @ ?p (fst b) = [height ?f (fst a) ..< height ?f (fst b)] \<and> height ?f (fst a) \<le> height ?f (fst b)"
    proof cases
      case 1
      then show ?thesis using n ends(1) by simp
    next
      case 2
      then show ?thesis using o n(1) assms(6) by (cases "fst b = ?v") simp_all
    qed
    then show "line ?f a @ ?p (fst b) = [height ?f (fst a) ..< height ?f (fst b)]" "height ?f (fst a) \<le> height ?f (fst b)"
      by blast+
  next
    fix v k assume "v \<in> nodes wire" "k \<in> set (?p v)"
    then show "k < height ?f v" using old(2) by (auto split: if_splits)
  qed (use old m ends assms(2,4) in \<open>auto simp: upward_def Suc_le_eq\<close>)
  with n(1) m(1) show ?thesis by blast
qed

lemma lane_agrees:
  assumes "lane_inv wire m par f pd" "topology wire" "rooted wire m par"
    "\<forall>x \<in> dom wire. line f x = []" "\<forall>v \<in> nodes wire. pd v = []" "(linked wire)\<^sup>*\<^sup>* m v"
  shows "height f v = height f m"
  using assms(6)
proof (induction rule: rtranclp_induct)
  case (step u v)
  note old = lane_invD [OF assms(1)]
  have same: "height f (fst x) = height f (fst y)" if "wire x = Some y" "upward m par x" for x y
  proof -
    have "line f x = []" "pd (fst y) = []" using assms(4,5) wire_nodes [OF that(1) assms(2)] that(1) by blast+
    then have "[height f (fst x) ..< height f (fst y)] = []" using old(3) [OF that] by simp
    with old(4) [OF that] show ?thesis by auto
  qed
  obtain x y where x: "wire x = Some y" "fst x = u" "fst y = v" using step.hyps(2) unfolding linked_def by blast
  then have "height f u = height f v"
    using same [OF x(1)] same [OF conjunct1 [OF topologyD [OF assms(2) x(1)]]] rootedD(1) [OF assms(3) x(1)] by auto
  then show ?case using step.IH by simp
qed simp

text \<open>What is left to do until everybody knows everything.\<close>

definition lane_effort :: "(socket \<Rightarrow> socket option) \<Rightarrow> nat \<Rightarrow> flood \<Rightarrow> (nat \<Rightarrow> nat list) \<Rightarrow> nat" where
  "lane_effort wire m f pd = gap wire m f * (card (dom wire) + 2)
     + (\<Sum>v \<in> nodes wire. length (pd v)) * (card (dom wire) + 1) + load wire f"

lemma sum_pending:
  assumes "finite A" "v \<in> A"
  shows "(\<Sum>u \<in> A. length ((pd(v := ns)) u)) + length (pd v) = (\<Sum>u \<in> A. length (pd u)) + length ns"
proof -
  have "(\<Sum>u \<in> A - {v}. length ((pd(v := ns)) u)) = (\<Sum>u \<in> A - {v}. length (pd u))" by (rule sum.cong) simp_all
  with assms show ?thesis by (simp add: sum.remove)
qed

lemma heard_effort:
  assumes "lane_inv wire m par f pd" "topology wire" "x \<in> dom wire" "upward m par x" "line f x = n # ns" "pd (fst x) = []"
  shows "lane_effort wire m (f\<lparr>height := (height f)(fst x := Suc n), line := (line f)(x := ns)\<rparr>) (pd(fst x := [n]))
    < lane_effort wire m f pd"
proof -
  let ?f = "f\<lparr>height := (height f)(fst x := Suc n), line := (line f)(x := ns)\<rparr>"
  have v: "fst x \<in> nodes wire" using assms(3) by (simp add: nodes_def)
  have "gap wire m f = Suc (gap wire m ?f)"
    using lane_heard [OF assms] by (intro gap_learned [OF assms(2) v]) simp_all
  moreover have "load wire f = Suc (load wire ?f)"
    using load_pop [OF assms(2,3,5)] by (simp add: load_def)
  moreover have "(\<Sum>u \<in> nodes wire. length ((pd(fst x := [n])) u)) = Suc (\<Sum>u \<in> nodes wire. length (pd u))"
    using sum_pending [OF _ v, of pd "[n]"] finite_wire [OF assms(2)] assms(6) by simp
  ultimately show ?thesis by (simp add: lane_effort_def del: fun_upd_apply)
qed

lemma sent_effort:
  assumes "topology wire" "v \<in> nodes wire" "pd v = [n]"
  shows "lane_effort wire m (f\<lparr>line := pass wire v sel n (line f)\<rparr>) (pd(v := [])) < lane_effort wire m f pd"
proof -
  let ?f = "f\<lparr>line := pass wire v sel n (line f)\<rparr>"
  have "gap wire m ?f = gap wire m f" by (simp add: gap_def)
  moreover have "load wire ?f \<le> card (dom wire) + load wire f"
    using load_pass [OF assms(1), of v sel n "line f"] by (simp add: load_def)
  moreover have "Suc (\<Sum>u \<in> nodes wire. length ((pd(v := [])) u)) = (\<Sum>u \<in> nodes wire. length (pd u))"
    using sum_pending [OF _ assms(2), of pd "[]"] finite_wire [OF assms(1)] assms(3) by simp
  ultimately show ?thesis unfolding lane_effort_def by (elim HOL.subst) (simp add: algebra_simps)
qed

section \<open>The programs, cut between the locks\<close>

text \<open>
  A program and what its threads have still to send. The main thread adds the block it has mined in one step,
  a reader a block that it has read, and it reads the chain for an answer; what is due is sent in another step.
\<close>

inductive fine_step :: "env \<Rightarrow> 'k crypto \<Rightarrow> (int \<Rightarrow> string option) \<Rightarrow> nat \<Rightarrow> 'k system \<times> (nat \<Rightarrow> due)
    \<Rightarrow> 'k system \<times> (nat \<Rightarrow> due) \<Rightarrow> bool"
  for e :: env and cr :: "'k crypto" and ctime :: "int \<Rightarrow> string option" and i :: nat where
  main_acts: "td 0 = Nothing_due \<Longrightarrow> main_step e cr ctime s s' \<Longrightarrow> opened s' = opened s \<Longrightarrow>
    (\<And>b. pc s \<noteq> Publishing b) \<Longrightarrow> fine_step e cr ctime i (s, td) (s', td)"
| main_enters: "td 0 = Nothing_due \<Longrightarrow> pc s = Publishing b \<Longrightarrow> enter_mined e b (world s) = Some (n, r) \<Longrightarrow>
    fine_step e cr ctime i (s, td) (s\<lparr>world := n, pc := AtMenu\<rparr>, td(0 := relaying (- 1) r))"
| reader_enters: "td (Suc i) = Nothing_due \<Longrightarrow> i < length (peers (world s)) \<Longrightarrow> running (world s) \<Longrightarrow>
    active (peers (world s) ! i) \<Longrightarrow> next_frame (incoming s i) = Some (raw, rest) \<Longrightarrow>
    protocol_parse_msg (malloc e) raw = (Some MSG_NEW_BLOCK, Some payload) \<Longrightarrow>
    enter_block e (app_callbacks e) (world s) payload = Some (n, r) \<Longrightarrow>
    fine_step e cr ctime i (s, td) (s\<lparr>world := n, incoming := (incoming s)(i := rest)\<rparr>, td(Suc i := relaying (slot_fd i s) r))"
| reader_answers: "td (Suc i) = Nothing_due \<Longrightarrow> i < length (peers (world s)) \<Longrightarrow> running (world s) \<Longrightarrow>
    active (peers (world s) ! i) \<Longrightarrow> next_frame (incoming s i) = Some (raw, rest) \<Longrightarrow>
    protocol_parse_msg (malloc e) raw = (Some MSG_REQUEST_CHAIN, payload) \<Longrightarrow> chain_answer e (world s) = Some r \<Longrightarrow>
    fine_step e cr ctime i (s, td) (s\<lparr>incoming := (incoming s)(i := rest)\<rparr>, td(Suc i := answering (slot_fd i s) r))"
| reader_handles: "td (Suc i) = Nothing_due \<Longrightarrow> i < length (peers (world s)) \<Longrightarrow> running (world s) \<Longrightarrow>
    active (peers (world s) ! i) \<Longrightarrow> next_frame (incoming s i) = Some (raw, rest) \<Longrightarrow>
    (\<And>payload. protocol_parse_msg (malloc e) raw \<noteq> (Some MSG_NEW_BLOCK, Some payload)) \<Longrightarrow>
    fst (protocol_parse_msg (malloc e) raw) \<noteq> Some MSG_REQUEST_CHAIN \<Longrightarrow>
    handle_message e (app_callbacks e) (world s) (slot_fd i s) raw = Some n \<Longrightarrow>
    fine_step e cr ctime i (s, td) (s\<lparr>world := n, incoming := (incoming s)(i := rest)\<rparr>, td)"
| thread_sends: "td t \<noteq> Nothing_due \<Longrightarrow> discharge e (td t) (world s) = Some n \<Longrightarrow>
    fine_step e cr ctime i (s, td) (s\<lparr>world := n\<rparr>, td(t := Nothing_due))"

inductive fine_mesh :: "env \<Rightarrow> 'k crypto \<Rightarrow> (int \<Rightarrow> string option) \<Rightarrow> (socket \<Rightarrow> socket option) \<Rightarrow> nat
    \<Rightarrow> (nat \<Rightarrow> 'k system) \<times> (nat \<Rightarrow> nat \<Rightarrow> due) \<Rightarrow> (nat \<Rightarrow> 'k system) \<times> (nat \<Rightarrow> nat \<Rightarrow> due) \<Rightarrow> bool"
  for e :: env and cr :: "'k crypto" and ctime :: "int \<Rightarrow> string option" and wire :: "socket \<Rightarrow> socket option" and m :: nat where
  fine_moves: "(v, i) \<in> dom wire \<Longrightarrow> fine_step e cr ctime i (\<sigma> v, td v) (s', t') \<Longrightarrow> v = m \<or> \<not> mining s' \<Longrightarrow>
    fine_mesh e cr ctime wire m (\<sigma>, td) (carry wire v s' \<sigma>, td(v := t'))"

text \<open>The steps of \<open>Duo\<close> and \<open>Mesh\<close> are runs of these.\<close>

lemma sends_due:
  assumes "discharge e d n = Some n'" "td t = Nothing_due"
  shows "(fine_step e cr ctime i)\<^sup>*\<^sup>* (s\<lparr>world := n\<rparr>, td(t := d)) (s\<lparr>world := n'\<rparr>, td)"
proof (cases "d = Nothing_due")
  case True
  then show ?thesis using assms by (simp add: fun_upd_idem)
next
  case False
  then have "fine_step e cr ctime i (s\<lparr>world := n\<rparr>, td(t := d)) ((s\<lparr>world := n\<rparr>)\<lparr>world := n'\<rparr>, (td(t := d))(t := Nothing_due))"
    using assms(1) by (intro thread_sends) simp_all
  moreover have "(td(t := d))(t := Nothing_due) = td" using assms(2) by (simp add: fun_upd_idem)
  ultimately show ?thesis by (simp add: r_into_rtranclp)
qed

lemma world_last:
  fixes s :: "'k system"
  shows "s\<lparr>world := n, pc := p\<rparr> = s\<lparr>pc := p\<rparr>\<lparr>world := n\<rparr>"
    "s\<lparr>world := n, incoming := g\<rparr> = s\<lparr>incoming := g\<rparr>\<lparr>world := n\<rparr>"
    "s\<lparr>incoming := g\<rparr> = s\<lparr>incoming := g\<rparr>\<lparr>world := world s\<rparr>"
  by (cases s; simp)+

lemma side_step_fine:
  assumes "side_step e cr ctime i s s'" "malloc e MAX_MSG_SIZE"
  shows "(fine_step e cr ctime i)\<^sup>*\<^sup>* (s, \<lambda>_. Nothing_due) (s', \<lambda>_. Nothing_due)"
  using assms(1)
proof cases
  case acts
  show ?thesis
  proof (cases "\<exists>b. pc s = Publishing b")
    case False
    with acts show ?thesis by (intro r_into_rtranclp main_acts) simp_all
  next
    case True
    then obtain b n where b: "pc s = Publishing b" "mine_publish e b (world s) = Some n" "s' = s\<lparr>world := n, pc := AtMenu\<rparr>"
      using acts(1) by (auto elim: main_stepE)
    then obtain n1 r where n1: "enter_mined e b (world s) = Some (n1, r)" "discharge e (relaying (- 1) r) n1 = Some n"
      by (auto simp: cut_operations)
    let ?td = "\<lambda>_ :: nat. Nothing_due"
    have "fine_step e cr ctime i (s, ?td) (s\<lparr>pc := AtMenu\<rparr>\<lparr>world := n1\<rparr>, ?td(0 := relaying (- 1) r))"
      unfolding world_last(1) [symmetric] by (rule main_enters [OF _ b(1) n1(1)]) simp
    from this sends_due [OF n1(2), of ?td 0 cr ctime i "s\<lparr>pc := AtMenu\<rparr>", OF refl] show ?thesis
      unfolding b(3) world_last(1) by (rule converse_rtranclp_into_rtranclp)
  qed
next
  case (hears n rest cont)
  let ?td = "\<lambda>_ :: nat. Nothing_due" and ?i = "(incoming s)(i := rest)"
  obtain raw where raw: "next_frame (incoming s i) = Some (raw, rest)"
    "handle_message e (app_callbacks e) (world s) (slot_fd i s) raw = Some n"
    using hears(2,5,6) assms(2) by (auto simp: peer_recv_def read_message_eq split: bind_splits)
  consider (block) payload where "protocol_parse_msg (malloc e) raw = (Some MSG_NEW_BLOCK, Some payload)"
    | (request) payload where "protocol_parse_msg (malloc e) raw = (Some MSG_REQUEST_CHAIN, payload)"
    | (other) "\<And>payload. protocol_parse_msg (malloc e) raw \<noteq> (Some MSG_NEW_BLOCK, Some payload)"
        "fst (protocol_parse_msg (malloc e) raw) \<noteq> Some MSG_REQUEST_CHAIN"
    by (cases "protocol_parse_msg (malloc e) raw") fastforce
  then show ?thesis
  proof cases
    case block
    then obtain n1 r where n1: "enter_block e (app_callbacks e) (world s) payload = Some (n1, r)"
      "discharge e (relaying (slot_fd i s) r) n1 = Some n"
      using raw(2) by (auto simp: handle_message_def cut_operations)
    have "fine_step e cr ctime i (s, ?td) (s\<lparr>incoming := ?i\<rparr>\<lparr>world := n1\<rparr>, ?td(Suc i := relaying (slot_fd i s) r))"
      unfolding world_last(2) [symmetric] by (rule reader_enters [OF _ hears(2-4) raw(1) block n1(1)]) simp
    from this sends_due [OF n1(2), of ?td "Suc i" cr ctime i "s\<lparr>incoming := ?i\<rparr>", OF refl] show ?thesis
      unfolding hears(1) world_last(2) by (rule converse_rtranclp_into_rtranclp)
  next
    case request
    then obtain r where r: "chain_answer e (world s) = Some r" "discharge e (answering (slot_fd i s) r) (world s) = Some n"
      using raw(2) by (auto simp: handle_message_def cut_operations)
    have "fine_step e cr ctime i (s, ?td) (s\<lparr>incoming := ?i\<rparr>\<lparr>world := world s\<rparr>, ?td(Suc i := answering (slot_fd i s) r))"
      unfolding world_last(3) [symmetric] by (rule reader_answers [OF _ hears(2-4) raw(1) request r(1)]) simp
    from this sends_due [OF r(2), of ?td "Suc i" cr ctime i "s\<lparr>incoming := ?i\<rparr>", OF refl] show ?thesis
      unfolding hears(1) world_last(2) by (rule converse_rtranclp_into_rtranclp)
  next
    case other
    have "fine_step e cr ctime i (s, ?td) (s\<lparr>world := n, incoming := ?i\<rparr>, ?td)"
      by (rule reader_handles [OF _ hears(2-4) raw(1) other raw(2)]) simp
    then show ?thesis unfolding hears(1) by (rule r_into_rtranclp)
  qed
qed

section \<open>What a fine step does\<close>

lemma main_step_keeps:
  assumes "main_step e cr ctime s s'" "opened s' = opened s" "\<And>b. pc s \<noteq> Publishing b" "running (world s')"
  shows "node_chain (world s') = node_chain (world s) \<and> peers (world s') = peers (world s) \<and> running (world s)"
  using assms(1)
proof (cases rule: main_step.cases)
  case (connect k inp dial inp' n)
  then have "connect_opens dial inp = []" using assms(2) by simp
  from no_connection [OF connect(5) this] connect(1) assms(4) show ?thesis by simp
next
  case (announce t)
  obtain fds where "only_sends (world s) fds (node_broadcast_tx e (world s) t)" using only_sends_broadcast_tx by blast
  from only_sendsD [OF this] announce(1) assms(4) show ?thesis by simp
next
  case (collect b b' n)
  then have "n = set_mempool (world s) []" by (auto simp: mine_collect_def Let_def split: bind_splits prod.splits)
  with collect(1) assms(4) show ?thesis by (simp add: set_mempool_def)
qed (use assms(3,4) in \<open>simp_all add: mempool_push_def set_mempool_def split: if_splits\<close>)

text \<open>A program that has stopped stays stopped.\<close>

lemma discharge_running: "discharge e d n = Some n' \<Longrightarrow> running n' = running n"
  using only_sends_broadcast only_sends_message by (cases d) (fastforce dest: only_sendsD(3))+

lemma fine_running:
  assumes "fine_mesh e cr ctime wire m (\<sigma>, td) (\<sigma>', td')" "running (world (\<sigma>' u))"
  shows "running (world (\<sigma> u))"
  using assms(1)
proof cases
  case (fine_moves v i s' t')
  show ?thesis
  proof (cases "u = v")
    case True
    then have r: "running (world s')" using assms(2) fine_moves(1) by simp
    from fine_moves(4) have "running (world (\<sigma> v))"
    proof (cases rule: fine_step.cases)
      case main_acts
      from main_step_keeps [OF main_acts(3-5) r] show ?thesis by simp
    next
      case (main_enters b n r)
      then show ?thesis using r by (auto simp: enter_mined_def split: bind_splits if_splits)
    next
      case (thread_sends t n)
      then show ?thesis using r discharge_running [OF thread_sends(4)] by simp
    qed simp_all
    with True show ?thesis by simp
  qed (use assms(2) fine_moves(1) in \<open>simp add: carry_other\<close>)
qed

text \<open>Adding a block to the chain, and sending, keep a program clean.\<close>

lemma clean_chain:
  assumes "clean e k s" "chain_inv (sha e) c" "\<forall>b \<in> set (blocks c). block_wire b"
  shows "clean e k (s\<lparr>world := (world s)\<lparr>node_chain := c, outbox := out\<rparr>\<rparr>)"
proof -
  let ?s = "s\<lparr>world := (world s)\<lparr>node_chain := c, outbox := out\<rparr>\<rparr>"
  have inv: "sys_inv e s" "world_wire (world s)" using assms(1) by (simp_all add: clean_def)
  have "held (world ?s) = held (world s)" "slots_ok (world ?s) w = slots_ok (world s) w" for w
    by (simp_all add: held_def slots_ok_def)
  then have "sys_inv e ?s" using inv(1) assms(2) by (simp add: sys_inv_def node_inv_def arrived_def)
  moreover have "world_wire (world ?s)" using inv(2) assms(3) by (simp add: world_wire_def)
  ultimately show ?thesis using assms(1) by (intro clean_same [OF assms(1)]) (simp_all add: clean_def same_sockets_def)
qed

lemma clean_menu:
  assumes "clean e k s" "pc s = Publishing b"
  shows "clean e k (s\<lparr>pc := AtMenu\<rparr>)"
proof -
  have "sys_inv e s" using assms(1) by (simp add: clean_def)
  then have "sys_inv e (s\<lparr>pc := AtMenu\<rparr>)" using assms(2) by (simp add: sys_inv_def pc_ok_def arrived_def)
  then show ?thesis using assms(1) by (simp add: clean_def pc_wire_def)
qed

text \<open>A block that is added is not sent yet.\<close>

lemma entered:
  assumes "chain_add_block (sha e) (node_chain (world s)) b = Some (r, c)" "block_wire b" "\<forall>k \<in> K. clean e k s" "i \<in> K"
  shows "\<forall>k \<in> K. clean e k (s\<lparr>world := (world s)\<lparr>node_chain := c\<rparr>\<rparr>)"
    "writes k s (s\<lparr>world := (world s)\<lparr>node_chain := c\<rparr>\<rparr>) []"
proof -
  have inv: "chain_inv (sha e) (node_chain (world s))" "world_wire (world s)"
    using assms(3,4) by (auto simp: clean_def sys_inv_def node_inv_def)
  then have ne: "blocks (node_chain (world s)) \<noteq> []" by (simp add: chain_inv_def)
  have "\<forall>x \<in> set (blocks c). block_wire x"
    by (rule chain_add_block_cases [OF assms(1) ne block_wireD(1) [OF assms(2)]])
      (use inv(2) assms(2) in \<open>auto simp: world_wire_def\<close>)
  moreover have "chain_inv (sha e) c" by (rule chain_add_block_inv [OF assms(1) inv(1) block_wireD(1) [OF assms(2)]])
  ultimately have "clean e k (s\<lparr>world := (world s)\<lparr>node_chain := c, outbox := outbox (world s)\<rparr>\<rparr>)" if "k \<in> K" for k
    using assms(3) that clean_chain by blast
  then show "\<forall>k \<in> K. clean e k (s\<lparr>world := (world s)\<lparr>node_chain := c\<rparr>\<rparr>)" by simp
  show "writes k s (s\<lparr>world := (world s)\<lparr>node_chain := c\<rparr>\<rparr>) []" by (auto simp: writes_def intro: exI [of _ "[]"])
qed

text \<open>A relay reaches the connections that it does not exclude.\<close>

lemma relayed:
  assumes "discharge e (Relaying b x) (world s) = Some n" "reliable e" "block_wire b" "\<forall>k \<in> K. clean e k s" "k \<in> K" "running (world s)"
  shows "clean e k (s\<lparr>world := n\<rparr>)" "writes k s (s\<lparr>world := n\<rparr>) (if slot_fd k s \<noteq> x then [b] else [])"
    "node_chain n = node_chain (world s)" "peers n = peers (world s)" "running n"
proof -
  let ?out = "outbox (world s) @ map (\<lambda>p. (fd p, announcements [b])) (filter (\<lambda>p. active p \<and> fd p \<noteq> x) (peers (world s)))"
  have n: "n = (world s)\<lparr>outbox := ?out\<rparr>"
    using assms(1) discharge_relaying [OF assms(2,3), of x "world s"] by (simp del: discharge.simps)
  then show "node_chain n = node_chain (world s)" "peers n = peers (world s)" "running n" using assms(6) by simp_all
  have conn: "connected k (world s)" "clean e k s" using assms(4-6) by (auto simp: clean_def)
  have "chain_inv (sha e) (node_chain (world s))" "\<forall>b \<in> set (blocks (node_chain (world s))). block_wire b"
    using conn(2) by (simp_all add: clean_def sys_inv_def node_inv_def world_wire_def)
  from clean_chain [OF conn(2) this, of ?out] show "clean e k (s\<lparr>world := n\<rparr>)" by (simp add: n)
  have "delivered (slot_fd k s) (world s) n = (if slot_fd k s \<noteq> x then announcements [b] else [])"
  proof (cases "slot_fd k s = x")
    case True
    then show ?thesis by (auto simp: n filter_map comp_def simp del: announcements_simps)
  next
    case False
    then show ?thesis
      using delivered_chunks [OF conn(1), of "world s" n "announcements [b]" x] by (simp add: n del: announcements_simps)
  qed
  then show "writes k s (s\<lparr>world := n\<rparr>) (if slot_fd k s \<noteq> x then [b] else [])"
    using assms(3) unfolding writes_def
    by (intro exI [of _ "if slot_fd k s \<noteq> x then [Announced b] else []"]) simp
qed

section \<open>The simulation\<close>

text \<open>The thread of a node that tells the others of the miner's blocks, and the descriptor it leaves out.\<close>

definition teller :: "nat \<Rightarrow> (nat \<Rightarrow> nat) \<Rightarrow> nat \<Rightarrow> nat" where
  "teller m par v = (if v = m then 0 else Suc (par v))"

definition source :: "nat \<Rightarrow> (nat \<Rightarrow> nat) \<Rightarrow> 'k system \<Rightarrow> nat \<Rightarrow> int" where
  "source m par s v = (if v = m then - 1 else slot_fd (par v) s)"

definition todo_sim :: "nat \<Rightarrow> blockchain_t \<Rightarrow> nat \<Rightarrow> int \<Rightarrow> (nat \<Rightarrow> due) \<Rightarrow> nat list \<Rightarrow> bool" where
  "todo_sim l c t x d ns \<longleftrightarrow> (\<forall>t'. t' \<noteq> t \<longrightarrow> d t' = Nothing_due)
     \<and> (ns = [] \<and> d t = Nothing_due \<or> (\<exists>n. ns = [n] \<and> l \<le> n \<and> d t = Relaying (blocks c ! n) x))"

definition lane_sim :: "env \<Rightarrow> (socket \<Rightarrow> socket option) \<Rightarrow> nat \<Rightarrow> (nat \<Rightarrow> nat) \<Rightarrow> nat \<Rightarrow> (nat \<Rightarrow> 'k system) \<Rightarrow> (nat \<Rightarrow> nat \<Rightarrow> due)
    \<Rightarrow> flood \<Rightarrow> (nat \<Rightarrow> nat list) \<Rightarrow> bool" where
  "lane_sim e wire m par l \<sigma> td f pd \<longleftrightarrow> mirrors e wire m l \<sigma> f \<and> lane_inv wire m par f pd
     \<and> (\<forall>v \<in> nodes wire. running (world (\<sigma> v))
          \<and> todo_sim l (chain_of \<sigma> m) (teller m par v) (source m par (\<sigma> v) v) (td v) (pd v))"

lemma lane_simD:
  assumes "lane_sim e wire m par l \<sigma> td f pd"
  shows "mirrors e wire m l \<sigma> f" "lane_inv wire m par f pd" "v \<in> nodes wire \<Longrightarrow> running (world (\<sigma> v))"
    "v \<in> nodes wire \<Longrightarrow> todo_sim l (chain_of \<sigma> m) (teller m par v) (source m par (\<sigma> v) v) (td v) (pd v)"
  using assms unfolding lane_sim_def by blast+

lemma lane_frame:
  assumes "lane_sim e wire m par l \<sigma> td f pd" "mirrors e wire m l (carry wire v s' \<sigma>) f'" "lane_inv wire m par f' pd'"
    "extends (chain_of \<sigma> m) (chain_of (carry wire v s' \<sigma>) m)" "\<And>u. u \<noteq> v \<Longrightarrow> pd' u = pd u" "running (world s')"
    "todo_sim l (chain_of (carry wire v s' \<sigma>) m) (teller m par v) (source m par s' v) t' (pd' v)"
  shows "lane_sim e wire m par l (carry wire v s' \<sigma>) (td(v := t')) f' pd'"
proof -
  note old = lane_simD [OF assms(1)]
  have "running (world (carry wire v s' \<sigma> u)) \<and> todo_sim l (chain_of (carry wire v s' \<sigma>) m) (teller m par u)
      (source m par (carry wire v s' \<sigma> u) u) ((td(v := t')) u) (pd' u)" if u: "u \<in> nodes wire" for u
  proof (cases "u = v")
    case False
    have "n < length (blocks (chain_of \<sigma> m))" if "n \<in> set (pd u)" for n
      using lane_invD(2) [OF old(2) u that] mirrorsD(5) [OF old(1) u] by simp
    then have "todo_sim l (chain_of (carry wire v s' \<sigma>) m) (teller m par u) (source m par (\<sigma> u) u) (td u) (pd u)"
      using old(4) [OF u] extends_nth [OF assms(4)] unfolding todo_sim_def by force
    moreover have "source m par (carry wire v s' \<sigma> u) u = source m par (\<sigma> u) u"
      using False by (simp add: source_def carry_other)
    ultimately show ?thesis using old(3) [OF u] False assms(5) by (simp add: carry_other)
  qed (use assms(6,7) in simp)
  with assms(2,3) show ?thesis by (simp add: lane_sim_def)
qed

text \<open>Nothing is announced and the chain stays.\<close>

lemma lane_quiet:
  assumes "lane_sim e wire m par l \<sigma> td f pd" "v \<in> nodes wire" "mirrors e wire m l (carry wire v s' \<sigma>) f"
    "node_chain (world s') = chain_of \<sigma> v" "peers (world s') = peers (world (\<sigma> v))" "running (world s')"
  shows "lane_sim e wire m par l (carry wire v s' \<sigma>) td f pd"
proof -
  have c: "chain_of (carry wire v s' \<sigma>) m = chain_of \<sigma> m" using assms(4) by (cases "m = v") (simp_all add: carry_other)
  have "source m par s' v = source m par (\<sigma> v) v" using assms(5) by (simp add: source_def)
  then have "lane_sim e wire m par l (carry wire v s' \<sigma>) (td(v := td v)) f pd"
    using lane_simD [OF assms(1)] assms(2,6) c by (intro lane_frame [OF assms(1,3)]) simp_all
  then show ?thesis by simp
qed

lemma todo_simD:
  assumes "todo_sim l c t x d ns"
  shows "d t = Nothing_due \<Longrightarrow> ns = []" "d t' \<noteq> Nothing_due \<Longrightarrow> t' = t"
    "d t \<noteq> Nothing_due \<Longrightarrow> \<exists>n. ns = [n] \<and> l \<le> n \<and> d t = Relaying (blocks c ! n) x"
  using assms unfolding todo_sim_def by auto

text \<open>The miner adds a block.\<close>

lemma lane_mines:
  assumes "lane_sim e wire m par l \<sigma> td f pd" "topology wire" "m \<in> nodes wire" "td m 0 = Nothing_due"
    "pc (\<sigma> m) = Publishing b" "enter_mined e b (world (\<sigma> m)) = Some (n, r)"
  defines "s' \<equiv> (\<sigma> m)\<lparr>world := n, pc := AtMenu\<rparr>"
  shows "\<exists>f' pd'. lane_sim e wire m par l (carry wire m s' \<sigma>) (td(m := (td m)(0 := relaying (- 1) r))) f' pd'"
proof -
  let ?C = "chain_of \<sigma> m" and ?L = "length (blocks (chain_of \<sigma> m))" and ?\<sigma> = "carry wire m s' \<sigma>"
  note sim = lane_simD [OF assms(1)]
  note mir = mirrorsD [OF sim(1)]
  have cl: "\<forall>k \<in> slots wire m. clean e k (\<sigma> m)" using mirrors_slots [OF sim(1)] by blast
  obtain i where i: "i \<in> slots wire m" using assms(3) by (force simp: nodes_def slots_def)
  then have b: "block_wire b" using cl assms(5) by (auto simp: clean_def pc_wire_def)
  have l: "l \<le> ?L" using mir(2) [OF assms(3)] mir(3) by (simp add: node_sim_def)
  have td: "teller m par m = 0" "source m par s' m = - 1" "todo_sim l ?C 0 (- 1) (td m) (pd m)"
    using sim(4) [OF assms(3)] by (simp_all add: teller_def source_def)
  have pd: "pd m = []" by (rule todo_simD(1) [OF td(3) assms(4)])
  obtain r0 c where c: "chain_add_block (sha e) ?C b = Some (r0, c)" using assms(6) by (auto simp: enter_mined_def)
  show ?thesis
  proof (cases "r0 = 0")
    case False
    then have n: "n = world (\<sigma> m)" "r = None" using assms(6) c by (simp_all add: enter_mined_def)
    have k: "clean e k s' \<and> writes k (\<sigma> m) s' [] \<and> incoming s' k = incoming (\<sigma> m) k" if "k \<in> slots wire m" for k
      using clean_menu [OF _ assms(5)] cl that by (auto simp: s'_def n writes_def intro: exI [of _ "[]"])
    have "mirrors e wire m l ?\<sigma> f"
      by (rule mirrors_quiet [OF sim(1) assms(2,3) _ _ k]) (simp_all add: s'_def n)
    from lane_quiet [OF assms(1,3) this] sim(3) [OF assms(3)] assms(4)
    show ?thesis by (auto simp: s'_def n relaying_def fun_upd_idem)
  next
    case True
    then have n: "n = (world (\<sigma> m))\<lparr>node_chain := c\<rparr>" "r = Some b" using assms(6) c by (simp_all add: enter_mined_def)
    have add: "chain_add_block (sha e) ?C b = Some (0, c)" using c True by simp
    note grow = grown_snoc [OF mir(4) add block_wireD(1) [OF b] l]
    then have ext: "extends ?C c" by (simp add: extends_def)
    let ?f = "f\<lparr>height := (height f)(m := Suc (height f m))\<rparr>" and ?pd = "pd(m := [height f m])"
    note lane = lane_mined [OF sim(2) assms(2) pd]
    note ent = entered [OF add b cl i]
    have c': "chain_of ?\<sigma> m = c" by (simp add: s'_def n)
    have "mirrors e wire m l ?\<sigma> ?f"
    proof (rule mirrors_update [OF sim(1) assms(2) c' ext, where ln = "line f" and sel = "\<lambda>_. False" and n = l])
      fix k assume k: "k \<in> slots wire m"
      have "clean e k s'" using clean_menu [of e k "(\<sigma> m)\<lparr>world := n\<rparr>" b] ent(1) k assms(5) by (simp add: s'_def n)
      moreover have "writes k (\<sigma> m) s' []" by (auto simp: s'_def n writes_def intro: exI [of _ "[]"])
      moreover have "under_way k s' (map ((!) (blocks c)) (line f (m, k)))"
        using mirrors_slots(2) [OF sim(1) k] extends_prefix(2) [OF ext] mir(6) [of "(m, k)"] k
        by (simp add: s'_def under_way_def slots_def del: map_eq_conv)
      ultimately show "clean e k s' \<and> under_way k s' (map ((!) (blocks c)) (line f (m, k)))
          \<and> writes k (\<sigma> m) s' (if False then [blocks c ! l] else [])" by simp
    qed (use grow mir(3) l lane_invD(1) [OF lane] chain_at_full [of c "Suc ?L"]
          in \<open>simp_all add: node_sim_def s'_def n pass_def passes_def\<close>)
    then have "lane_sim e wire m par l ?\<sigma> (td(m := (td m)(0 := relaying (- 1) r))) ?f ?pd"
    proof (rule lane_frame [OF assms(1) _ lane])
      show "todo_sim l (chain_of ?\<sigma> m) (teller m par m) (source m par s' m) ((td m)(0 := relaying (- 1) r)) (?pd m)"
        unfolding c' td(1,2) using td(3) grow mir(3) l by (simp add: todo_sim_def n relaying_def)
    qed (use c' ext sim(3) [OF assms(3)] in \<open>simp_all add: s'_def n\<close>)
    then show ?thesis by blast
  qed
qed

text \<open>A reader adds a block: it is the one that the node lacks next.\<close>

lemma lane_enters:
  assumes "lane_sim e wire m par l \<sigma> td f pd" "topology wire" "(v, i) \<in> dom wire" "td v (Suc i) = Nothing_due"
    "block_wire b" "line f (v, i) = n # ns" "blocks (chain_of \<sigma> m) ! n = b" "map ((!) (blocks (chain_of \<sigma> m))) ns = announced ps"
    "\<forall>p \<in> set ps. parcel_wire p" "chain_add_block (sha e) (chain_of \<sigma> v) b = Some (r, c)"
  defines "s' \<equiv> (\<sigma> v)\<lparr>world := (world (\<sigma> v))\<lparr>node_chain := c\<rparr>, incoming := (incoming (\<sigma> v))(i := stream ps)\<rparr>"
  shows "r = 0 \<and> upward m par (v, i) \<and> pd v = []
    \<and> lane_sim e wire m par l (carry wire v s' \<sigma>) (td(v := (td v)(Suc i := Relaying b (slot_fd i (\<sigma> v)))))
        (f\<lparr>height := (height f)(v := Suc n), line := (line f)((v, i) := ns)\<rparr>) (pd(v := [n]))"
proof -
  let ?x = "(v, i)" and ?C = "chain_of \<sigma> m" and ?\<sigma> = "carry wire v s' \<sigma>"
  let ?f = "f\<lparr>height := (height f)(v := Suc n), line := (line f)(?x := ns)\<rparr>"
  note sim = lane_simD [OF assms(1)]
  note mir = mirrorsD [OF sim(1)]
  have v: "v \<in> nodes wire" and i: "i \<in> slots wire v" using assms(3) by (force simp: nodes_def slots_def)+
  have cl: "\<forall>k \<in> slots wire v. clean e k (\<sigma> v)" using mirrors_slots [OF sim(1)] by blast
  have up: "upward m par ?x" using lane_invD(5) [OF sim(2)] assms(3,6) by fastforce
  then have vm: "v \<noteq> m" "teller m par v = Suc i" by (simp_all add: upward_def teller_def)
  have td: "todo_sim l ?C (Suc i) (source m par (\<sigma> v) v) (td v) (pd v)" using sim(4) [OF v] vm(2) by simp
  have pd: "pd v = []" by (rule todo_simD(1) [OF td assms(4)])
  have lane: "height f v = n" "n < height f m" "lane_inv wire m par ?f (pd(v := [n]))"
    using lane_heard [OF sim(2) assms(2,3) up assms(6)] pd by simp_all
  have n: "l \<le> n" "n < length (blocks ?C)" using mir(6) [OF assms(3)] assms(6) by simp_all
  have c: "r = 0" "c = chain_at ?C (Suc n)"
    using assms(10) grownD [OF mir(4) n] mir(2) [OF v] lane(1) assms(7) by (auto simp: node_sim_def)
  note ent = entered [OF assms(10,5) cl i]
  have C: "chain_of ?\<sigma> m = ?C" using vm(1) by (simp add: carry_other)
  have "mirrors e wire m l ?\<sigma> ?f"
  proof (rule mirrors_update [OF sim(1) assms(2) C, where ln = "(line f)(?x := ns)" and sel = "\<lambda>_. False" and n = l])
    fix k assume k: "k \<in> slots wire v"
    have "clean e k s'" using ent(1) k by (simp add: s'_def)
    moreover have "writes k (\<sigma> v) s' []" by (auto simp: s'_def writes_def intro: exI [of _ "[]"])
    moreover have "under_way k s' (map ((!) (blocks ?C)) (((line f)(?x := ns)) (v, k)))"
      using reads_under_way [OF sim(1) _ _ assms(8) k, of s' i "Announced b"] assms(5,9) by (simp add: s'_def)
    ultimately show "clean e k s' \<and> under_way k s' (map ((!) (blocks ?C)) (((line f)(?x := ns)) (v, k)))
        \<and> writes k (\<sigma> v) s' (if False then [blocks ?C ! l] else [])" by simp
  next
    have "\<not> mining (\<sigma> v)" using mir(2) [OF v] vm(1) by (simp add: node_sim_def)
    then show "node_sim l (v = m) ?C s' (height ?f v)" using c n by (simp add: node_sim_def s'_def mining_def)
  qed (use mir(3,4) vm(1) lane_invD(1) [OF lane(3)] assms(6) in \<open>auto simp: pass_def passes_def\<close>)
  then have "lane_sim e wire m par l ?\<sigma> (td(v := (td v)(Suc i := Relaying b (slot_fd i (\<sigma> v))))) ?f (pd(v := [n]))"
  proof (rule lane_frame [OF assms(1) _ lane(3)])
    have src: "source m par s' v = slot_fd i (\<sigma> v)" using up by (simp add: source_def upward_def s'_def)
    show "todo_sim l (chain_of ?\<sigma> m) (teller m par v) (source m par s' v) ((td v)(Suc i := Relaying b (slot_fd i (\<sigma> v)))) ((pd(v := [n])) v)"
      unfolding C vm(2) src using td n(1) assms(7) by (simp add: todo_sim_def)
  qed (use C sim(3) [OF v] in \<open>simp_all add: s'_def\<close>)
  with c(1) up pd show ?thesis by blast
qed

text \<open>A thread announces what it has added: to everybody but the node that it has it from.\<close>

lemma lane_due:
  assumes "lane_sim e wire m par l \<sigma> td f pd" "v \<in> nodes wire" "m \<in> nodes wire" "td v t \<noteq> Nothing_due"
  obtains n where "pd v = [n]" "l \<le> n" "td v t = Relaying (blocks (chain_of \<sigma> m) ! n) (source m par (\<sigma> v) v)"
    "t = teller m par v" "block_wire (blocks (chain_of \<sigma> m) ! n)"
proof -
  note sim = lane_simD [OF assms(1)]
  have t: "t = teller m par v" by (rule todo_simD(2) [OF sim(4) [OF assms(2)] assms(4)])
  obtain n where n: "pd v = [n]" "l \<le> n" "td v t = Relaying (blocks (chain_of \<sigma> m) ! n) (source m par (\<sigma> v) v)"
    using todo_simD(3) [OF sim(4) [OF assms(2)]] assms(4) unfolding t by blast
  obtain k where "k \<in> slots wire m" using assms(3) by (force simp: nodes_def slots_def)
  from mirrors_slots(1) [OF sim(1) this] have "\<forall>b \<in> set (blocks (chain_of \<sigma> m)). block_wire b"
    by (simp add: clean_def world_wire_def)
  moreover have "n < length (blocks (chain_of \<sigma> m))"
    using lane_invD(2) [OF sim(2) assms(2), of n] mirrorsD(5) [OF sim(1) assms(2)] n(1) by simp
  ultimately show ?thesis using that n t by simp
qed

lemma lane_sends:
  assumes "lane_sim e wire m par l \<sigma> td f pd" "topology wire" "rooted wire m par" "v \<in> nodes wire" "reliable e"
    "td v t \<noteq> Nothing_due" "discharge e (td v t) (world (\<sigma> v)) = Some n'" "m \<in> nodes wire"
  shows "node_chain n' = chain_of \<sigma> v
    \<and> (\<exists>n. pd v = [n] \<and> lane_sim e wire m par l (carry wire v ((\<sigma> v)\<lparr>world := n'\<rparr>) \<sigma>) (td(v := (td v)(t := Nothing_due)))
        (f\<lparr>line := pass wire v (\<lambda>y. \<not> upward m par y) n (line f)\<rparr>) (pd(v := [])))"
proof -
  let ?C = "chain_of \<sigma> m" and ?s = "(\<sigma> v)\<lparr>world := n'\<rparr>" and ?x = "source m par (\<sigma> v) v"
  let ?\<sigma> = "carry wire v ?s \<sigma>"
  note sim = lane_simD [OF assms(1)]
  note mir = mirrorsD [OF sim(1)]
  note td = sim(4) [OF assms(4)]
  obtain n where n: "pd v = [n]" "l \<le> n" "td v t = Relaying (blocks ?C ! n) ?x" and t: "t = teller m par v" and
    b: "block_wire (blocks ?C ! n)" by (rule lane_due [OF assms(1,4,8,6)])
  let ?f = "f\<lparr>line := pass wire v (\<lambda>y. \<not> upward m par y) n (line f)\<rparr>"
  have cl: "\<forall>k \<in> slots wire v. clean e k (\<sigma> v)" using mirrors_slots [OF sim(1)] by blast
  note rel = relayed [OF assms(7) [unfolded n(3)] assms(5) b cl _ sim(3) [OF assms(4)]]
  have fd: "slot_fd k (\<sigma> v) \<noteq> ?x \<longleftrightarrow> \<not> upward m par (v, k)" if k: "k \<in> slots wire v" for k
  proof (cases "v = m")
    case True
    have "connected k (world (\<sigma> v))" using cl k sim(3) [OF assms(4)] by (auto simp: clean_def)
    then show ?thesis using True by (simp add: connected_def source_def upward_def)
  next
    case False
    then have "par v \<in> slots wire v" using rootedD(2) [OF assms(3,4)] by (simp add: slots_def)
    then have "connected (par v) (world (\<sigma> v))" "connected k (world (\<sigma> v))"
      using cl k sim(3) [OF assms(4)] by (auto simp: clean_def)
    from connected_distinct [OF this] False show ?thesis by (auto simp: source_def upward_def)
  qed
  obtain k1 where k1: "k1 \<in> slots wire v" using assms(4) by (force simp: nodes_def slots_def)
  note same = rel(3-5) [OF k1]
  have C: "chain_of ?\<sigma> m = ?C" using same(1) by (cases "m = v") (simp_all add: carry_other)
  have lane: "lane_inv wire m par ?f (pd(v := []))" by (rule lane_sent [OF sim(2) assms(2,3) n(1)])
  have "mirrors e wire m l ?\<sigma> ?f"
  proof (rule mirrors_update [OF sim(1) assms(2) C, where ln = "line f" and sel = "\<lambda>y. \<not> upward m par y" and n = n])
    fix k assume k: "k \<in> slots wire v"
    have "under_way k ?s (map ((!) (blocks ?C)) (line f (v, k)))"
      using mirrors_slots(2) [OF sim(1) k] by (simp add: under_way_def)
    with rel(1,2) [OF k] fd [OF k] show "clean e k ?s \<and> under_way k ?s (map ((!) (blocks ?C)) (line f (v, k)))
        \<and> writes k (\<sigma> v) ?s (if \<not> upward m par (v, k) then [blocks ?C ! n] else [])" by simp
  next
    show "node_sim l (v = m) ?C ?s (height ?f v)"
      using mir(2) [OF assms(4)] same(1) by (simp add: node_sim_def mining_def)
  qed (use mir(3,4) n(2) lane_invD(1) [OF lane] in simp_all)
  then have "lane_sim e wire m par l ?\<sigma> (td(v := (td v)(t := Nothing_due))) ?f (pd(v := []))"
  proof (rule lane_frame [OF assms(1) _ lane])
    have "source m par ?s v = ?x" using same(2) by (simp add: source_def)
    then show "todo_sim l (chain_of ?\<sigma> m) (teller m par v) (source m par ?s v) ((td v)(t := Nothing_due)) ((pd(v := [])) v)"
      using td unfolding C t by (simp add: todo_sim_def)
  qed (use C same(3) in simp_all)
  with n(1) same(1) show ?thesis by blast
qed

section \<open>The steps of the network\<close>

lemma parcel_parsed:
  assumes "reliable e" "parcel_wire p"
  shows "protocol_parse_msg (malloc e) (parcel_text p) = (case p of
      Announced b \<Rightarrow> (Some MSG_NEW_BLOCK, Some (block_text b)) | Paid t \<Rightarrow> (Some MSG_NEW_TX, Some (tx_text t)))"
proof -
  have "\<forall>n. malloc e n" using reliable_malloc(1) [OF assms(1)] by (simp add: alloc_ok_def)
  with assms(2) tx_codec.envelope_parse [of _ "malloc e"] block_codec.envelope_parse [of _ "malloc e"]
  show ?thesis by (cases p) simp_all
qed

text \<open>What waits at a slot.\<close>

lemma lane_waiting:
  assumes "lane_sim e wire m par l \<sigma> td f pd" "(v, i) \<in> dom wire" "incoming (\<sigma> v) i \<noteq> []"
  obtains p ps where "incoming (\<sigma> v) i = stream (p # ps)" "\<forall>q \<in> set (p # ps). parcel_wire q"
    "map ((!) (blocks (chain_of \<sigma> m))) (line f (v, i)) = announced (p # ps)"
    "next_frame (incoming (\<sigma> v) i) = Some (parcel_text p, stream ps)"
proof -
  have "i \<in> slots wire v" using assms(2) by (simp add: slots_def)
  from under_wayD [OF mirrors_slots(2) [OF lane_simD(1) [OF assms(1)] this]] obtain ps where
    ps: "incoming (\<sigma> v) i = stream ps" "\<forall>q \<in> set ps. parcel_wire q"
      "map ((!) (blocks (chain_of \<sigma> m))) (line f (v, i)) = announced ps" by blast
  obtain q qs where "ps = q # qs" using assms(3) ps(1) by (cases ps) auto
  with ps that [of q qs] next_frame_stream [of q qs] show ?thesis by simp
qed

lemma lane_next:
  assumes "lane_sim e wire m par l \<sigma> td f pd" "(v, i) \<in> dom wire" "next_frame (incoming (\<sigma> v) i) = Some (raw, rest)"
  obtains p ps where "incoming (\<sigma> v) i = stream (p # ps)" "\<forall>q \<in> set (p # ps). parcel_wire q"
    "map ((!) (blocks (chain_of \<sigma> m))) (line f (v, i)) = announced (p # ps)" "raw = parcel_text p" "rest = stream ps"
proof -
  have "incoming (\<sigma> v) i \<noteq> []" using assms(3) by auto
  with assms(1,2) show ?thesis by (rule lane_waiting) (use assms(3) that in simp)
qed

lemma lane_takes:
  assumes "lane_sim e wire m par l \<sigma> td f pd" "topology wire" "(v, i) \<in> dom wire" "td v (Suc i) = Nothing_due"
    "\<forall>q \<in> set (Announced b # ps). parcel_wire q" "map ((!) (blocks (chain_of \<sigma> m))) (line f (v, i)) = announced (Announced b # ps)"
  shows "\<exists>c f' pd'. chain_add_block (sha e) (chain_of \<sigma> v) b = Some (0, c) \<and> v \<noteq> m
    \<and> lane_sim e wire m par l (carry wire v ((\<sigma> v)\<lparr>world := (world (\<sigma> v))\<lparr>node_chain := c\<rparr>,
          incoming := (incoming (\<sigma> v))(i := stream ps)\<rparr>) \<sigma>) (td(v := (td v)(Suc i := Relaying b (slot_fd i (\<sigma> v))))) f' pd'
    \<and> lane_effort wire m f' pd' < lane_effort wire m f pd"
proof -
  note sim = lane_simD [OF assms(1)]
  have b: "block_wire b" "\<forall>q \<in> set ps. parcel_wire q" using assms(5) by simp_all
  obtain n ns where n: "line f (v, i) = n # ns" "blocks (chain_of \<sigma> m) ! n = b" "map ((!) (blocks (chain_of \<sigma> m))) ns = announced ps"
    using assms(6) by auto
  have "i \<in> slots wire v" using assms(3) by (simp add: slots_def)
  then have inv: "world_inv e (world (\<sigma> v))" "world_wire (world (\<sigma> v))"
    using mirrors_slots(1) [OF sim(1)] by (auto simp: clean_def sys_inv_def)
  obtain r c where c: "chain_add_block (sha e) (chain_of \<sigma> v) b = Some (r, c)" by (rule add_wire_block [OF b(1) inv])
  note ent = lane_enters [OF assms(1-4) b(1) n b(2) c]
  then have up: "upward m par (v, i)" "pd (fst (v, i)) = []" by simp_all
  from heard_effort [OF sim(2) assms(2,3) up(1) n(1) up(2)] ent c show ?thesis by (auto simp: upward_def)
qed

lemma lane_pays:
  assumes "lane_sim e wire m par l \<sigma> td f pd" "topology wire" "(v, i) \<in> dom wire" "hears_parcel e i (slots wire v) (\<sigma> v) s' (Paid t) ps"
    "\<forall>q \<in> set (Paid t # ps). parcel_wire q" "map ((!) (blocks (chain_of \<sigma> m))) (line f (v, i)) = announced (Paid t # ps)"
  shows "lane_sim e wire m par l (carry wire v s' \<sigma>) td f pd"
proof -
  note mir = lane_simD(1) [OF assms(1)]
  have v: "v \<in> nodes wire" using assms(3) by (force simp: nodes_def)
  have h: "mining s' = mining (\<sigma> v)" "running (world s')" "node_chain (world s') = chain_of \<sigma> v" "peers (world s') = peers (world (\<sigma> v))"
    using assms(4) by (simp_all add: hears_parcel_def mining_def)
  have "v = m \<or> \<not> mining s'" using mirrorsD(2) [OF mir v] h(1) by (simp add: node_sim_def)
  from mirrors_paid [OF mir assms(2) v this assms(4,5)] assms(6) have "mirrors e wire m l (carry wire v s' \<sigma>) f" by simp
  from lane_quiet [OF assms(1) v this h(3,4,2)] show ?thesis .
qed

lemma lane_main:
  assumes "lane_sim e wire m par l \<sigma> td f pd" "topology wire" "i \<in> slots wire v" "reliable e" "crypto_bounds cr"
    "main_step e cr ctime (\<sigma> v) s'" "opened s' = opened (\<sigma> v)" "v = m \<or> \<not> mining s'" "\<And>b. pc (\<sigma> v) \<noteq> Publishing b" "running (world s')"
  shows "lane_sim e wire m par l (carry wire v s' \<sigma>) td f pd"
proof -
  note mir = lane_simD(1) [OF assms(1)]
  have v: "v \<in> nodes wire" using assms(3) by (force simp: nodes_def slots_def)
  have cl: "\<forall>k \<in> slots wire v. clean e k (\<sigma> v)" using mirrors_slots [OF mir] by blast
  then have inv: "sys_inv e (\<sigma> v)" using assms(3) by (auto simp: clean_def)
  note keeps = main_step_keeps [OF assms(6,7,9,10)]
  from assms(6,7,3) cl assms(4,5) show ?thesis
  proof (cases rule: main_step_all)
    case quiet
    have "mirrors e wire m l (carry wire v s' \<sigma>) f"
      using quiet by (intro mirrors_quiet [OF mir assms(2) v quiet(4) assms(8)]) simp
    with keeps assms(10) show ?thesis by (intro lane_quiet [OF assms(1) v]) simp_all
  next
    case (mined b)
    have "blocks (chain_of \<sigma> v) \<noteq> []" using inv by (simp add: sys_inv_def node_inv_def chain_inv_def)
    moreover have "chain_add_block (sha e) (chain_of \<sigma> v) b = Some (0, chain_of \<sigma> v)" using mined(6) keeps by simp
    ultimately have "chain_of \<sigma> v = (chain_of \<sigma> v)\<lparr>blocks := blocks (chain_of \<sigma> v) @ [b]\<rparr>"
      using block_wireD(1) [OF mined(5)] by (elim chain_add_block_cases) simp_all
    from arg_cong [where f = blocks, OF this] show ?thesis by simp
  qed
qed

lemma lane_step:
  assumes "fine_mesh e cr ctime wire m (\<sigma>, td) (\<sigma>', td')" "lane_sim e wire m par l \<sigma> td f pd" "topology wire" "rooted wire m par"
    "m \<in> nodes wire" "reliable e" "crypto_bounds cr" "\<forall>v \<in> nodes wire. running (world (\<sigma>' v))"
  shows "\<exists>f' pd'. lane_sim e wire m par l \<sigma>' td' f' pd'"
  using assms(1)
proof cases
  case (fine_moves v i s' t')
  have v: "v \<in> nodes wire" "i \<in> slots wire v" using fine_moves(3) by (force simp: nodes_def slots_def)+
  then have run: "running (world s')" using assms(8) fine_moves(1) by force
  note mir = lane_simD(1) [OF assms(2)]
  have cl: "\<forall>k \<in> slots wire v. clean e k (\<sigma> v)" using mirrors_slots [OF mir] by blast
  then have inv: "world_inv e (world (\<sigma> v))" "world_wire (world (\<sigma> v))" using v(2) by (auto simp: clean_def sys_inv_def)
  note waits = lane_next [OF assms(2) fine_moves(3)]
  from fine_moves(4) show ?thesis
  proof (cases rule: fine_step.cases)
    case main_acts
    from lane_main [OF assms(2,3) v(2) assms(6,7) main_acts(3,4) fine_moves(5) main_acts(5) run]
    show ?thesis unfolding fine_moves(1,2) using main_acts(1) by (metis fun_upd_triv)
  next
    case (main_enters b n r)
    have "mining (\<sigma> v)" using main_enters(4) by (simp add: mining_def)
    then have m: "v = m" using mirrorsD(2) [OF mir v(1)] by (simp add: node_sim_def)
    from lane_mines [OF assms(2,3) v(1) [unfolded m]] main_enters m show ?thesis unfolding fine_moves(1,2) by simp
  next
    case (reader_enters raw rest payload n r)
    obtain p ps where p: "incoming (\<sigma> v) i = stream (p # ps)" "\<forall>q \<in> set (p # ps). parcel_wire q"
      "map ((!) (blocks (chain_of \<sigma> m))) (line f (v, i)) = announced (p # ps)"
      "raw = parcel_text p" "rest = stream ps" by (rule waits [OF reader_enters(7)])
    obtain b where b: "p = Announced b" "payload = block_text b" "block_wire b"
      using parcel_parsed [OF assms(6), of p] p(2) reader_enters(8) [unfolded p(4)] by (cases p) simp_all
    from lane_takes [OF assms(2,3) fine_moves(3) reader_enters(3)] p(2,3) b(1) obtain c f' pd' where
      c: "chain_add_block (sha e) (chain_of \<sigma> v) b = Some (0, c)"
        "lane_sim e wire m par l (carry wire v ((\<sigma> v)\<lparr>world := (world (\<sigma> v))\<lparr>node_chain := c\<rparr>,
          incoming := (incoming (\<sigma> v))(i := stream ps)\<rparr>) \<sigma>) (td(v := (td v)(Suc i := Relaying b (slot_fd i (\<sigma> v))))) f' pd'" by blast
    have "n = (world (\<sigma> v))\<lparr>node_chain := c\<rparr>" "r = Some b"
      using enter_wire_block(2) [OF assms(6) b(3) c(1)] reader_enters(9) b(2) by simp_all
    then show ?thesis unfolding fine_moves(1,2) using c(2) reader_enters(1,2) p(5) by (auto simp: relaying_def)
  next
    case (reader_answers raw rest payload r)
    obtain p ps where p: "\<forall>q \<in> set (p # ps). parcel_wire q" "raw = parcel_text p" by (rule waits [OF reader_answers(7)])
    then have False using parcel_parsed [OF assms(6), of p] reader_answers(8) by (cases p) simp_all
    then show ?thesis ..
  next
    case (reader_handles raw rest n)
    obtain p ps where p: "incoming (\<sigma> v) i = stream (p # ps)" "\<forall>q \<in> set (p # ps). parcel_wire q"
      "map ((!) (blocks (chain_of \<sigma> m))) (line f (v, i)) = announced (p # ps)"
      "raw = parcel_text p" "rest = stream ps" by (rule waits [OF reader_handles(7)])
    obtain t where t: "p = Paid t"
      using parcel_parsed [OF assms(6), of p] p(2) reader_handles(8) [unfolded p(4)] by (cases p) auto
    have "malloc e MAX_MSG_SIZE" using reliable_malloc(1) [OF assms(6)] by (simp add: alloc_ok_def)
    then have "peer_recv e (app_callbacks e) i (world (\<sigma> v)) (incoming (\<sigma> v) i) = Some (n, rest, True)"
      using reader_handles by (simp add: peer_recv_def read_message_eq)
    from hears_step [OF this _ v(2) cl assms(6,7) p(1)] reader_handles(1,5) p(2)
    have "hears_parcel e i (slots wire v) (\<sigma> v) s' (Paid t) ps" by (simp add: t)
    from lane_pays [OF assms(2,3) fine_moves(3) this] p(2,3) show ?thesis
      unfolding fine_moves(1,2) t using reader_handles(2) by (metis fun_upd_triv)
  next
    case (thread_sends t n)
    from lane_sends [OF assms(2-4) v(1) assms(6) thread_sends(3,4) assms(5)]
    show ?thesis unfolding fine_moves(1,2) using thread_sends(1,2) by auto
  qed
qed

lemma lane_steps:
  assumes "(fine_mesh e cr ctime wire m)\<^sup>*\<^sup>* (\<sigma>, td) (\<tau>, td')" "(\<forall>v \<in> nodes wire. running (world (\<sigma> v))) \<Longrightarrow> lane_sim e wire m par l \<sigma> td f pd"
    "topology wire" "rooted wire m par" "m \<in> nodes wire" "reliable e" "crypto_bounds cr" "\<forall>v \<in> nodes wire. running (world (\<tau> v))"
  shows "\<exists>f' pd'. lane_sim e wire m par l \<tau> td' f' pd'"
proof -
  have "(\<forall>v \<in> nodes wire. running (world (fst y v))) \<Longrightarrow> \<exists>f' pd'. lane_sim e wire m par l (fst y) (snd y) f' pd'"
    if "(fine_mesh e cr ctime wire m)\<^sup>*\<^sup>* (\<sigma>, td) y" for y
    using that
  proof (induction rule: rtranclp_induct)
    case (step y z)
    have move: "fine_mesh e cr ctime wire m (fst y, snd y) (fst z, snd z)" using step.hyps(2) by simp
    have "\<forall>v \<in> nodes wire. running (world (fst y v))" using fine_running [OF move] step.prems by blast
    then obtain f' pd' where "lane_sim e wire m par l (fst y) (snd y) f' pd'" using step.IH by blast
    from lane_step [OF move this assms(3-7) step.prems] show ?case .
  qed (use assms(2) in auto)
  from this [OF assms(1)] assms(8) show ?thesis by simp
qed

section \<open>Reading and sending to the end\<close>

text \<open>Nothing waits anywhere, and no thread has anything to send.\<close>

definition at_rest :: "(socket \<Rightarrow> socket option) \<Rightarrow> (nat \<Rightarrow> 'k system) \<times> (nat \<Rightarrow> nat \<Rightarrow> due) \<Rightarrow> bool" where
  "at_rest wire s \<longleftrightarrow> settled wire (fst s) \<and> (\<forall>v \<in> nodes wire. \<forall>t. snd s v t = Nothing_due)"

text \<open>The users do nothing, and the miner's chain stays.\<close>

definition undisturbed :: "nat \<Rightarrow> (nat \<Rightarrow> 'k system) \<Rightarrow> (nat \<Rightarrow> 'k system) \<Rightarrow> bool" where
  "undisturbed m \<tau> \<sigma> \<longleftrightarrow> chain_of \<sigma> m = chain_of \<tau> m \<and> (\<forall>v. pc (\<sigma> v) = pc (\<tau> v) \<and> typed (\<sigma> v) = typed (\<tau> v))"

lemma undisturbed_carry:
  assumes "undisturbed m \<tau> \<sigma>" "pc s' = pc (\<sigma> v)" "typed s' = typed (\<sigma> v)" "v = m \<Longrightarrow> node_chain (world s') = chain_of \<sigma> v"
  shows "undisturbed m \<tau> (carry wire v s' \<sigma>)"
proof -
  have "pc (carry wire v s' \<sigma> u) = pc (\<sigma> u) \<and> typed (carry wire v s' \<sigma> u) = typed (\<sigma> u)" for u
    using assms(2,3) by (cases "u = v") (simp_all add: carry_other)
  moreover have "chain_of (carry wire v s' \<sigma>) m = chain_of \<sigma> m" using assms(4) by (cases "v = m") (auto simp: carry_other)
  ultimately show ?thesis using assms(1) by (simp add: undisturbed_def)
qed

lemma sending_progress:
  assumes "lane_sim e wire m par l \<sigma> td f pd" "topology wire" "rooted wire m par" "m \<in> nodes wire" "reliable e"
    "v \<in> nodes wire" "td v t \<noteq> Nothing_due" "undisturbed m \<tau> \<sigma>"
  shows "\<exists>\<sigma>' td' f' pd'. fine_mesh e cr ctime wire m (\<sigma>, td) (\<sigma>', td') \<and> lane_sim e wire m par l \<sigma>' td' f' pd'
    \<and> undisturbed m \<tau> \<sigma>' \<and> lane_effort wire m f' pd' < lane_effort wire m f pd"
proof -
  obtain i where i: "(v, i) \<in> dom wire" using assms(6) by (force simp: nodes_def)
  obtain n where n: "td v t = Relaying (blocks (chain_of \<sigma> m) ! n) (source m par (\<sigma> v) v)" "block_wire (blocks (chain_of \<sigma> m) ! n)"
    by (rule lane_due [OF assms(1,6,4,7)])
  obtain n' where n': "discharge e (td v t) (world (\<sigma> v)) = Some n'"
    using discharge_relaying [OF assms(5) n(2)] unfolding n(1) by blast
  let ?s = "(\<sigma> v)\<lparr>world := n'\<rparr>"
  from lane_sends [OF assms(1-3,6,5,7) n' assms(4)] obtain k where
    k: "node_chain n' = chain_of \<sigma> v" "pd v = [k]" "lane_sim e wire m par l (carry wire v ?s \<sigma>) (td(v := (td v)(t := Nothing_due)))
      (f\<lparr>line := pass wire v (\<lambda>y. \<not> upward m par y) k (line f)\<rparr>) (pd(v := []))" by blast
  have "mining ?s = mining (\<sigma> v)" by (simp add: mining_def)
  then have "v = m \<or> \<not> mining ?s" using mirrorsD(2) [OF lane_simD(1) [OF assms(1)] assms(6)] by (simp add: node_sim_def)
  with thread_sends [of "td v" t e "\<sigma> v" n' cr ctime i, OF assms(7) n'] i
  have "fine_mesh e cr ctime wire m (\<sigma>, td) (carry wire v ?s \<sigma>, td(v := (td v)(t := Nothing_due)))" by (intro fine_moves)
  moreover have "undisturbed m \<tau> (carry wire v ?s \<sigma>)" using k(1) by (intro undisturbed_carry [OF assms(8)]) simp_all
  ultimately show ?thesis using k(3) sent_effort [where pd = pd and m = m and f = f and sel = "\<lambda>y. \<not> upward m par y", OF assms(2,6) k(2)] by blast
qed

lemma reading_progress:
  assumes "lane_sim e wire m par l \<sigma> td f pd" "topology wire" "reliable e" "crypto_bounds cr"
    "(v, i) \<in> dom wire" "incoming (\<sigma> v) i \<noteq> []" "td v (Suc i) = Nothing_due" "undisturbed m \<tau> \<sigma>"
  shows "\<exists>\<sigma>' td' f' pd'. fine_mesh e cr ctime wire m (\<sigma>, td) (\<sigma>', td') \<and> lane_sim e wire m par l \<sigma>' td' f' pd'
    \<and> undisturbed m \<tau> \<sigma>' \<and> (lane_effort wire m f' pd' < lane_effort wire m f pd
      \<or> lane_effort wire m f' pd' = lane_effort wire m f pd \<and> unread wire \<sigma>' < unread wire \<sigma>)"
proof -
  have v: "v \<in> nodes wire" "i \<in> slots wire v" using assms(5) by (force simp: nodes_def slots_def)+
  have cl: "\<forall>k \<in> slots wire v. clean e k (\<sigma> v)" using mirrors_slots [OF lane_simD(1) [OF assms(1)]] by blast
  note run = lane_simD(3) [OF assms(1) v(1)]
  have i: "i < length (peers (world (\<sigma> v)))" "active (peers (world (\<sigma> v)) ! i)"
    using cl v(2) run by (auto simp: clean_def connected_def)
  have miner: "v = m \<or> \<not> mining s'" if "pc s' = pc (\<sigma> v)" for s' :: "'a system"
    using mirrorsD(2) [OF lane_simD(1) [OF assms(1)] v(1)] that by (simp add: node_sim_def mining_def)
  obtain p ps where p: "incoming (\<sigma> v) i = stream (p # ps)" "\<forall>q \<in> set (p # ps). parcel_wire q"
    "map ((!) (blocks (chain_of \<sigma> m))) (line f (v, i)) = announced (p # ps)"
    "next_frame (incoming (\<sigma> v) i) = Some (parcel_text p, stream ps)" by (rule lane_waiting [OF assms(1,5,6)])
  have "parcel_wire p" using p(2) by simp
  note parsed = parcel_parsed [OF assms(3) this]
  show ?thesis
  proof (cases p)
    case (Announced b)
    then have b: "block_wire b" using p(2) by simp
    from lane_takes [OF assms(1,2,5,7) p(2,3) [unfolded Announced]] obtain c f' pd' where
      c: "chain_add_block (sha e) (chain_of \<sigma> v) b = Some (0, c)" "v \<noteq> m" and
      sim: "lane_sim e wire m par l (carry wire v ((\<sigma> v)\<lparr>world := (world (\<sigma> v))\<lparr>node_chain := c\<rparr>,
          incoming := (incoming (\<sigma> v))(i := stream ps)\<rparr>) \<sigma>) (td(v := (td v)(Suc i := Relaying b (slot_fd i (\<sigma> v))))) f' pd'" and
      less: "lane_effort wire m f' pd' < lane_effort wire m f pd" by blast
    let ?s = "(\<sigma> v)\<lparr>world := (world (\<sigma> v))\<lparr>node_chain := c\<rparr>, incoming := (incoming (\<sigma> v))(i := stream ps)\<rparr>"
    have "fine_step e cr ctime i (\<sigma> v, td v) (?s, (td v)(Suc i := relaying (slot_fd i (\<sigma> v)) (Some b)))"
      using parsed enter_wire_block(2) [OF assms(3) b c(1)] by (intro reader_enters [where td = "td v", OF assms(7) i(1) run i(2) p(4)]) (simp_all add: Announced)
    then have "fine_mesh e cr ctime wire m (\<sigma>, td) (carry wire v ?s \<sigma>, td(v := (td v)(Suc i := Relaying b (slot_fd i (\<sigma> v)))))"
      using assms(5) miner [of ?s] by (intro fine_moves) (simp_all add: relaying_def)
    moreover have "undisturbed m \<tau> (carry wire v ?s \<sigma>)" using c(2) by (intro undisturbed_carry [OF assms(8)]) simp_all
    ultimately show ?thesis using sim less by blast
  next
    case (Paid t)
    note al = reliable_malloc(1) [OF assms(3)]
    let ?n = "mempool_push (world (\<sigma> v)) t"
    let ?s = "(\<sigma> v)\<lparr>world := ?n, incoming := (incoming (\<sigma> v))(i := stream ps)\<rparr>"
    have recv: "peer_recv e (app_callbacks e) i (world (\<sigma> v)) (incoming (\<sigma> v) i) = Some (?n, stream ps, True)"
      using hear_paid [OF al _ i(1), of t ps] p(1,2) by (simp add: Paid)
    have h: "hears_parcel e i (slots wire v) (\<sigma> v) ?s (Paid t) ps"
      using hears_step [OF recv run v(2) cl assms(3,4) p(1)] p(2) by (simp add: Paid)
    have "handle_message e (app_callbacks e) (world (\<sigma> v)) (slot_fd i (\<sigma> v)) (parcel_text p) = Some ?n"
      using recv p(4) i(1) al by (auto simp: peer_recv_def read_message_eq alloc_ok_def split: bind_splits)
    then have "fine_step e cr ctime i (\<sigma> v, td v) (?s, td v)"
      using parsed by (intro reader_handles [where td = "td v", OF assms(7) i(1) run i(2) p(4)]) (simp_all add: Paid)
    then have "fine_mesh e cr ctime wire m (\<sigma>, td) (carry wire v ?s \<sigma>, td(v := td v))"
      using assms(5) miner [of ?s] by (intro fine_moves) simp_all
    moreover have "undisturbed m \<tau> (carry wire v ?s \<sigma>)"
      by (intro undisturbed_carry [OF assms(8)]) (simp_all add: mempool_push_def set_mempool_def)
    moreover have "lane_sim e wire m par l (carry wire v ?s \<sigma>) (td(v := td v)) f pd"
      using lane_pays [where \<sigma> = \<sigma>, OF assms(1,2,5) h] p(2,3) by (simp add: Paid)
    moreover have "unread wire (carry wire v ?s \<sigma>) < unread wire \<sigma>"
      using unread_paid [where \<sigma> = \<sigma>, OF assms(2,5) h] p(1) by (simp add: Paid)
    ultimately show ?thesis by blast
  qed
qed

lemma trunk_progress:
  assumes "lane_sim e wire m par l (fst s) (snd s) (fst g) (snd g) \<and> undisturbed m \<tau> (fst s)" "\<not> at_rest wire s"
    "topology wire" "rooted wire m par" "m \<in> nodes wire" "reliable e" "crypto_bounds cr"
  shows "\<exists>s' g'. fine_mesh e cr ctime wire m s s'
    \<and> (lane_sim e wire m par l (fst s') (snd s') (fst g') (snd g') \<and> undisturbed m \<tau> (fst s'))
    \<and> (lane_effort wire m (fst g') (snd g') < lane_effort wire m (fst g) (snd g)
      \<or> lane_effort wire m (fst g') (snd g') = lane_effort wire m (fst g) (snd g) \<and> unread wire (fst s') < unread wire (fst s))"
proof -
  obtain \<sigma> td f pd where s: "s = (\<sigma>, td)" "g = (f, pd)" by fastforce
  have sim: "lane_sim e wire m par l \<sigma> td f pd" "undisturbed m \<tau> \<sigma>" using assms(1) by (simp_all add: s)
  show ?thesis
  proof (cases "\<exists>v \<in> nodes wire. \<exists>t. td v t \<noteq> Nothing_due")
    case True
    then obtain v t where "v \<in> nodes wire" "td v t \<noteq> Nothing_due" by blast
    from sending_progress [OF sim(1) assms(3-6) this sim(2)] show ?thesis by (force simp: s)
  next
    case False
    then obtain v i where x: "(v, i) \<in> dom wire" "incoming (\<sigma> v) i \<noteq> []" using assms(2) by (force simp: at_rest_def settled_def s)
    then have "td v (Suc i) = Nothing_due" using False by (force simp: nodes_def)
    from reading_progress [OF sim(1) assms(3,6,7) x this sim(2)] show ?thesis by (force simp: s)
  qed
qed

text \<open>At the start everybody has the miner's chain.\<close>

lemma fresh_lane_sim:
  assumes "m \<in> nodes wire" "settled wire \<sigma>" "\<forall>x \<in> dom wire. clean e (snd x) (\<sigma> (fst x))"
    "\<forall>v \<in> nodes wire. chain_of \<sigma> v = chain_of \<sigma> m \<and> (v = m \<or> \<not> mining (\<sigma> v))" "l = length (blocks (chain_of \<sigma> m))"
    "topology wire" "\<forall>v \<in> nodes wire. running (world (\<sigma> v))"
  shows "lane_sim e wire m par l \<sigma> (\<lambda>_ _. Nothing_due) \<lparr>height = \<lambda>_. l, line = \<lambda>_. []\<rparr> (\<lambda>_. [])"
proof -
  have "lane_inv wire m par \<lparr>height = \<lambda>_. l, line = \<lambda>_. []\<rparr> (\<lambda>_. [])" using assms(6) by (intro lane_invI) simp_all
  with mesh_simD(6) [OF fresh_mesh_sim [OF assms(1-5)]] assms(7) show ?thesis by (simp add: lane_sim_def todo_sim_def)
qed

lemma lane_sim_agrees:
  assumes "lane_sim e wire m par l \<sigma> td f pd" "at_rest wire (\<sigma>, td)" "topology wire" "rooted wire m par" "m \<in> nodes wire"
    "(linked wire)\<^sup>*\<^sup>* m v"
  shows "chain_of \<sigma> v = chain_of \<sigma> m"
proof -
  note sim = lane_simD [OF assms(1)]
  have "line f x = []" if "x \<in> dom wire" for x
    using settled_line [OF sim(1) _ that] assms(2) by (simp add: at_rest_def)
  moreover have "pd u = []" if "u \<in> nodes wire" for u
    using todo_simD(1) [OF sim(4) [OF that]] assms(2) that by (simp add: at_rest_def)
  ultimately have "height f v = height f m" using lane_agrees [OF sim(2) assms(3,4) _ _ assms(6)] by blast
  with mirrors_same [OF sim(1) linked_nodes [OF assms(6,3,5)]] show ?thesis .
qed

lemma trunk_rests:
  assumes "lane_sim e wire m par l \<tau> td f pd" "topology wire" "rooted wire m par" "m \<in> nodes wire" "reliable e" "crypto_bounds cr"
  shows "\<exists>\<rho> td'. (fine_mesh e cr ctime wire m)\<^sup>*\<^sup>* (\<tau>, td) (\<rho>, td') \<and> at_rest wire (\<rho>, td')
    \<and> (\<forall>v. pc (\<rho> v) = pc (\<tau> v) \<and> typed (\<rho> v) = typed (\<tau> v)) \<and> (\<forall>v. (linked wire)\<^sup>*\<^sup>* m v \<longrightarrow> chain_of \<rho> v = chain_of \<tau> m)"
proof -
  let ?P = "\<lambda>s g. lane_sim e wire m par l (fst s) (snd s) (fst g) (snd g) \<and> undisturbed m \<tau> (fst s)"
  have "\<exists>s g. (fine_mesh e cr ctime wire m)\<^sup>*\<^sup>* (\<tau>, td) s \<and> ?P s g \<and> at_rest wire s"
  proof (rule settles [where P = ?P and f = "(f, pd)" and E = "\<lambda>_ g. lane_effort wire m (fst g) (snd g)" and U = "\<lambda>s _. unread wire (fst s)"])
    show "?P (\<tau>, td) (f, pd)" using assms(1) by (simp add: undisturbed_def)
  qed (rule trunk_progress [OF _ _ assms(2-6)])
  then obtain s g where s: "(fine_mesh e cr ctime wire m)\<^sup>*\<^sup>* (\<tau>, td) s" "?P s g" "at_rest wire s" by blast
  obtain \<rho> td' where p: "s = (\<rho>, td')" by fastforce
  have u: "chain_of \<rho> m = chain_of \<tau> m" "\<forall>v. pc (\<rho> v) = pc (\<tau> v) \<and> typed (\<rho> v) = typed (\<tau> v)"
    using s(2) unfolding p undisturbed_def by simp_all
  have "chain_of \<rho> v = chain_of \<rho> m" if "(linked wire)\<^sup>*\<^sup>* m v" for v
    by (rule lane_sim_agrees [OF conjunct1 [OF s(2)], unfolded p fst_conv snd_conv, OF s(3) [unfolded p] assms(2-4) that])
  then have "\<forall>v. (linked wire)\<^sup>*\<^sup>* m v \<longrightarrow> chain_of \<rho> v = chain_of \<tau> m" unfolding u(1) by blast
  with s(1,3) u(2) show ?thesis unfolding p by blast
qed

section \<open>Three programs in a row\<close>

text \<open>The miner, whose first block is found and not yet published, and two others behind it.\<close>

definition path :: "socket \<Rightarrow> socket option" where
  "path = map_of [((0, 0), (1, 1)), ((1, 1), (0, 0)), ((1, 0), (2, 1)), ((2, 1), (1, 0))]"

definition demo_path :: "nat \<Rightarrow> u8 system" where
  "demo_path v = (if v = 0 then (demo_ring 0)\<lparr>pc := Publishing (demo_next 2)\<rparr> else demo_ring v)"

lemma dom_path: "x \<in> dom path \<longleftrightarrow> x \<in> {(0, 0), (1, 1), (1, 0), (2, 1)}"
  by (cases x) (auto simp: path_def split: if_splits)

lemma path_topology: "topology path" "nodes path = {0, 1, 2}" "rooted path 0 (\<lambda>_. 1)"
proof -
  have "dom path = {(0, 0), (1, 1), (1, 0), (2, 1)}" using dom_path by blast
  then show "nodes path = {0, 1, 2}" by (auto simp: nodes_def)
  have "finite (dom path)" by (simp add: path_def finite_dom_map_of)
  then show "topology path" by (auto simp: topology_def path_def split: if_splits)
  show "rooted path 0 (\<lambda>_. 1)" unfolding rooted_def \<open>nodes path = {0, 1, 2}\<close>
    by (auto simp: upward_def path_def split: if_splits)
qed

lemma path_linked: "(linked path)\<^sup>*\<^sup>* 0 1" "(linked path)\<^sup>*\<^sup>* 0 2"
proof -
  have "path (0, 0) = Some (1, 1)" "path (1, 0) = Some (2, 1)" by (simp_all add: path_def)
  then have "linked path 0 1" "linked path 1 2" unfolding linked_def by fastforce+
  then show "(linked path)\<^sup>*\<^sup>* 0 1" "(linked path)\<^sup>*\<^sup>* 0 2" by (auto intro: rtranclp.rtrancl_into_rtrancl)
qed

lemma demo_path_facts:
  "node_chain (world (demo_path v)) = demo_chain" "running (world (demo_path v))" "incoming (demo_path v) k = []"
  "v = 0 \<or> \<not> mining (demo_path v)" "pc (demo_path 0) = Publishing (demo_next 2)"
  by (simp_all add: demo_path_def demo_ring_def demo_side_def demo_world_def mining_def)

lemma demo_path_clean:
  assumes "k < 2"
  shows "clean demo_env k (demo_path v)"
proof (cases "v = 0")
  case True
  let ?s = "(demo_ring 0)\<lparr>pc := Publishing (demo_next 2)\<rparr>"
  have c: "clean demo_env k (demo_ring 0)" by (rule demo_ring_clean [OF assms])
  have menu: "pc (demo_ring 0) = AtMenu" by (simp add: demo_ring_def demo_side_def)
  have "sha demo_env = zero_sha" by simp
  then have "pc_ok demo_env (Publishing (demo_next 2))" using demo_next_facts(5,6) by (simp add: pc_ok_def block_wire_def)
  with c have "sys_inv demo_env ?s" by (simp add: clean_def sys_inv_def arrived_def menu)
  with c demo_next_facts(5) show ?thesis by (simp add: True demo_path_def clean_def pc_wire_def)
qed (use demo_ring_clean [OF assms] in \<open>simp add: demo_path_def\<close>)

section \<open>Properties\<close>

text \<open>
  C10. Where the connections form no cycle, the gap between adding a block and announcing it does no harm: one
  miner, any users, and the threads of all the programs run in any order, also between their locks. Every
  block that a node lacks is on its way to it in order, so as long as all programs run no node is ever on another
  branch; when nothing is under way and no thread has anything left to send, every node that the miner
  reaches has its chain; and they always get there by reading and sending alone.
\<close>

theorem trunk_agrees:
  assumes "reliable e" "crypto_bounds cr" "topology wire" "rooted wire m par" "m \<in> nodes wire"
    "settled wire \<sigma>" "\<forall>x \<in> dom wire. clean e (snd x) (\<sigma> (fst x))"
    "\<forall>v \<in> nodes wire. chain_of \<sigma> v = chain_of \<sigma> m \<and> (v = m \<or> \<not> mining (\<sigma> v))"
    "(fine_mesh e cr ctime wire m)\<^sup>*\<^sup>* (\<sigma>, \<lambda>_ _. Nothing_due) (\<tau>, td)" "\<forall>v \<in> nodes wire. running (world (\<tau> v))"
  shows "(\<forall>v \<in> nodes wire. extends (chain_of \<tau> v) (chain_of \<tau> m))
    \<and> (at_rest wire (\<tau>, td) \<longrightarrow> (\<forall>v. (linked wire)\<^sup>*\<^sup>* m v \<longrightarrow> chain_of \<tau> v = chain_of \<tau> m))
    \<and> (\<exists>\<rho> td'. (fine_mesh e cr ctime wire m)\<^sup>*\<^sup>* (\<tau>, td) (\<rho>, td') \<and> at_rest wire (\<rho>, td')
         \<and> (\<forall>v. pc (\<rho> v) = pc (\<tau> v) \<and> typed (\<rho> v) = typed (\<tau> v))
         \<and> (\<forall>v. (linked wire)\<^sup>*\<^sup>* m v \<longrightarrow> chain_of \<rho> v = chain_of \<tau> m))"
proof -
  define l where "l = length (blocks (chain_of \<sigma> m))"
  obtain f pd where sim: "lane_sim e wire m par l \<tau> td f pd"
    using lane_steps [OF assms(9) fresh_lane_sim [OF assms(5-8) l_def assms(3)] assms(3-5,1,2,10)] by blast
  have "extends (chain_of \<tau> v) (chain_of \<tau> m)" if "v \<in> nodes wire" for v
    using mirrorsD(2) [OF lane_simD(1) [OF sim] that] by (simp add: node_sim_def chain_at_extends)
  moreover have "chain_of \<tau> v = chain_of \<tau> m" if "at_rest wire (\<tau>, td)" "(linked wire)\<^sup>*\<^sup>* m v" for v
    using lane_sim_agrees [OF sim that(1) assms(3-5) that(2)] .
  ultimately show ?thesis using trunk_rests [where ctime = ctime, OF sim assms(3-5,1,2)] by blast
qed

theorem trunk_agrees_witness:
  "\<exists>\<rho> td. (fine_mesh demo_env demo_crypto (\<lambda>_. Some LF) path 0)\<^sup>*\<^sup>* (demo_path, \<lambda>_ _. Nothing_due) (\<rho>, td)
    \<and> (\<forall>v \<in> {0, 1, 2}. blocks (chain_of \<rho> v) = blocks demo_chain @ [demo_next 2])"
proof -
  let ?R = "(fine_mesh demo_env demo_crypto (\<lambda>_. Some LF) path 0)\<^sup>*\<^sup>*" and ?td = "\<lambda>_ :: nat. \<lambda>_ :: nat. Nothing_due"
  let ?c = "\<lparr>blocks = blocks demo_chain @ [demo_next 2]\<rparr>" and ?s = "demo_path 0"
  let ?n = "(world ?s)\<lparr>node_chain := ?c\<rparr>"
  let ?\<tau> = "carry path 0 (?s\<lparr>world := ?n, pc := AtMenu\<rparr>) demo_path" and ?td' = "?td(0 := (?td 0)(0 := relaying (- 1) (Some (demo_next 2))))"
  have "chain_add_block zero_sha demo_chain (demo_next 2) = Some (0, ?c)"
    by (simp add: chain_add_block_eq block_wireD(1) [OF demo_next_facts(5)] demo_next_facts chain_length_def MAX_BLOCKS_def demo_chain_def)
  then have "enter_mined demo_env (demo_next 2) (world ?s) = Some (?n, Some (demo_next 2))"
    by (simp add: enter_mined_def demo_path_facts(1))
  then have "fine_step demo_env demo_crypto (\<lambda>_. Some LF) 0 (?s, ?td 0) (?s\<lparr>world := ?n, pc := AtMenu\<rparr>, (?td 0)(0 := relaying (- 1) (Some (demo_next 2))))"
    by (intro main_enters) (simp_all add: demo_path_facts(5))
  then have t: "?R (demo_path, ?td) (?\<tau>, ?td')" by (intro r_into_rtranclp fine_moves) (simp_all add: dom_path)
  have run: "\<forall>v \<in> nodes path. running (world (?\<tau> v))"
  proof
    show "running (world (?\<tau> v))" for v using demo_path_facts(2) by (cases "v = 0") (simp_all add: carry_other)
  qed
  have "clean demo_env (snd x) (demo_path (fst x))" if "x \<in> dom path" for x
    using dom_path [of x] that by (intro demo_path_clean) auto
  then have start: "settled path demo_path" "\<forall>x \<in> dom path. clean demo_env (snd x) (demo_path (fst x))"
    "\<forall>v \<in> nodes path. chain_of demo_path v = chain_of demo_path 0 \<and> (v = 0 \<or> \<not> mining (demo_path v))" "0 \<in> nodes path"
    using demo_path_facts(1,3,4) by (simp_all add: settled_def path_topology(2))
  from trunk_agrees [OF demo_env_facts(1) demo_crypto_bounds path_topology(1,3) start(4,1-3) t run] obtain \<rho> td where
    r: "?R (?\<tau>, ?td') (\<rho>, td)" "\<forall>v. (linked path)\<^sup>*\<^sup>* 0 v \<longrightarrow> chain_of \<rho> v = chain_of ?\<tau> 0" by blast
  have "chain_of \<rho> 0 = ?c" "chain_of \<rho> 1 = ?c" "chain_of \<rho> 2 = ?c" using r(2) path_linked by simp_all
  with rtranclp_trans [OF t r(1)] show ?thesis by auto
qed

end
