(* ===== verification/Buffers.thy ===== *)
theory Buffers
  imports Handshake
begin

text \<open>
  A connection holds a bounded number of bytes. \<open>send\<close> waits while it is full, \<open>recv\<close> takes one byte at a
  time, and the thread that answers a message is the thread that should read the next one. \<open>Handshake\<close>
  takes whole messages and sockets without bound; here its conversation is carried byte by byte.
\<close>

section \<open>One end of the connection\<close>

text \<open>
  The program, whose \<open>incoming\<close> are now the bytes that wait in the socket, the part of a message that
  \<open>read_message\<close> holds in its buffer, and what \<open>send_message\<close> has still to send.
\<close>

record 'k line_end =
  prog :: "'k system"
  got :: string
  unsent :: string

definition attends :: "nat \<Rightarrow> 'k line_end \<Rightarrow> bool" where
  "attends i x \<longleftrightarrow> unsent x = [] \<and> i < length (peers (world (prog x))) \<and> running (world (prog x))
     \<and> active (peers (world (prog x)) ! i)"

text \<open>\<open>read_message\<close> is done: with the newline, or because its buffer is full.\<close>

definition complete :: "nat \<Rightarrow> 'k line_end \<Rightarrow> string \<Rightarrow> bool" where
  "complete i x rest \<longleftrightarrow> (if length (got x) < MAX_MSG_SIZE - 1 then incoming (prog x) i = CHR 0x0A # rest
     else incoming (prog x) i = rest)"

text \<open>
  A step of the reader thread of slot \<open>i\<close>, and the byte that it sends, if there is \<open>room\<close>. What a message makes
  it send to other peers is taken to be sent at once, and the flags that the loop tests between two
  messages do not change here, as no other thread runs.
\<close>

inductive byte_step :: "env \<Rightarrow> nat \<Rightarrow> bool \<Rightarrow> 'k line_end \<Rightarrow> 'k line_end \<Rightarrow> string \<Rightarrow> bool"
  for e :: env and i :: nat and room :: bool where
  takes: "attends i x \<Longrightarrow> incoming (prog x) i = c # r \<Longrightarrow> c \<noteq> CHR 0x0A \<Longrightarrow> length (got x) < MAX_MSG_SIZE - 1 \<Longrightarrow>
    byte_step e i room x (x\<lparr>prog := (prog x)\<lparr>incoming := (incoming (prog x))(i := r)\<rparr>, got := got x @ [c]\<rparr>) []"
| handles: "attends i x \<Longrightarrow> complete i x r \<Longrightarrow>
    handle_message e (app_callbacks e) (world (prog x)) (slot_fd i (prog x)) (c_string (got x)) = Some n \<Longrightarrow>
    byte_step e i room x (x\<lparr>prog := (prog x)\<lparr>world := n, incoming := (incoming (prog x))(i := r)\<rparr>, got := [],
      unsent := delivered (slot_fd i (prog x)) (world (prog x)) n\<rparr>) []"
| sends: "unsent x = c # cs \<Longrightarrow> room \<Longrightarrow> byte_step e i room x (x\<lparr>unsent := cs\<rparr>) [c]"

definition arrive :: "nat \<Rightarrow> string \<Rightarrow> 'k line_end \<Rightarrow> 'k line_end" where
  "arrive i bs x = x\<lparr>prog := receive i bs (prog x)\<rparr>"

text \<open>Two ends. Each direction holds at most \<open>cap\<close> bytes.\<close>

inductive link_step :: "env \<Rightarrow> nat \<Rightarrow> nat \<Rightarrow> nat \<Rightarrow> 'k line_end \<times> 'k line_end \<Rightarrow> 'k line_end \<times> 'k line_end \<Rightarrow> bool"
  for e :: env and i j cap :: nat where
  first_steps: "byte_step e i (length (incoming (prog y) j) < cap) x x' out \<Longrightarrow> link_step e i j cap (x, y) (x', arrive j out y)"
| second_steps: "byte_step e j (length (incoming (prog x) i) < cap) y y' out \<Longrightarrow> link_step e i j cap (x, y) (arrive i out x, y')"

lemma arrive_sel [simp]:
  "incoming (prog (arrive i bs x)) i = incoming (prog x) i @ bs" "world (prog (arrive i bs x)) = world (prog x)"
  "got (arrive i bs x) = got x" "unsent (arrive i bs x) = unsent x"
  by (simp_all add: arrive_def receive_def)

section \<open>Two long answers\<close>

definition ask :: string where
  "ask = msg_text MSG_REQUEST_CHAIN ''{}''"

text \<open>An end that has not read the other's request yet, or is writing its answer, of which \<open>out\<close> is sent; \<open>inp\<close> has come from the other.\<close>

definition answers :: "nat \<Rightarrow> 'k world \<Rightarrow> string \<Rightarrow> 'k line_end \<Rightarrow> string \<Rightarrow> string \<Rightarrow> bool" where
  "answers i n queue x inp out \<longleftrightarrow>
     (unsent x = [] \<and> out = [] \<and> world (prog x) = n \<and> (\<exists>u. got x @ u = ask \<and> incoming (prog x) i = u @ CHR 0x0A # queue @ inp))
     \<or> (got x = [] \<and> out @ unsent x = said [Answer (node_chain n)] \<and> unsent x \<noteq> [] \<and> node_chain (world (prog x)) = node_chain n
        \<and> incoming (prog x) i = queue @ inp)"

text \<open>The bytes that an end will still move.\<close>

definition to_move :: "'k world \<Rightarrow> 'k line_end \<Rightarrow> nat" where
  "to_move n x = (if unsent x = [] then Suc (length ask) - length (got x) + length (said [Answer (node_chain n)]) else length (unsent x))"

lemma answers_arrive: "answers i n queue x inp out \<Longrightarrow> answers i n queue (arrive i bs x) (inp @ bs) out"
  by (auto simp: answers_def)

lemma to_move_arrive [simp]: "to_move n (arrive i bs x) = to_move n x"
  by (simp add: to_move_def)

lemma answers_step:
  assumes "answers i n queue x inp out" "byte_step e i room x x' bs" "reliable e" "chain_wire (node_chain n)"
    "room \<Longrightarrow> Suc (length out) < length (said [Answer (node_chain n)])"
  shows "answers i n queue x' inp (out @ bs) \<and> Suc (to_move n x') = to_move n x \<and> (bs \<noteq> [] \<longrightarrow> room \<and> length bs = 1)"
  using assms(2)
proof cases
  case (takes c r)
  then obtain u where u: "got x @ u = ask" "c # r = u @ CHR 0x0A # queue @ inp" "out = []" "world (prog x) = n"
    using assms(1) by (auto simp: answers_def attends_def)
  then obtain v where v: "u = c # v" "r = v @ CHR 0x0A # queue @ inp" using takes(5) by (cases u) auto
  have "length (got x) < length ask" using arg_cong [where f = length, OF u(1)] v(1) by simp
  then show ?thesis using takes u v by (auto simp: answers_def to_move_def attends_def)
next
  case (handles r k)
  then obtain u where u: "got x @ u = ask" "incoming (prog x) i = u @ CHR 0x0A # queue @ inp" "out = []" "world (prog x) = n" "unsent x = []"
    using assms(1) by (auto simp: answers_def attends_def)
  have line: "CHR 0x0A \<notin> set ask" "CHR 0x00 \<notin> set ask" "length ask < MAX_MSG_SIZE - 1" using request_line by (simp_all add: ask_def)
  have "length (got x) < MAX_MSG_SIZE - 1" using arg_cong [where f = length, OF u(1)] line(3) by simp
  then have "incoming (prog x) i = CHR 0x0A # r" using handles(4) by (simp add: complete_def)
  moreover have "CHR 0x0A \<notin> set u" using line(1) unfolding u(1) [symmetric] by simp
  ultimately have r: "u = []" "r = queue @ inp" using u(2) by (cases u; simp)+
  then have got: "got x = ask" using u(1) by simp
  then have "k = n\<lparr>outbox := outbox n @ [(slot_fd i (prog x), said [Answer (node_chain n)])]\<rparr>"
    using handles(5) request_answered [OF assms(3,4), of "app_callbacks e"] line(2) by (simp add: u(4) c_string_id ask_def)
  then have "delivered (slot_fd i (prog x)) (world (prog x)) k = said [Answer (node_chain n)]" "node_chain k = node_chain n"
    by (simp_all add: delivered_def u(4))
  then show ?thesis using handles(1,2) u(3,5) got r(2) by (simp add: answers_def to_move_def del: talk_simps) simp
next
  case (sends c cs)
  then have "out @ c # cs = said [Answer (node_chain n)]" using assms(1) by (auto simp: answers_def)
  moreover have "cs \<noteq> []" using arg_cong [where f = length, OF calculation] assms(5) sends(4) by auto
  ultimately show ?thesis using sends assms(1) by (auto simp: answers_def to_move_def)
qed

definition stalling :: "nat \<Rightarrow> nat \<Rightarrow> nat \<Rightarrow> 'k world \<Rightarrow> 'k world \<Rightarrow> string \<Rightarrow> string \<Rightarrow> 'k line_end \<Rightarrow> 'k line_end \<Rightarrow> bool" where
  "stalling i j cap n m q r x y \<longleftrightarrow> (\<exists>ox oy. answers i n q x oy ox \<and> answers j m r y ox oy \<and> length ox \<le> cap \<and> length oy \<le> cap)"

lemma stalling_sym: "stalling i j cap n m q r x y = stalling j i cap m n r q y x"
  by (auto simp: stalling_def)

lemma stalling_moves:
  assumes "stalling i j cap n m q r x y" "byte_step e i (length (incoming (prog y) j) < cap) x x' bs" "reliable e"
    "chain_wire (node_chain n)" "cap < length (said [Answer (node_chain n)])"
  shows "stalling i j cap n m q r x' (arrive j bs y) \<and> Suc (to_move n x') = to_move n x"
proof -
  obtain ox oy where o: "answers i n q x oy ox" "answers j m r y ox oy" "length ox \<le> cap" "length oy \<le> cap"
    using assms(1) by (auto simp: stalling_def)
  have "length ox \<le> length (incoming (prog y) j)" using o(2) by (auto simp: answers_def)
  then have "Suc (length ox) \<le> cap" if "length (incoming (prog y) j) < cap" using that by linarith
  moreover from this have "answers i n q x' oy (ox @ bs) \<and> Suc (to_move n x') = to_move n x
      \<and> (bs \<noteq> [] \<longrightarrow> length (incoming (prog y) j) < cap \<and> length bs = 1)"
    using assms(5) by (intro answers_step [OF o(1) assms(2-4)]) force
  ultimately show ?thesis using answers_arrive [OF o(2), of bs] o(3,4) unfolding stalling_def
    by (intro conjI exI [of _ "ox @ bs"] exI [of _ oy]) (cases "bs = []"; force)+
qed

lemma stalling_step:
  assumes "stalling i j cap n m q r x y" "link_step e i j cap (x, y) (x', y')" "reliable e"
    "chain_wire (node_chain n)" "chain_wire (node_chain m)"
    "cap < length (said [Answer (node_chain n)])" "cap < length (said [Answer (node_chain m)])"
  shows "stalling i j cap n m q r x' y' \<and> Suc (to_move n x' + to_move m y') = to_move n x + to_move m y"
  using assms(2)
proof cases
  case (first_steps out)
  from stalling_moves [OF assms(1) first_steps(2) assms(3,4,6)] show ?thesis unfolding first_steps(1) by simp
next
  case (second_steps out)
  have "stalling j i cap m n r q y x" using assms(1) by (simp add: stalling_sym [of i])
  from stalling_moves [OF this second_steps(2) assms(3,5,7)] show ?thesis
    unfolding second_steps(1) stalling_sym [of i] by simp
qed

lemma stalling_steps:
  assumes "(link_step e i j cap ^^ k) (x, y) (x', y')" "stalling i j cap n m q r x y" "reliable e"
    "chain_wire (node_chain n)" "chain_wire (node_chain m)"
    "cap < length (said [Answer (node_chain n)])" "cap < length (said [Answer (node_chain m)])"
  shows "stalling i j cap n m q r x' y' \<and> k + to_move n x' + to_move m y' = to_move n x + to_move m y"
  using assms(1)
proof (induction k arbitrary: x' y')
  case (Suc k)
  then obtain u v where u: "(link_step e i j cap ^^ k) (x, y) (u, v)" "link_step e i j cap (u, v) (x', y')" by auto
  from Suc.IH [OF u(1)] stalling_step [OF _ u(2) assms(3-7)] show ?case by fastforce
qed (use assms(2) in simp)

text \<open>An end that is not writing its answer can go on.\<close>

lemma answers_enabled:
  assumes "answers i n q x inp out" "unsent x = []" "reliable e" "chain_wire (node_chain n)"
    "i < length (peers n)" "running n" "active (peers n ! i)"
  shows "\<exists>x' bs. byte_step e i room x x' bs"
proof -
  obtain u where u: "got x @ u = ask" "incoming (prog x) i = u @ CHR 0x0A # q @ inp" "world (prog x) = n"
    using assms(1,2) by (auto simp: answers_def)
  have line: "CHR 0x0A \<notin> set ask" "CHR 0x00 \<notin> set ask" "length ask < MAX_MSG_SIZE - 1" using request_line by (simp_all add: ask_def)
  have at: "attends i x" using assms(2,5-7) u(3) by (simp add: attends_def)
  have short: "length (got x) < MAX_MSG_SIZE - 1" using arg_cong [where f = length, OF u(1)] line(3) by simp
  show ?thesis
  proof (cases u)
    case Nil
    then have "complete i x (q @ inp)" "got x = ask" using u(1,2) short by (simp_all add: complete_def)
    then show ?thesis using handles [OF at] request_answered [OF assms(3,4), of "app_callbacks e"] line(2)
      by (force simp: u(3) c_string_id ask_def)
  next
    case (Cons c v)
    then have "c \<noteq> CHR 0x0A" using line(1) unfolding u(1) [symmetric] by auto
    with takes [OF at _ this short, of "v @ CHR 0x0A # q @ inp"] u(2) Cons show ?thesis by fastforce
  qed
qed

section \<open>The conversation, byte by byte\<close>

text \<open>
  What an end will read: the part of a message that it holds, what waits in the socket, and what the other
  end has still to send. Seen in this way, only the handling of a message is a step.
\<close>

definition whole :: "nat \<Rightarrow> 'k line_end \<Rightarrow> 'k line_end \<Rightarrow> 'k system" where
  "whole i x y = (prog x)\<lparr>incoming := (incoming (prog x))(i := got x @ incoming (prog x) i @ unsent y)\<rparr>"

definition in_line :: "'k line_end \<Rightarrow> bool" where
  "in_line x \<longleftrightarrow> CHR 0x0A \<notin> set (got x) \<and> length (got x) \<le> MAX_MSG_SIZE - 1"

lemma whole_sel [simp]:
  "world (whole i x y) = world (prog x)" "incoming (whole i x y) i = got x @ incoming (prog x) i @ unsent y"
  by (simp_all add: whole_def)

lemma next_frame_got:
  assumes "in_line x" "complete i x r"
  shows "next_frame (got x @ incoming (prog x) i @ u) = Some (c_string (got x), r @ u)"
proof (cases "length (got x) < MAX_MSG_SIZE - 1")
  case True
  then have "incoming (prog x) i = CHR 0x0A # r" using assms(2) by (simp add: complete_def)
  then show ?thesis using True assms(1) next_frame_line [of "got x" "r @ u"] by (simp add: in_line_def)
next
  case False
  then have got: "length (got x) = MAX_MSG_SIZE - 1" "incoming (prog x) i = r" using assms by (simp_all add: in_line_def complete_def)
  have same: "takeWhile (\<lambda>c. c \<noteq> CHR 0x0A) (got x) = got x" using assms(1) unfolding in_line_def takeWhile_eq_all_conv by blast
  have "take (MAX_MSG_SIZE - 1) (got x @ incoming (prog x) i @ u) = got x" using got by simp
  then have line: "takeWhile (\<lambda>c. c \<noteq> CHR 0x0A) (take (MAX_MSG_SIZE - 1) (got x @ incoming (prog x) i @ u)) = got x"
    by (simp only: same)
  show ?thesis unfolding next_frame_def Let_def line using got by simp
qed

lemma byte_step_whole:
  assumes "byte_step e i room x x' bs" "in_line x" "malloc e MAX_MSG_SIZE"
  shows "in_line x' \<and> (whole i x' y = whole i x y \<and> whole j (arrive j bs y) x' = whole j y x
    \<or> hear_step e i (whole i x y) (whole i x' y)
      \<and> whole j (arrive j bs y) x' = receive j (delivered (slot_fd i (prog x)) (world (prog x)) (world (prog x'))) (whole j y x))"
  using assms(1)
proof cases
  case (takes c r)
  then have "unsent x = []" by (simp add: attends_def)
  with takes assms(2) show ?thesis by (auto simp: in_line_def whole_def arrive_def receive_def)
next
  case (handles r n)
  note at = handles(3) [unfolded attends_def]
  note fr = next_frame_got [OF assms(2) handles(4), of "unsent y"]
  have "peer_recv e (app_callbacks e) i (world (whole i x y)) (incoming (whole i x y) i) = Some (n, r @ unsent y, True)"
    using at fr handles(5) assms(3) by (simp add: peer_recv_def read_message_eq)
  with at fr have "hear_step e i (whole i x y) ((whole i x y)\<lparr>world := n, incoming := (incoming (whole i x y))(i := r @ unsent y)\<rparr>)"
    by (intro hear) simp_all
  moreover have "(whole i x y)\<lparr>world := n, incoming := (incoming (whole i x y))(i := r @ unsent y)\<rparr> = whole i x' y"
    by (simp add: whole_def handles(1))
  ultimately show ?thesis using at handles(1,2) by (simp add: in_line_def whole_def arrive_def receive_def)
next
  case sends
  with assms(2) show ?thesis by (simp add: in_line_def whole_def arrive_def receive_def)
qed

text \<open>The ends hold the greetings \<open>ga\<close> and \<open>gb\<close>, in whatever state they are.\<close>

definition carrying :: "env \<Rightarrow> blockchain_t set \<Rightarrow> blockchain_t \<Rightarrow> tx_t list \<Rightarrow> tx_t list \<Rightarrow> nat \<Rightarrow> nat
    \<Rightarrow> 'k line_end \<Rightarrow> 'k line_end \<Rightarrow> greeting list \<Rightarrow> greeting list \<Rightarrow> bool" where
  "carrying e S L P Q i j x y ga gb \<longleftrightarrow> talking e S L P Q i j (whole i x y) (whole j y x) ga gb \<and> in_line x \<and> in_line y"

lemma carrying_sym: "carrying e S L P Q i j x y ga gb = carrying e S L Q P j i y x gb ga"
  by (auto simp: carrying_def talking_sym [of e S L P])

text \<open>An answer has at most \<open>M\<close> bytes: the bytes still to be moved, and those that will be said.\<close>

definition cost :: "nat \<Rightarrow> nat \<Rightarrow> nat \<Rightarrow> 'k line_end \<Rightarrow> 'k line_end \<Rightarrow> greeting list \<Rightarrow> greeting list \<Rightarrow> nat" where
  "cost M i j x y ga gb = 2 * length (unsent x) + 2 * length (unsent y) + length (incoming (prog x) i) + length (incoming (prog y) j)
     + 2 * M * (count_list ga Ask + count_list gb Ask)"

definition volume :: "nat \<Rightarrow> greeting list \<Rightarrow> greeting list \<Rightarrow> nat" where
  "volume M ga gb = length (said gb) + M * count_list ga Ask"

lemma cost_sym: "cost M i j x y ga gb = cost M j i y x gb ga"
  by (simp add: cost_def)

lemma replies_volume:
  assumes "\<forall>c \<in> S. length (said [Answer c]) \<le> M" "c \<in> S"
  shows "volume M gs (gb @ replies c g) \<le> volume M (g # gs) gb" "volume M (gb @ replies c g) gs \<le> volume M gb (g # gs)"
    "length (said (replies c g)) + M * (count_list gs Ask + count_list (gb @ replies c g) Ask) \<le> M * (count_list (g # gs) Ask + count_list gb Ask)"
  using assms by (cases g; force simp: volume_def algebra_simps)+

lemma got_short:
  assumes "carrying e S L P Q i j x y ga gb" "known_chains e S L" "complete i x r"
  shows "incoming (prog x) i = CHR 0x0A # r"
proof -
  have inp: "got x @ incoming (prog x) i @ unsent y = said ga" "\<forall>g \<in> set ga. greeting_ok S g" and line: "in_line x"
    using assms(1) by (auto simp: carrying_def talking_def one_end_def)
  obtain g gs where ga: "ga = g # gs" using next_frame_got [OF line assms(3), of "unsent y"] inp(1) by (cases ga) auto
  then have "got x @ incoming (prog x) i @ unsent y = greeting_text g @ CHR 0x0A # said gs" using inp(1) by simp
  from arg_cong [where f = "\<lambda>s. s ! length (greeting_text g)", OF this]
  have "length (greeting_text g) < length (got x) \<Longrightarrow> got x ! length (greeting_text g) = CHR 0x0A" by (simp add: nth_append)
  then have "length (got x) \<le> length (greeting_text g)" using line nth_mem [of "length (greeting_text g)" "got x"]
    by (force simp: in_line_def not_less [symmetric])
  also have "\<dots> < MAX_MSG_SIZE - 1" using greeting_line [OF _ assms(2)] inp(2) ga by simp
  finally show ?thesis using assms(3) by (simp add: complete_def)
qed

lemma carrying_moves:
  assumes "reliable e" "known_chains e S L" "carrying e S L P Q i j x y ga gb" "byte_step e i room x x' bs"
    "\<forall>c \<in> S. length (said [Answer c]) \<le> M"
  shows "\<exists>ga' gb'. carrying e S L P Q i j x' (arrive j bs y) ga' gb' \<and> cost M i j x' (arrive j bs y) ga' gb' < cost M i j x y ga gb
    \<and> volume M ga' gb' \<le> volume M ga gb \<and> volume M gb' ga' \<le> volume M gb ga"
proof -
  have al: "malloc e MAX_MSG_SIZE" using reliable_malloc(1) [OF assms(1)] by (simp add: alloc_ok_def)
  have c: "talking e S L P Q i j (whole i x y) (whole j y x) ga gb" "in_line x" "in_line y"
    using assms(3) by (simp_all add: carrying_def)
  have same: "whole i x' (arrive j bs y) = whole i x' y" "in_line (arrive j bs y) = in_line y"
    by (simp_all add: whole_def in_line_def)
  from assms(4) show ?thesis
  proof cases
    case (handles r n)
    note lf = got_short [OF assms(3,2) handles(4)]
    let ?rs = "replies (node_chain (world (prog x)))"
    from byte_step_whole [OF assms(4) c(2) al, of y j] consider "whole i x' y = whole i x y"
      | (heard) "hear_step e i (whole i x y) (whole i x' y)" "in_line x'"
        "whole j (arrive j bs y) x' = receive j (delivered (slot_fd i (prog x)) (world (prog x)) (world (prog x'))) (whole j y x)"
      by blast
    then show ?thesis
    proof cases
      case 1
      from arg_cong [where f = "\<lambda>s. length (incoming s i)", OF this] have False by (simp add: handles(1) lf)
      then show ?thesis ..
    next
      case heard
      from talking_hears [OF assms(1,2) c(1) heard(1)] obtain g gs where g: "ga = g # gs"
        "talking e S L P Q i j (whole i x' y) (whole j (arrive j bs y) x') gs (gb @ ?rs g)" by (auto simp: heard(3))
      have "delivered (slot_fd i (prog x)) (world (prog x)) n = said (?rs g)"
      proof -
        have "one_end e S P i (whole i x y) (g # gs)" using c(1) g(1) by (simp add: talking_def)
        from one_end_hears [OF assms(1,2) this] next_frame_got [OF c(2) handles(4), of "unsent y"] handles(3,5) al
        show ?thesis by (auto simp: peer_recv_def read_message_eq attends_def)
      qed
      then have u: "unsent x' = said (?rs g)" "unsent x = []" using handles(1,3) by (simp_all add: attends_def)
      have S: "node_chain (world (prog x)) \<in> S" using c(1) by (simp add: talking_def one_end_def)
      note vol = replies_volume [where gs = gs and gb = gb and g = g, OF assms(5) S]
      have "carrying e S L P Q i j x' (arrive j bs y) gs (gb @ ?rs g)"
        using g(2) heard(2) c(3) by (simp add: carrying_def same)
      moreover have "cost M i j x' (arrive j bs y) gs (gb @ ?rs g) < cost M i j x y ga gb"
        using vol(3) u lf handles(1,2) unfolding cost_def g(1) by (simp add: algebra_simps)
      ultimately show ?thesis using vol(1,2) g(1) by blast
    qed
  next
    case (takes d r)
    have "unsent x = []" using takes(3) by (simp add: attends_def)
    then have "whole i x' y = whole i x y" "whole j (arrive j bs y) x' = whole j y x" "in_line x'"
      using takes c(2) by (auto simp: whole_def arrive_def receive_def in_line_def)
    then have "carrying e S L P Q i j x' (arrive j bs y) ga gb" using c by (simp add: carrying_def same)
    moreover have "cost M i j x' (arrive j bs y) ga gb < cost M i j x y ga gb"
      using takes by (simp add: cost_def)
    ultimately show ?thesis by blast
  next
    case (sends d cs)
    then have "whole i x' y = whole i x y" "whole j (arrive j bs y) x' = whole j y x" "in_line x'"
      using c(2) by (auto simp: whole_def arrive_def receive_def in_line_def)
    then have "carrying e S L P Q i j x' (arrive j bs y) ga gb" using c by (simp add: carrying_def same)
    moreover have "cost M i j x' (arrive j bs y) ga gb < cost M i j x y ga gb"
      using sends by (simp add: cost_def)
    ultimately show ?thesis by blast
  qed
qed

lemma carrying_step:
  assumes "reliable e" "known_chains e S L" "carrying e S L P Q i j x y ga gb" "link_step e i j cap (x, y) (x', y')"
    "\<forall>c \<in> S. length (said [Answer c]) \<le> M"
  shows "\<exists>ga' gb'. carrying e S L P Q i j x' y' ga' gb' \<and> cost M i j x' y' ga' gb' < cost M i j x y ga gb
    \<and> volume M ga' gb' \<le> volume M ga gb"
  using assms(4)
proof cases
  case (first_steps out)
  from carrying_moves [OF assms(1-3) first_steps(2) assms(5)] show ?thesis unfolding first_steps(1) by blast
next
  case (second_steps out)
  have "carrying e S L Q P j i y x gb ga" using assms(3) by (simp add: carrying_sym [of e S L P])
  from carrying_moves [OF assms(1,2) this second_steps(2) assms(5)] show ?thesis
    unfolding second_steps(1) carrying_sym [of e S L P] cost_sym [of M i] by blast
qed

lemma carrying_steps:
  assumes "(link_step e i j cap ^^ k) (x, y) (x', y')" "reliable e" "known_chains e S L" "carrying e S L P Q i j x y ga gb"
    "\<forall>c \<in> S. length (said [Answer c]) \<le> M"
  shows "\<exists>ga' gb'. carrying e S L P Q i j x' y' ga' gb' \<and> k + cost M i j x' y' ga' gb' \<le> cost M i j x y ga gb
    \<and> volume M ga' gb' \<le> volume M ga gb"
  using assms(1)
proof (induction k arbitrary: x' y')
  case (Suc k)
  then obtain u v where u: "(link_step e i j cap ^^ k) (x, y) (u, v)" "link_step e i j cap (u, v) (x', y')" by auto
  from Suc.IH [OF u(1)] obtain gu gv where g: "carrying e S L P Q i j u v gu gv"
    "k + cost M i j u v gu gv \<le> cost M i j x y ga gb" "volume M gu gv \<le> volume M ga gb" by blast
  from carrying_step [OF assms(2,3) g(1) u(2) assms(5)] g(2,3) show ?case by fastforce
qed (use assms(4) in auto)

text \<open>An end that has nothing to send reads what has come.\<close>

lemma carrying_reads:
  assumes "reliable e" "known_chains e S L" "carrying e S L P Q i j x y ga gb" "unsent x = []" "incoming (prog x) i \<noteq> []"
  shows "\<exists>x' bs. byte_step e i room x x' bs"
proof -
  have c: "one_end e S P i (whole i x y) ga" "in_line x" using assms(3) by (simp_all add: carrying_def talking_def)
  then have at: "attends i x" using assms(4) by (simp add: one_end_def attends_def)
  obtain g gs where ga: "ga = g # gs" using c(1) assms(5) by (cases ga) (simp_all add: one_end_def)
  obtain d r where d: "incoming (prog x) i = d # r" using assms(5) by (cases "incoming (prog x) i") auto
  show ?thesis
  proof (cases "\<exists>r. complete i x r")
    case True
    then obtain r where r: "complete i x r" by blast
    have "malloc e MAX_MSG_SIZE" using reliable_malloc(1) [OF assms(1)] by (simp add: alloc_ok_def)
    with one_end_hears [OF assms(1,2) c(1) [unfolded ga]] next_frame_got [OF c(2) r, of "unsent y"] at
    obtain n where "handle_message e (app_callbacks e) (world (prog x)) (slot_fd i (prog x)) (c_string (got x)) = Some n"
      by (auto simp: peer_recv_def read_message_eq attends_def split: bind_splits)
    from handles [OF at r this] show ?thesis by blast
  next
    case False
    then have "d \<noteq> CHR 0x0A" "length (got x) < MAX_MSG_SIZE - 1" using d by (auto simp: complete_def split: if_splits)
    from takes [OF at d this] show ?thesis by blast
  qed
qed

text \<open>When everything that the first end will say has room, the conversation does not stop before its end.\<close>

lemma carrying_ends:
  assumes "reliable e" "known_chains e S L" "carrying e S L P Q i j x y ga gb" "volume M ga gb \<le> cap" "0 < cap"
    "\<forall>z. \<not> link_step e i j cap (x, y) z"
  shows "ga = [] \<and> gb = []"
proof -
  have c: "one_end e S P i (whole i x y) ga" "one_end e S Q j (whole j y x) gb" "in_line x" "in_line y"
    using assms(3) by (simp_all add: carrying_def talking_def)
  have stuck: "\<not> byte_step e i (length (incoming (prog y) j) < cap) x x' bs" "\<not> byte_step e j (length (incoming (prog x) i) < cap) y y' bs"
    for x' y' bs using assms(6) first_steps [of e i y j cap x x' bs] second_steps [of e j x i cap y y' bs] by blast+
  have sym: "carrying e S L Q P j i y x gb ga" using assms(3) by (simp add: carrying_sym [of e S L P])
  have "got y @ incoming (prog y) j @ unsent x = said gb" using c(2) by (simp add: one_end_def)
  from arg_cong [where f = length, OF this] have "length (incoming (prog y) j) + length (unsent x) \<le> cap"
    using assms(4) by (simp add: volume_def)
  then have x: "unsent x = []" using stuck(1) sends [of x _ _ "length (incoming (prog y) j) < cap" e i] by (cases "unsent x") auto
  then have ix: "incoming (prog x) i = []" using carrying_reads [OF assms(1-3)] stuck(1) by blast
  then have y: "unsent y = []" using stuck(2) sends [of y _ _ "length (incoming (prog x) i) < cap" e j] assms(5) by (cases "unsent y") auto
  then have iy: "incoming (prog y) j = []" using carrying_reads [OF assms(1,2) sym] stuck(2) by blast
  have "got x = said ga" "got y = said gb" using c(1,2) x ix y iy by (simp_all add: one_end_def)
  with c(3,4) show ?thesis by (cases ga; cases gb) (simp_all add: in_line_def)
qed

lemma carrying_runs:
  assumes "reliable e" "known_chains e S L" "carrying e S L P Q i j x y ga gb" "\<forall>c \<in> S. length (said [Answer c]) \<le> M"
  shows "\<exists>z. (link_step e i j cap)\<^sup>*\<^sup>* (x, y) z \<and> (\<forall>z'. \<not> link_step e i j cap z z')"
proof -
  let ?P = "\<lambda>s g. carrying e S L P Q i j (fst s) (snd s) (fst g) (snd g)"
  have "\<exists>s g. (link_step e i j cap)\<^sup>*\<^sup>* (x, y) s \<and> ?P s g \<and> (\<forall>z'. \<not> link_step e i j cap s z')"
  proof (rule settles [where P = ?P and f = "(ga, gb)" and E = "\<lambda>s g. cost M i j (fst s) (snd s) (fst g) (snd g)" and U = "\<lambda>_ _. 0"])
    fix s g assume p: "?P s g" "\<not> (\<forall>z'. \<not> link_step e i j cap s z')"
    then obtain u v where "link_step e i j cap (fst s, snd s) (u, v)" by auto
    from carrying_step [OF assms(1,2) p(1) this assms(4)] obtain gu gv where
      g: "carrying e S L P Q i j u v gu gv" "cost M i j u v gu gv < cost M i j (fst s) (snd s) (fst g) (snd g)" by blast
    then show "\<exists>s' g'. link_step e i j cap s s' \<and> ?P s' g' \<and> (cost M i j (fst s') (snd s') (fst g') (snd g')
        < cost M i j (fst s) (snd s) (fst g) (snd g) \<or> cost M i j (fst s') (snd s') (fst g') (snd g')
        = cost M i j (fst s) (snd s) (fst g) (snd g) \<and> (0 :: nat) < 0)"
      using \<open>link_step e i j cap (fst s, snd s) (u, v)\<close> by (intro exI [of _ "(u, v)"] exI [of _ "(gu, gv)"]) simp
  qed (use assms(3) in simp)
  then show ?thesis by blast
qed

lemma stalling_runs:
  assumes "stalling i j cap n m q r x y" "reliable e" "chain_wire (node_chain n)" "chain_wire (node_chain m)"
    "cap < length (said [Answer (node_chain n)])" "cap < length (said [Answer (node_chain m)])"
  shows "\<exists>z. (link_step e i j cap)\<^sup>*\<^sup>* (x, y) z \<and> (\<forall>z'. \<not> link_step e i j cap z z')"
proof -
  let ?P = "\<lambda>s (g :: unit). stalling i j cap n m q r (fst s) (snd s)"
  have "\<exists>s g. (link_step e i j cap)\<^sup>*\<^sup>* (x, y) s \<and> ?P s g \<and> (\<forall>z'. \<not> link_step e i j cap s z')"
  proof (rule settles [where P = ?P and f = "()" and E = "\<lambda>s _. to_move n (fst s) + to_move m (snd s)" and U = "\<lambda>_ _. 0"])
    fix s and g :: unit assume p: "?P s g" "\<not> (\<forall>z'. \<not> link_step e i j cap s z')"
    then obtain u v where uv: "link_step e i j cap (fst s, snd s) (u, v)" by auto
    from stalling_step [OF p(1) uv assms(2-6)] uv
    show "\<exists>s' g'. link_step e i j cap s s' \<and> ?P s' g' \<and> (to_move n (fst s') + to_move m (snd s') < to_move n (fst s) + to_move m (snd s)
        \<or> to_move n (fst s') + to_move m (snd s') = to_move n (fst s) + to_move m (snd s) \<and> (0 :: nat) < 0)"
      by (intro exI [of _ "(u, v)"]) simp
  qed (use assms(1) in simp)
  then show ?thesis by blast
qed

section \<open>Properties\<close>

text \<open>An end of a connection that has just been made, with what the other has said.\<close>

definition fresh_end :: "'k system \<Rightarrow> nat \<Rightarrow> 'k world \<Rightarrow> string \<Rightarrow> 'k line_end" where
  "fresh_end s i n bs = \<lparr>prog = s\<lparr>world := n, incoming := (incoming s)(i := bs)\<rparr>, got = [], unsent = []\<rparr>"

lemma fresh_end_answers:
  assumes "bs = said (Ask # gs)"
  shows "answers i n (said gs) (fresh_end s i n bs) [] [] \<and> to_move n (fresh_end s i n bs) = Suc (length ask) + length (said [Answer (node_chain n)])"
  using assms by (simp add: answers_def fresh_end_def to_move_def ask_def)





end
