(* ===== verification/Spec2Isabelle.thy ===== *)
theory Spec2Isabelle
  imports Oversize Trunk Buffers
begin

text \<open>
  MiniCoin is a small peer-to-peer currency in C: a node keeps a chain of blocks mined by proof of
  work, a mempool of signed payments, and TCP connections to other nodes, and a menu lets the user
  mine and pay. This development models the whole program and proves what its parts promise and where
  they fall short.

  \<^bold>\<open>Theories.\<close> Each follows one source file or one thread of the program, with the operations first and
  the facts behind them.
  \<^item> \<open>Prelude\<close>: machine types, checked array access, signed 64-bit sums, folding a partial operation, the
    proof hints \<open>clib\<close> and \<open>wf_facts\<close>. \<open>Table\<close>: the interface of the bounded arrays. \<open>CLib\<close>: the C
    library functions the program calls, on texts. \<open>Console\<close>: \<open>scanf\<close>, padded fields, UTF-8.
  \<^item> \<open>Tx\<close> (\<open>src/tx.c\<close>): \<open>tx_t\<close>, its hash, \<open>tx_create\<close>, \<open>tx_create_coinbase\<close>.
  \<^item> \<open>Block\<close> (\<open>src/block.c\<close>): \<open>block_t\<close>, \<open>block_compute_hash\<close>, \<open>block_mine\<close>, \<open>block_validate\<close>, genesis.
  \<^item> \<open>Chain\<close> (\<open>src/chain.c\<close>): \<open>blockchain_t\<close>, \<open>chain_add_block\<close>, \<open>chain_validate\<close>,
    \<open>chain_get_balance\<close>, \<open>chain_replace\<close>.
  \<^item> \<open>Json\<close>, \<open>Message\<close>, \<open>Protocol\<close> (\<open>src/protocol.c\<close>): the hand-written JSON helpers; the message
    envelope; transactions, blocks and chains as text.
  \<^item> \<open>Wallet\<close> (\<open>src/wallet.c\<close>): keys, signing, verifying, the key file.
  \<^item> \<open>Net\<close> (\<open>src/net.c\<close>): framing on a socket, \<open>handle_message\<close>, the peer table, broadcasting.
    \<open>Reader\<close>: the loops of \<open>peer_handler\<close> and \<open>accept_thread\<close>. \<open>Snapshot\<close>: \<open>protocol_serialize_chain\<close>
    in small steps, next to threads that change the chain. \<open>Oversize\<close>: a chain that does not fit a message.
  \<^item> \<open>App\<close> (\<open>src/main.c\<close>): mempool, callbacks, \<open>do_mine\<close>, \<open>do_send\<close>, start and end. \<open>Sync\<close>: these callbacks
    and the threads of the network together.
  \<^item> \<open>Screen\<close> (\<open>src/main.c\<close>, \<open>src/block.c\<close>, \<open>src/chain.c\<close>): the menu, the pages and the animations.
    \<open>Report\<close>: what mining, sending and connecting write while they run.
  \<^item> \<open>Menu\<close> (\<open>src/main.c\<close>): the menu loop on the typed text, and \<open>main\<close> as a whole when it runs alone.
  \<^item> \<open>System\<close>: all threads together, as the step relation \<open>sys_step\<close>, and its invariant. \<open>Progress\<close>: which
    steps the threads can always take. \<open>Gossip\<close>: what two nodes do with each other's blocks, without the
    program around it. \<open>Duo\<close>: two whole programs on one connection, and that they follow this protocol.
    \<open>Handshake\<close>: what they say to each other when the connection is made. \<open>Buffers\<close>: the same conversation
    byte by byte, on a connection that holds a bounded number of bytes. \<open>Flood\<close>: how the blocks of one
    miner spread in a network of any shape, as numbers; \<open>Mesh\<close>: any number of whole programs, connected in any
    way, and that they follow this protocol. \<open>Overtake\<close>: what happens when a thread has added a block, or has
    read the chain for an answer, and another thread sends first. \<open>Trunk\<close>: that this does no harm where the
    connections form no cycle.
    This theory: the properties of the whole program.

  \<^bold>\<open>State.\<close> C structs are records with the source's field names. An array with a count is the list of
  its used part, except in \<open>block_t\<close>, where \<open>tx_count\<close> is a field that nothing ties to the array of
  ten slots: the program takes it from the network, and so does the model. The shared
  \<open>blockchain_t\<close> is the field \<open>node_chain\<close> of the node, and the static data of \<open>main.c\<close> is its field
  \<open>app\<close>. \<open>outbox\<close> and \<open>closed\<close> record what was sent and which descriptors were closed, and \<open>opened\<close>, in
  the state of the whole system, which were opened.

  \<^bold>\<open>Results.\<close> A function that can reach undefined behaviour (a read outside an array, a signed
  overflow, a null pointer) or that may not return has an \<open>option\<close> type, and \<open>None\<close> is that outcome.
  C return codes stay integers. The mining loop is a \<open>partial_function\<close>: that it returns is a theorem,
  under the condition that some nonce meets the difficulty. No definition uses fuel; the other loops
  are structural or have a measure, the menu loop and the reader threads among them, which end because
  every turn reads at least one character.

  \<^bold>\<open>Parameters.\<close> SHA-256 is a function to 256-bit digests; OpenSSL's key functions are the record
  \<open>crypto\<close>, with \<open>ed25519\<close> for what the signing property assumes of them and \<open>crypto_bounds\<close> for the
  lengths they keep; \<open>malloc\<close>, \<open>calloc\<close> and \<open>send\<close> are the record \<open>env\<close>, with \<open>reliable\<close> for an
  environment in which they succeed; the clock, \<open>ctime\<close>, \<open>rand\<close>, the keyboard and the results of
  \<open>socket\<close>, \<open>bind\<close>, \<open>listen\<close>, \<open>accept\<close>, \<open>connect\<close> and \<open>getaddrinfo\<close> are arguments.

  \<^bold>\<open>Interfaces.\<close> \<open>wire_codec\<close> (\<open>Message\<close>) is what the envelope needs of an encoder and a decoder;
  \<open>stream_codec\<close> (\<open>Net\<close>) adds that the text fits the receiving buffer. Both are interpreted by the
  codecs of transactions, blocks and chains. \<open>node_callbacks\<close> (\<open>Net\<close>) is what the network layer needs
  of the callbacks; \<open>App\<close> interprets it by those that \<open>main\<close> installs, once for the invariant and once
  for the data that they leave alone. \<open>bounded_table\<close> (\<open>Table\<close>) is interpreted by the mempool and by
  the table of peers.

  \<^bold>\<open>Threads.\<close> \<open>main_step\<close> cuts the main thread at its locks. \<open>net_step\<close> is a step of another thread: a reader
  thread tests the flags of its loop and then waits (\<open>waiting\<close>), and receives and handles a message or
  the end of the connection in a second step, in any order with the others; the accept thread gets a
  connection (\<open>arriving\<close>) and enters it in a second step. \<open>sys_step\<close> adds the signal handler.
  \<open>run\<close> counts the steps of the main thread. The same operations without interference are \<open>main_run\<close>,
  which is shown to be one of the runs. In \<open>Duo\<close> two such programs run side by side, and what one writes
  to its socket is appended to what the other will read; they start connected, with nothing under way, and
  neither user opens another connection. \<open>Mesh\<close> does the same for any finite number of programs; a socket is a
  program and one of its slots, and \<open>wire\<close> joins the two ends of every connection. \<open>Snapshot\<close> cuts the one function that reads the chain without
  its lock: a step for each time that it reads the length, and one for each turn of its loop. \<open>Overtake\<close> cuts
  the operations that add a block and then announce it, or read the chain and then send it, between the two;
  \<open>fine_step\<close> (\<open>Trunk\<close>) does the same inside the running programs, and every step of \<open>Duo\<close> and \<open>Mesh\<close> is a
  run of its steps (\<open>side_step_fine\<close>). Everywhere but in \<open>Buffers\<close> a socket takes all that is sent; there
  \<open>byte_step\<close> moves one byte, and the reader thread that sends an answer does not read meanwhile.

  \<^bold>\<open>What is proved.\<close> Every reachable state keeps the invariant of chain, mempool and peers, and the
  chain only grows. After an interrupt the main thread stops within five of its own steps, and then
  every descriptor has been closed exactly once, unless a connection was just arriving; but the threads of the
  network live on, and a reader that was waiting closes its descriptor again. A reader thread equals a fold over the messages of a
  reference framing, and the whole node runs into no undefined behaviour on streams whose transaction
  counts stay within the array, as long as its balances do not overflow and its times can be shown. Mining
  returns the least nonce, its block is accepted, and it adds the reward and nothing else to the sum
  of the balances; balances are the ledger's sums as long as the volume stays below 2 to the 63.
  Transactions, blocks and chains survive serialisation within the buffers of 1024, 8192, 16384 and
  \<open>n * 16384 + 256\<close> bytes (560 bytes per transaction and 5914 per block are the bounds proved), and
  travel from node to node unchanged, the mempool to a new peer included; one message holds any chain of
  at most 177 blocks, and a chain whose blocks but the last fill the \<open>MAX_MSG_SIZE\<close> bytes of a message
  (with 7040 blocks a valid chain always does, far below \<open>MAX_BLOCKS\<close>) never reaches anybody who asks for it.
  Serialising without the lock is harmless next to appended blocks, and overflows its
  buffer when a much longer chain is adopted meanwhile. Two nodes that connect end, however their readers
  run, with the longer of their chains and both mempools, byte by byte as well, if the connection has room for
  what one of them says; if it has no room for either answer, both readers wait for each other for ever. Two connected programs refine the gossip protocol, and
  once they have forked they stay forked, as nothing makes a node ask for a chain again. With one miner
  there is no fork in a network of any shape: relaying comes to an end, also on cycles, and then all nodes that
  the miner reaches have its chain, provided that no thread sends between the two halves of another one: two
  blocks that overtake each other, or a block that overtakes the answer to a request, leave the receiver behind
  for ever. Where every node hears of the miner over one connection only, the blocks cannot overtake each other
  and all nodes still end with the miner's chain. The properties on defects state them exactly: an unchecked
  transaction count, an unchecked time, double spending within a block, negative amounts, signatures that are never checked
  and do not cover the payment, braces that break the parser, a genesis block that is never compared,
  indices that only one of the two ways to receive a block checks, a mempool that forgets pending
  payments and keeps confirmed ones, a receipt for a payment that is gone, an address prompt that leaves
  part of its answer to the next.

  \<^bold>\<open>Not modelled.\<close> The banner at the start and the lines that the network and library functions log;
  mutexes and threads as such: a section under a lock is one atomic step, and so is the handling of one
  message and the entry of one peer, except in \<open>Overtake\<close> and \<open>Trunk\<close>, and in \<open>Snapshot\<close>, which leaves out only that a single
  block is overwritten while it is read; the mutexes that the end destroys and the memory that is leaked or freed,
  except the keys of the wallet; the end of the process, which stops the late threads at some time after the last step. The
  stream of a peer is all that it will send, so a reader waits before a message and not inside one,
  and the questions of the menu see the whole of what is typed.
\<close>

section \<open>Properties\<close>

text \<open>
  C1. The invariant of the running program: from a successful start, through any interleaving of
  reader threads, new connections, interrupts and the sections of the main thread, whatever is typed
  and whatever bytes the peers send, every state that is reached has a non-empty chain of at most
  \<open>MAX_BLOCKS\<close> blocks that is linked and sealed from its second block on, a mempool of at most 100
  well-formed transactions, and at most 16 peers. From there on the chain only changes by growing: a
  later state has the same chain or a longer one.
\<close>

theorem reachable_invariant:
  assumes "main_start (sha e) cr gen can_write fs lr p = Some (Inr n)" "crypto_bounds cr"
    "(sys_step e cr ctime)\<^sup>*\<^sup>* (boot n inp bytes) s"
    "(sys_step e cr ctime)\<^sup>*\<^sup>* s s'"
  shows "1 \<le> chain_length (node_chain (world s)) \<and> chain_length (node_chain (world s)) \<le> MAX_BLOCKS
    \<and> (\<forall>i. 0 < i \<and> i < chain_length (node_chain (world s)) \<longrightarrow>
         prev_hash (blocks (node_chain (world s)) ! i) = hash (blocks (node_chain (world s)) ! (i - 1))
         \<and> sealed (sha e) (blocks (node_chain (world s)) ! i))
    \<and> length (mempool (app (world s))) \<le> MEMPOOL_SIZE \<and> (\<forall>t \<in> set (mempool (app (world s))). tx_ok t)
    \<and> length (peers (world s)) \<le> MAX_PEERS
    \<and> (node_chain (world s') = node_chain (world s)
       \<or> chain_length (node_chain (world s)) < chain_length (node_chain (world s')))"
proof -
  have s: "sys_inv e s"
    using sys_steps_inv [OF assms(3) boot_inv [OF assms(1,2)] assms(2)] by simp
  then have "blocks (node_chain (world s)) \<noteq> []" by (simp add: sys_inv_def node_inv_def chain_inv_def)
  moreover note sys_steps_inv [OF assms(4) s assms(2)]
  ultimately show ?thesis
    using s by (simp add: sys_inv_def node_inv_def chain_inv_def chain_shape_def app_ok_def links_def
        link_ok_def chain_length_def grows_def Suc_le_eq)
qed

theorem reachable_invariant_witness:
  "\<exists>n n' b'. demo_start n
    \<and> (sys_step demo_env demo_crypto (\<lambda>_. Some LF))\<^sup>*\<^sup>* (boot n (''1'' @ LF @ []) (\<lambda>_. []))
        \<lparr>world = n', pc = Publishing b', typed = LF, incoming = (\<lambda>_. []), waiting = {}, arriving = None,
         opened = [server_fd n]\<rparr>
    \<and> length (mempool (app n')) \<le> MEMPOOL_SIZE"
proof -
  obtain n where n: "demo_start n" by (rule demo_starts)
  note started = n [unfolded demo_start_def]
  note inv = main_start_inv [OF started demo_crypto_bounds]
  obtain h b n1 k b' where m: "mine_header 1800000000 n = Some h" "mine_collect demo_env h n = Some (b, n1)"
    "block_mine (sha demo_env) b = Some (k, b')"
    by (rule mining_stages [of demo_env n 1800000000])
      (use inv in \<open>auto simp: i64_ok_def zero_sha_pow MAX_BLOCKS_def\<close>)
  obtain menu where menu: "print_menu n = Some menu" using fresh_menu [OF started] by blast
  let ?ct = "\<lambda>_ :: int. Some LF" and ?no = "\<lambda>_ :: nat. [] :: string"
  let ?s = "\<lambda>w p i. \<lparr>world = w, pc = p, typed = i, incoming = ?no, waiting = {}, arriving = None, opened = [server_fd n]\<rparr>"
  have choice: "scan_s 15 (''1'' @ LF @ []) = (Some ''1'', LF @ [])"
    by (rule choice_line) (simp_all add: is_space_def char_code_def)
  have start: "boot n (''1'' @ LF @ []) ?no = ?s n AtMenu (''1'' @ LF @ [])" by (simp add: boot_def)
  have "main_step demo_env demo_crypto ?ct (?s n AtMenu (''1'' @ LF @ [])) (?s n Prompt (''1'' @ LF @ []))"
    using show_menu [of "?s n AtMenu (''1'' @ LF @ [])" menu] main_start_sockets [OF started] menu by simp
  moreover have "main_step demo_env demo_crypto ?ct (?s n Prompt (''1'' @ LF @ [])) (?s n (Collecting h) LF)"
    using start_mining [of "?s n Prompt (''1'' @ LF @ [])" "''1''" LF 1800000000 h] choice m(1)
    by (simp add: i64_ok_def menu_choice_def strcmp_eq_def)
  moreover have "main_step demo_env demo_crypto ?ct (?s n (Collecting h) LF) (?s n1 (Searching b) LF)"
    using collect [of "?s n (Collecting h) LF" h demo_env b n1] m(2) by simp
  moreover have "main_step demo_env demo_crypto ?ct (?s n1 (Searching b) LF) (?s n1 (Publishing b') LF)"
    using search [of "?s n1 (Searching b) LF" b demo_env k b'] m(3) by simp
  ultimately have "(main_step demo_env demo_crypto ?ct)\<^sup>*\<^sup>* (boot n (''1'' @ LF @ []) ?no) (?s n1 (Publishing b') LF)"
    unfolding start by (meson converse_rtranclp_into_rtranclp rtranclp.rtrancl_refl)
  then have steps: "(sys_step demo_env demo_crypto ?ct)\<^sup>*\<^sup>* (boot n (''1'' @ LF @ []) ?no) (?s n1 (Publishing b') LF)"
    by (rule main_steps_sys)
  from reachable_invariant [OF started demo_crypto_bounds steps rtranclp.rtrancl_refl] n steps show ?thesis
    by (intro exI [of _ n] exI [of _ n1] exI [of _ b']) simp
qed





text \<open>
  C23. Nobody waits for the threads at the end: after the stop, a reader thread that was waiting for its
  peer closes the descriptor of its slot a second time as soon as the stream ends, and a connection that
  was arriving becomes an active peer of the stopped node.
\<close>

theorem stop_races:
  assumes "main_start (sha e) cr gen can_write fs lr p = Some (Inr n)" "crypto_bounds cr" "reliable e"
    "(sys_step e cr ctime)\<^sup>*\<^sup>* (boot n inp bytes) s" "main_step e cr ctime s s'" "pc s' = Stopped"
  shows "(i \<in> waiting s \<and> next_frame (incoming s i) = None \<longrightarrow>
      (\<exists>s''. net_step e s' s'' \<and> 2 \<le> count (mset (closed (world s''))) (fd (peers (world s) ! i))))
    \<and> (arriving s = Some (c, h, q) \<and> 0 \<le> c \<and> length (peers (world s)) < MAX_PEERS \<longrightarrow>
      (\<exists>s'' pr. net_step e s' s'' \<and> pc s'' = Stopped \<and> pr \<in> set (peers (world s'')) \<and> active pr \<and> fd pr = c))"
proof -
  have s: "sys_inv e s" using sys_steps_inv [OF assms(4) boot_inv [OF assms(1,2)] assms(2)] by simp
  obtain inp' where s': "s' = s\<lparr>world := main_stop (world s), pc := Stopped, typed := inp'\<rparr>"
    using main_step_stops [OF assms(5,6)] by blast
  have inv: "sys_inv e s'" using main_step_inv [OF assms(5) s assms(2)] by simp
  have "arriving s' = arriving s" "length (peers (world s')) = length (peers (world s))"
    by (simp_all add: s' main_stop_def node_stop_def Let_def)
  with late_reader [OF s main_step_not_stopped [OF assms(5)], of i inp', folded s']
    late_peer [OF inv assms(3,6), of c h q] show ?thesis by simp
qed

theorem stop_races_witness:
  "\<exists>n s s'. demo_start n \<and> (sys_step demo_env demo_crypto (\<lambda>_. Some LF))\<^sup>*\<^sup>* (boot n [] (\<lambda>_. [])) s
    \<and> main_step demo_env demo_crypto (\<lambda>_. Some LF) s s' \<and> pc s' = Stopped
    \<and> (\<exists>s''. net_step demo_env s' s'' \<and> 2 \<le> count (mset (closed (world s''))) 9)
    \<and> (\<exists>s'' pr. net_step demo_env s' s'' \<and> pc s'' = Stopped \<and> pr \<in> set (peers (world s'')) \<and> active pr \<and> fd pr = 10)"
proof -
  obtain n where n: "demo_start n" by (rule demo_starts)
  note started = n [unfolded demo_start_def]
  let ?ct = "\<lambda>_ :: int. Some LF" and ?b = "boot n [] (\<lambda>_. [])"
  let ?a = "?b\<lparr>arriving := Some (9, ''h'', 1), opened := opened ?b @ accept_opens (9, ''h'', 1)\<rparr>"
  have inv: "world_inv demo_env n" using boot_inv [OF started demo_crypto_bounds] by (simp add: sys_inv_def boot_def)
  note fresh = main_start_sockets [OF started]
  obtain m where m: "accept_step demo_env (app_callbacks demo_env) n (9, ''h'', 1) = Some m"
    using accept_step_defined [OF demo_env_facts(1)] by blast
  then obtain r where "add_peer demo_env (app_callbacks demo_env) n 9 ''h'' 1 = Some (r, m)"
    by (auto simp: accept_step_def)
  from app_cb.add_peer_effect [OF inv this] fresh accept_step_inv [OF inv m]
  have peer: "peers m = [\<lparr>fd = 9, host = strncpy_to ''h'' 255, port = 1, active = True\<rparr>]" "running m"
    by (simp_all add: MAX_PEERS_def gains_def)
  let ?e = "?a\<lparr>world := m, arriving := None\<rparr>"
  let ?w = "?e\<lparr>waiting := insert 0 (waiting ?e)\<rparr>"
  let ?c = "?w\<lparr>arriving := Some (10, ''g'', 2), opened := opened ?w @ accept_opens (10, ''g'', 2)\<rparr>"
  let ?s = "?c\<lparr>world := sigint_handler m\<rparr>"
  let ?t = "?s\<lparr>world := main_stop (world ?s), pc := Stopped\<rparr>"
  have "net_step demo_env ?b ?a" by (rule peer_arrives) (simp_all add: boot_def fresh)
  moreover have "net_step demo_env ?a ?e" by (rule peer_enters [of _ "(9, ''h'', 1)"]) (simp_all add: boot_def m)
  moreover have "net_step demo_env ?e ?w" by (rule reader_waits) (simp_all add: boot_def peer)
  moreover have "net_step demo_env ?w ?c" by (rule peer_arrives) (simp_all add: boot_def peer)
  moreover have "sys_step demo_env demo_crypto ?ct ?c ?s"
    using interrupt [of demo_env demo_crypto ?ct ?c] by simp
  ultimately have reach: "(sys_step demo_env demo_crypto ?ct)\<^sup>*\<^sup>* ?b ?s"
    by (meson sys_step.net converse_rtranclp_into_rtranclp rtranclp.rtrancl_refl)
  have last: "main_step demo_env demo_crypto ?ct ?s ?t"
    by (intro leave) (simp_all add: boot_def sigint_handler_def)
  have facts: "pc ?t = Stopped" "0 \<in> waiting ?s" "next_frame (incoming ?s 0) = None" "fd (peers (world ?s) ! 0) = 9"
    "arriving ?s = Some (10, ''g'', 2)" "length (peers (world ?s)) < MAX_PEERS"
    by (simp_all add: boot_def next_frame_def sigint_handler_def peer MAX_PEERS_def MAX_MSG_SIZE_def)
  from stop_races [OF started demo_crypto_bounds demo_env_facts(1) reach last facts(1), of 0 10 "''g''" 2] facts n reach last
  show ?thesis by (intro exI [of _ n] exI [of _ ?s] exI [of _ ?t]) simp
qed

text \<open>
  C24. The program without interference is one of these runs: when \<open>main\<close> runs alone and returns 0, its
  final state is reached from the start by steps of the system, so whatever holds of the reachable
  states holds of it.
\<close>

theorem main_run_reachable:
  assumes "main_run e cr ctime gen can_write fs lr arg ws inp = Some (0, Some n')" "\<forall>k. i64_ok (clock (ws k))"
  shows "\<exists>n s. main_start (sha e) cr gen can_write fs lr (main_port arg) = Some (Inr n)
    \<and> (sys_step e cr ctime)\<^sup>*\<^sup>* (boot n inp bytes) s \<and> pc s = Stopped \<and> world s = n'"
proof -
  obtain r where st: "main_start (sha e) cr gen can_write fs lr (main_port arg) = Some r"
    using assms(1) by (auto simp: main_run_def)
  obtain n rest n1 where n: "main_start (sha e) cr gen can_write fs lr (main_port arg) = Some (Inr n)"
    and loop: "main_loop e cr ctime ws 0 inp n = Some (rest, n1)" "n' = main_stop n1"
    using assms(1) st by (cases r) (auto simp: main_run_def)
  have "main_loop e cr ctime ws 0 (typed (boot n inp bytes)) (world (boot n inp bytes)) = Some (rest, n1)"
    "pc (boot n inp bytes) = AtMenu" using loop by (simp_all add: boot_def)
  from main_steps_sys loop_path [OF this assms(2)] n loop(2) show ?thesis by fastforce
qed

theorem main_run_reachable_witness:
  "\<exists>n n' s. main_run demo_env demo_crypto (\<lambda>_. Some LF) demo_keygen (\<lambda>_. True) (\<lambda>_. None) demo_listen None
      (\<lambda>_. \<lparr>clock = 0, sign_ctx = True, dialled = (\<lambda>_ _. \<lparr>resolve_rc = 1, dial_fd = 0, connect_rc = 0\<rparr>)\<rparr>) (''q'' @ LF @ []) = Some (0, Some n')
    \<and> (sys_step demo_env demo_crypto (\<lambda>_. Some LF))\<^sup>*\<^sup>* (boot n (''q'' @ LF @ []) (\<lambda>_. [])) s \<and> world s = n'"
proof -
  obtain n where n: "demo_start n" by (rule demo_starts)
  note started = n [unfolded demo_start_def]
  let ?ws = "\<lambda>_ :: nat. \<lparr>clock = 0, sign_ctx = True, dialled = (\<lambda>_ _. \<lparr>resolve_rc = 1, dial_fd = 0, connect_rc = 0\<rparr>)\<rparr>"
  obtain menu where menu: "print_menu n = Some menu" using fresh_menu [OF started] by blast
  have "scan_s 15 (''q'' @ LF @ []) = (Some ''q'', LF @ [])"
    by (rule choice_line) (simp_all add: is_space_def char_code_def)
  then have "main_loop demo_env demo_crypto (\<lambda>_. Some LF) ?ws 0 (''q'' @ LF @ []) n = Some (LF @ [], n)"
    using menu main_start_sockets [OF started]
    by (simp add: main_loop.simps main_turn_def menu_choice_def strcmp_eq_def)
  then have "main_run demo_env demo_crypto (\<lambda>_. Some LF) demo_keygen (\<lambda>_. True) (\<lambda>_. None) demo_listen None
      ?ws (''q'' @ LF @ []) = Some (0, Some (main_stop n))"
    using started by (simp add: main_run_def main_port_def)
  from main_run_reachable [OF this, of "\<lambda>_. []"] this show ?thesis by (auto simp: i64_ok_def)
qed



end
